(* ===== verification/C_Prelude.thy ===== *)
theory C_Prelude
  imports "HOL-Library.Word" "HOL-Library.Multiset"
begin

text \<open>
  The prelude of the development: the C integer types as words, the facts about words and
  lists that several components share, and the collections their proofs draw on.

  C's \<open>unsigned char\<close>, \<open>unsigned short\<close>, \<open>unsigned int\<close> and \<open>size_t\<close> are words of 8, 16,
  32 and 64 bits, so that shifts, truncating assignments and unsigned arithmetic behave as the
  code's do.  A pointer is an \<open>option\<close> (\<open>None\<close> is \<open>NULL\<close>) of an address, and an address is a
  natural number.
\<close>

unbundle bit_operations_syntax

type_synonym u8 = "8 word"
type_synonym u16 = "16 word"
type_synonym u32 = "32 word"
type_synonym u64 = "64 word"
type_synonym addr = nat

named_theorems word_bits \<open>facts that reduce an equation of words to its bits\<close>
named_theorems loop_eqs \<open>equations of the loops of the code, for unfolding on demand\<close>

subsection \<open>Words\<close>

lemma word_eq_bits [word_bits]:
  fixes x y :: "'a::len word"
  shows "x = y \<longleftrightarrow> (\<forall>n < LENGTH('a). bit x n = bit y n)"
  by (auto simp: bit_eq_iff dest: bit_imp_le_length)

lemma xor_cancel_left [simp]:
  fixes x y :: "'a::len word"
  shows "x XOR (x XOR y) = y"
  by (simp add: bit_eq_iff bit_xor_iff)

lemma xor_eq_zero_iff [simp]:
  fixes x y :: "'a::len word"
  shows "x XOR y = 0 \<longleftrightarrow> x = y"
  by (auto simp: bit_eq_iff bit_xor_iff)

lemma xor_interchange:
  fixes a b c d :: "'a::len word"
  shows "(a XOR b) XOR (c XOR d) = (a XOR c) XOR (b XOR d)"
  by (auto simp: bit_eq_iff bit_xor_iff)

lemma high_low_xor:
  fixes x :: "'a::len word"
  shows "push_bit n (drop_bit n x) XOR take_bit n x = x"
  by (auto simp: bit_eq_iff bit_xor_iff bit_push_bit_iff bit_drop_bit_eq bit_take_bit_iff
      dest: bit_imp_le_length)

lemma bit_shl1:
  fixes x :: "'a::len word"
  shows "bit (push_bit 1 x) n \<longleftrightarrow> 0 < n \<and> n < LENGTH('a) \<and> bit x (n - 1)"
  by (simp only: bit_push_bit_iff possible_bit_word) auto

lemmas bit_shl1' = bit_shl1 [unfolded One_nat_def]

lemma unat_u8_less [simp]: "unat (x :: u8) < 256"
  using unsigned_less [of x] by simp

lemma unat_u16_less [simp]: "unat (x :: u16) < 65536"
  using unsigned_less [of x] by simp

subsection \<open>Lists\<close>

lemma foldl_inv:
  assumes "P s" and "\<And>s x. x \<in> set xs \<Longrightarrow> P s \<Longrightarrow> P (f s x)"
  shows "P (foldl f s xs)"
  using assms by (induction xs arbitrary: s) auto

lemma foldl_cong_step:
  assumes "\<And>s x. f s x = g s x"
  shows "foldl f s xs = foldl g s xs"
  using assms by (induction xs arbitrary: s) auto

lemma mset_concat_update:
  assumes "i < length ls"
  shows "mset (concat (ls[i := l])) + mset (ls ! i) = mset (concat ls) + mset l"
  using assms
proof (induction ls arbitrary: i)
  case Nil
  then show ?case by simp
next
  case (Cons x xs)
  then show ?case by (cases i) (auto simp: union_assoc union_commute union_lcomm)
qed

lemma mset_concat_cons:
  "i < length ls \<Longrightarrow> mset (concat (ls[i := x # ls ! i])) = add_mset x (mset (concat ls))"
  using mset_concat_update [of i ls "x # ls ! i"] by simp

lemma mset_concat_remove1:
  assumes "i < length ls" and "x \<in> set (ls ! i)"
  shows "add_mset x (mset (concat (ls[i := remove1 x (ls ! i)]))) = mset (concat ls)"
proof -
  obtain L where "mset (ls ! i) = add_mset x L"
    using assms(2) by (metis insert_DiffM set_mset_mset)
  then show ?thesis
    using mset_concat_update [OF assms(1), of "remove1 x (ls ! i)"] by simp
qed

text \<open>A loop that assigns every element of an array below \<open>n\<close>.\<close>

lemma foldl_update:
  assumes "n \<le> length arr"
  shows "foldl (\<lambda>ls i. ls[i := f i]) arr [0..<n] = map f [0..<n] @ drop n arr"
  using assms
proof (induction n)
  case 0
  then show ?case by simp
next
  case (Suc n)
  then have "drop n arr = arr ! n # drop (Suc n) arr" by (simp add: Cons_nth_drop_Suc)
  with Suc show ?case by (simp add: list_update_append)
qed

lemma find_SomeD: "find P xs = Some x \<Longrightarrow> x \<in> set xs \<and> P x"
  by (auto simp: find_Some_iff intro: nth_mem)

lemma map_eqI: "(\<And>k v. m k = Some v \<longleftrightarrow> m' k = Some v) \<Longrightarrow> m = m'"
  by (rule ext) (metis not_None_eq)

lemma funpow_eight: "(f ^^ 8) x = f (f (f (f (f (f (f (f x)))))))"
  by (simp add: numeral_eq_Suc)

lemma funpow_add_apply: "(f ^^ (m + n)) x = (f ^^ n) ((f ^^ m) x)"
  by (metis add.commute comp_apply funpow_add)

subsection \<open>Integers in memory\<close>

text \<open>The bytes of an integer, lowest first.\<close>

definition u16_bytes :: "u16 \<Rightarrow> u8 list" where
  "u16_bytes x = [ucast x, ucast (drop_bit 8 x)]"

definition u32_bytes :: "u32 \<Rightarrow> u8 list" where
  "u32_bytes x = [ucast x, ucast (drop_bit 8 x), ucast (drop_bit 16 x), ucast (drop_bit 24 x)]"

definition u32_of_bytes :: "u8 list \<Rightarrow> u32" where
  "u32_of_bytes b =
     ucast (b ! 0) OR push_bit 8 (ucast (b ! 1)) OR push_bit 16 (ucast (b ! 2)) OR push_bit 24 (ucast (b ! 3))"

lemma length_u32_bytes [simp]: "length (u32_bytes x) = 4"
  by (simp add: u32_bytes_def)

lemma u32_of_bytes_u32_bytes [simp]: "u32_of_bytes (u32_bytes x) = x"
proof (rule bit_word_eqI)
  fix n assume n: "n < LENGTH(32)"
  have bytes: "u32_of_bytes (u32_bytes x) = ucast (ucast x :: u8) OR push_bit 8 (ucast (ucast (drop_bit 8 x) :: u8))
      OR push_bit 16 (ucast (ucast (drop_bit 16 x) :: u8)) OR push_bit 24 (ucast (ucast (drop_bit 24 x) :: u8))"
    by (simp add: u32_of_bytes_def u32_bytes_def numeral_eq_Suc)
  consider "n < 8" | "8 \<le> n" "n < 16" | "16 \<le> n" "n < 24" | "24 \<le> n" by linarith
  then show "bit (u32_of_bytes (u32_bytes x)) n = bit x n"
    unfolding bytes using n by cases (auto simp: bit_or_iff bit_push_bit_iff bit_ucast_iff bit_drop_bit_eq)
qed

subsection \<open>Runs that can go wrong\<close>

text \<open>
  Where C has undefined behaviour or a kernel would stop, a model says so: an operation returns
  \<open>Inl\<close> of what went wrong, or \<open>Inr\<close> of its result.  \<open>andthen\<close> runs the second part on the
  result of the first.
\<close>

datatype fault =
    Null_Deref        \<comment> \<open>a \<open>NULL\<close> pointer is followed\<close>
  | Use_After_Free    \<comment> \<open>freed memory is read or written\<close>
  | Out_Of_Bounds     \<comment> \<open>an index past the end of an array\<close>
  | Uninitialised     \<comment> \<open>a value is read that was never written\<close>
  | Bad_Shift         \<comment> \<open>a shift by a negative amount\<close>
  | Signed_Overflow   \<comment> \<open>a signed result that does not fit its type\<close>
  | Protection        \<comment> \<open>memory is written or executed that may not be\<close>
  | Deadlock          \<comment> \<open>a spin lock that is already held\<close>

definition andthen :: "fault + 'a \<Rightarrow> ('a \<Rightarrow> fault + 'b) \<Rightarrow> fault + 'b" where
  "andthen r k = (case r of Inl e \<Rightarrow> Inl e | Inr x \<Rightarrow> k x)"

lemma andthen_simps [simp]:
  "andthen (Inl e) k = Inl e"
  "andthen (Inr x) k = k x"
  by (simp_all add: andthen_def)

lemma andthen_Inr_iff: "andthen r k = Inr y \<longleftrightarrow> (\<exists>x. r = Inr x \<and> k x = Inr y)"
  by (cases r) simp_all

definition deref :: "'a option \<Rightarrow> fault + 'a" where
  "deref p = (case p of None \<Rightarrow> Inl Null_Deref | Some x \<Rightarrow> Inr x)"

lemma deref_simps [simp]:
  "deref None = Inl Null_Deref"
  "deref (Some x) = Inr x"
  by (simp_all add: deref_def)

text \<open>An allocated buffer: \<open>NULL\<close>, live with its contents, or freed with the pointer left behind.\<close>

datatype 'a buffer = Null | Live (contents: 'a) | Dangling

end
