(* ===== verification/Gf2.thy ===== *)
theory Gf2
  imports C_Prelude
begin

text \<open>
  Polynomial division over GF(2) and the shift register that computes it.  A message is a list
  of coefficients, highest degree first; \<open>gf2_rem\<close> is school-book long division by a generator
  whose leading coefficient is left implicit (the generators of \<^verbatim>\<open>crc/crc8.c\<close> and
  \<^verbatim>\<open>crc/crc16.c\<close> are written that way).  \<open>lfsr\<close> is one step of the register of
  the code's inner loops.  The theorem \<open>crc_is_remainder\<close> says that feeding bytes into the register
  computes the remainder of the message shifted up by the width of the register; the lemmas before
  it give the linearity and injectivity that table lookup and error detection rest on.
\<close>

subsection \<open>The shift register\<close>

definition lfsr :: "'a::len word \<Rightarrow> 'a word \<Rightarrow> 'a word" where
  "lfsr g r = push_bit 1 r XOR (if bit r (LENGTH('a) - 1) then g else 0)"

lemma lfsr_zero [simp]: "lfsr g 0 = 0"
  by (simp add: lfsr_def)

lemma lfsr_xor: "lfsr g (x XOR y) = lfsr g x XOR lfsr g y"
  by (auto simp: lfsr_def push_bit_xor bit_xor_iff bit_eq_iff)

lemma lfsr_pow_xor: "(lfsr g ^^ n) (x XOR y) = (lfsr g ^^ n) x XOR (lfsr g ^^ n) y"
  by (induction n) (simp_all add: lfsr_xor)

lemma lfsr_pow_zero [simp]: "(lfsr g ^^ n) 0 = 0"
  by (induction n) simp_all

lemma lfsr_low:
  fixes x :: "'a::len word"
  assumes "\<not> bit x (LENGTH('a) - 1)"
  shows "lfsr g x = push_bit 1 x"
  using assms by (simp add: lfsr_def)

lemma lfsr_pow_low:
  fixes x :: "'a::len word"
  assumes "\<And>i. bit x i \<Longrightarrow> i + n < LENGTH('a)"
  shows "(lfsr g ^^ n) x = push_bit n x"
  using assms
proof (induction n)
  case 0
  then show ?case by simp
next
  case (Suc n)
  then have IH: "(lfsr g ^^ n) x = push_bit n x" by fastforce
  have "\<not> bit (push_bit n x) (LENGTH('a) - 1)"
    using Suc.prems by (fastforce simp: bit_push_bit_iff)
  then show ?case by (simp add: IH lfsr_low)
qed

lemma lfsr_inj:
  fixes g :: "'a::len word"
  assumes "bit g 0" and "lfsr g x = lfsr g y"
  shows "x = y"
proof -
  define z where "z = x XOR y"
  have z0: "lfsr g z = 0" using assms(2) by (simp add: z_def lfsr_xor)
  have nb: "\<not> bit z (LENGTH('a) - 1)"
  proof
    assume "bit z (LENGTH('a) - 1)"
    with assms(1) have "bit (lfsr g z) 0"
      by (simp only: lfsr_def bit_xor_iff bit_shl1) simp
    with z0 show False by simp
  qed
  then have p0: "push_bit 1 z = 0" using z0 by (simp add: lfsr_low)
  have "\<not> bit z i" for i
  proof (cases "Suc i < LENGTH('a)")
    case True
    have "bit (push_bit 1 z) (Suc i) = bit z i"
      using True by (simp only: bit_shl1) simp
    with p0 show ?thesis by simp
  next
    case False
    then show ?thesis using nb
      by (metis Suc_lessI bit_imp_le_length diff_Suc_1)
  qed
  then show ?thesis by (simp add: z_def bit_eq_iff bit_xor_iff)
qed

lemma lfsr_pow_inj:
  "bit g 0 \<Longrightarrow> (lfsr g ^^ n) x = (lfsr g ^^ n) y \<Longrightarrow> x = y"
  by (induction n) (auto dest: lfsr_inj)

subsection \<open>Long division of bit lists\<close>

definition msb_bits :: "'a::len word \<Rightarrow> bool list" where
  "msb_bits x = map (bit x) (rev [0..<LENGTH('a)])"


lemma length_msb_bits [simp]: "length (msb_bits (x :: 'a::len word)) = LENGTH('a)"
  by (simp add: msb_bits_def)

lemma nth_msb_bits:
  fixes x :: "'a::len word"
  shows "i < LENGTH('a) \<Longrightarrow> msb_bits x ! i = bit x (LENGTH('a) - 1 - i)"
  by (simp add: msb_bits_def rev_nth)

lemma msb_bits_inj: "msb_bits x = msb_bits y \<Longrightarrow> x = y"
  by (rule bit_word_eqI) (auto simp: msb_bits_def)

lemma msb_bits_Cons:
  fixes r :: "'a::len word"
  shows "msb_bits r = bit r (LENGTH('a) - 1) # map (bit r) (rev [0..<LENGTH('a) - 1])"
proof -
  obtain k where "LENGTH('a) = Suc k" using len_not_eq_0 not0_implies_Suc by blast
  then show ?thesis by (simp add: msb_bits_def)
qed

fun xor_prefix :: "bool list \<Rightarrow> bool list \<Rightarrow> bool list" where
  "xor_prefix (a # as) (b # bs) = (a \<noteq> b) # xor_prefix as bs"
| "xor_prefix _ bs = bs"

lemma length_xor_prefix [simp]: "length (xor_prefix as bs) = length bs"
  by (induction as bs rule: xor_prefix.induct) auto

fun gf2_rem :: "bool list \<Rightarrow> bool list \<Rightarrow> bool list" where
  "gf2_rem g [] = []"
| "gf2_rem g (b # bs) =
     (if length bs < length g then b # bs
      else gf2_rem g (if b then xor_prefix g bs else bs))"

subsection \<open>The register computes the remainder\<close>

definition top_bit :: "bool \<Rightarrow> 'a::len word" where
  "top_bit b = (if b then push_bit (LENGTH('a) - 1) 1 else 0)"

lemma bit_top_bit: "bit (top_bit b :: 'a::len word) i \<longleftrightarrow> b \<and> i = LENGTH('a) - 1"
  by (auto simp: top_bit_def bit_exp_iff)

definition lfsr_in :: "'a::len word \<Rightarrow> 'a word \<Rightarrow> bool \<Rightarrow> 'a word" where
  "lfsr_in g r b = lfsr g (r XOR top_bit b)"

lemma xor_prefix_assoc:
  "length as = length cs \<Longrightarrow> xor_prefix as (xor_prefix cs bs) = xor_prefix (map2 (\<noteq>) as cs) bs"
proof (induction as cs arbitrary: bs rule: list_induct2)
  case Nil
  then show ?case by simp
next
  case (Cons a as c cs)
  then show ?case by (cases bs) auto
qed

lemma xor_prefix_snoc_False: "length as < length bs \<Longrightarrow> xor_prefix (as @ [False]) bs = xor_prefix as bs"
proof (induction as arbitrary: bs)
  case Nil
  then show ?case by (cases bs) auto
next
  case (Cons a as)
  then show ?case by (cases bs) auto
qed

lemma msb_bits_lfsr:
  fixes g r :: "'a::len word"
  shows "msb_bits (lfsr g r) =
     (let sh = map (bit r) (rev [0..<LENGTH('a) - 1]) @ [False]
      in if bit r (LENGTH('a) - 1) then map2 (\<noteq>) (msb_bits g) sh else sh)"
proof -
  have sh: "map (bit (push_bit 1 r)) (rev [0..<LENGTH('a)])
      = map (bit r) (rev [0..<LENGTH('a) - 1]) @ [False]"
  proof (rule nth_equalityI)
    fix i assume "i < length (map (bit (push_bit 1 r)) (rev [0..<LENGTH('a)]))"
    then show "map (bit (push_bit 1 r)) (rev [0..<LENGTH('a)]) ! i
      = (map (bit r) (rev [0..<LENGTH('a) - 1]) @ [False]) ! i"
      by (auto simp: nth_append rev_nth bit_shl1' simp del: push_bit_Suc push_bit_numeral)
  qed simp
  show ?thesis
    by (simp only: sh [symmetric] Let_def msb_bits_def lfsr_def)
      (rule nth_equalityI; auto simp: rev_nth bit_xor_iff)
qed

lemma gf2_rem_lfsr:
  fixes g r :: "'a::len word"
  shows "gf2_rem (msb_bits g) (xor_prefix (msb_bits r) (ms @ replicate LENGTH('a) False))
         = msb_bits (foldl (lfsr_in g) r ms)"
proof (induction ms arbitrary: r)
  case Nil
  have "gf2_rem G (xor_prefix R (replicate (length G) False)) = R" if "length R = length G"
    for G R :: "bool list"
  proof (cases R)
    case Nil
    with that show ?thesis by simp
  next
    case (Cons a as)
    have "xor_prefix R (replicate (length R) False) = R"
      by (induction R) auto
    with that Cons show ?thesis by auto
  qed
  then show ?case by (metis append_Nil foldl_Nil length_msb_bits)
next
  case (Cons b ms)
  define k where "k = LENGTH('a) - 1"
  define rs where "rs = map (bit r) (rev [0..<k])"
  define X where "X = ms @ replicate LENGTH('a) False"
  have split: "msb_bits r = bit r k # rs" by (simp add: msb_bits_Cons k_def rs_def)
  have len: "length rs < length X" "length (msb_bits g) \<le> length X"
    by (auto simp: rs_def X_def k_def)
  have lg: "length (msb_bits g) = length (rs @ [False])"
    by (simp add: rs_def k_def)
  have bits: "msb_bits (lfsr_in g r b) =
      (if bit r k \<noteq> b then map2 (\<noteq>) (msb_bits g) (rs @ [False]) else rs @ [False])"
  proof -
    have low: "map (bit (r XOR top_bit b)) (rev [0..<k]) = rs"
      by (auto simp: rs_def k_def bit_top_bit bit_xor_iff)
    have top: "bit (r XOR top_bit b) k \<longleftrightarrow> bit r k \<noteq> b"
      by (auto simp: k_def bit_top_bit bit_xor_iff)
    show ?thesis
      unfolding lfsr_in_def msb_bits_lfsr Let_def k_def [symmetric] low top ..
  qed
  have step: "(if bit r k \<noteq> b then xor_prefix (msb_bits g) (xor_prefix rs X) else xor_prefix rs X)
     = xor_prefix (msb_bits (lfsr_in g r b)) X"
    by (simp only: bits if_distrib [of "\<lambda>z. xor_prefix z X"] xor_prefix_assoc [OF lg, symmetric]
        xor_prefix_snoc_False [OF len(1)])
  have "gf2_rem (msb_bits g) (xor_prefix (msb_bits r) ((b # ms) @ replicate LENGTH('a) False))
     = gf2_rem (msb_bits g) (xor_prefix (msb_bits (lfsr_in g r b)) X)"
    using len by (simp add: split step [symmetric] X_def [symmetric])
  also have "\<dots> = msb_bits (foldl (lfsr_in g) (lfsr_in g r b) ms)"
    unfolding X_def by (rule Cons.IH)
  finally show ?case by simp
qed


lemma lfsr_half:
  fixes y :: "'a::len word"
  assumes "\<not> bit y 0"
  shows "lfsr g (drop_bit 1 y) = y"
proof -
  have "\<not> bit (drop_bit 1 y) (LENGTH('a) - 1)"
    by (auto simp: bit_drop_bit_eq dest: bit_imp_le_length)
  then have "lfsr g (drop_bit 1 y) = push_bit 1 (drop_bit 1 y)" by (rule lfsr_low)
  also have "\<dots> = y"
  proof (rule bit_eqI)
    fix n
    show "bit (push_bit 1 (drop_bit 1 y)) n = bit y n"
      using assms by (cases n) (auto simp only: bit_shl1 bit_drop_bit_eq dest: bit_imp_le_length, simp_all)
  qed
  finally show ?thesis .
qed

fun top_val :: "bool list \<Rightarrow> 'a::len word" where
  "top_val [] = 0"
| "top_val (b # bs) = top_bit b XOR drop_bit 1 (top_val bs)"

lemma bit_top_val:
  "bit (top_val bs :: 'a::len word) i \<longleftrightarrow>
     i < LENGTH('a) \<and> LENGTH('a) - 1 - i < length bs \<and> bs ! (LENGTH('a) - 1 - i)"
proof (induction bs arbitrary: i)
  case Nil
  then show ?case by simp
next
  case (Cons b bs)
  show ?case
  proof (cases "i < LENGTH('a) - 1")
    case True
    then have e: "LENGTH('a) - Suc i = Suc (LENGTH('a) - Suc (Suc i))" by simp
    from True show ?thesis
      by (auto simp: bit_xor_iff bit_top_bit bit_drop_bit_eq Cons.IH e)
  next
    case False
    then show ?thesis
      by (auto simp: bit_xor_iff bit_top_bit bit_drop_bit_eq Cons.IH dest: bit_imp_le_length)
  qed
qed

lemma lfsr_in_bits:
  fixes g r :: "'a::len word"
  assumes "length bs \<le> LENGTH('a)"
  shows "foldl (lfsr_in g) r bs = (lfsr g ^^ length bs) (r XOR top_val bs)"
  using assms
proof (induction bs arbitrary: r)
  case Nil
  then show ?case by simp
next
  case (Cons b bs)
  define y where "y = (top_val bs :: 'a word)"
  have "\<not> bit y 0" using Cons.prems by (simp add: y_def bit_top_val)
  then have half: "y = lfsr g (drop_bit 1 y)" by (rule lfsr_half [symmetric])
  have "foldl (lfsr_in g) r (b # bs) = (lfsr g ^^ length bs) (lfsr_in g r b XOR y)"
    using Cons by (simp add: y_def)
  also have "lfsr_in g r b XOR y = lfsr g (r XOR top_bit b) XOR lfsr g (drop_bit 1 y)"
    using half by (simp add: lfsr_in_def)
  also have "\<dots> = lfsr g (r XOR top_val (b # bs))"
    by (simp add: lfsr_xor y_def ac_simps)
  finally show ?case by (simp add: funpow_swap1)
qed

lemma lfsr_in_list_inj:
  "bit g 0 \<Longrightarrow> foldl (lfsr_in g) r bs = foldl (lfsr_in g) r' bs \<Longrightarrow> r = r'"
proof (induction bs arbitrary: r r')
  case (Cons b bs)
  then have "r XOR top_bit b = r' XOR top_bit b"
    by (auto simp: lfsr_in_def dest: lfsr_inj)
  then show ?case by (metis xor_cancel_left xor.commute)
qed simp

lemma top_val_inj:
  assumes "top_val bs = (top_val cs :: 'a::len word)" and "length bs = length cs" and "length bs \<le> LENGTH('a)"
  shows "bs = cs"
proof (rule nth_equalityI)
  fix i assume i: "i < length bs"
  then have "bit (top_val bs :: 'a word) (LENGTH('a) - 1 - i) = bs ! i"
    and "bit (top_val cs :: 'a word) (LENGTH('a) - 1 - i) = cs ! i"
    using assms(2,3) by (simp_all add: bit_top_val)
  then show "bs ! i = cs ! i" using assms(1) by simp
qed (rule assms(2))

definition byte_in :: "'a::len word \<Rightarrow> 'a word \<Rightarrow> u8 \<Rightarrow> 'a word" where
  "byte_in g r d = (lfsr g ^^ 8) (r XOR push_bit (LENGTH('a) - 8) (ucast d))"

lemma top_val_msb_bits:
  assumes "8 \<le> LENGTH('a::len)"
  shows "top_val (msb_bits (d :: u8)) = (push_bit (LENGTH('a) - 8) (ucast d) :: 'a word)"
  using assms
  by (auto simp: word_bits bit_top_val nth_msb_bits bit_push_bit_iff bit_ucast_iff
      simp del: top_val.simps dest: bit_imp_le_length elim!: back_subst [of "bit d"])

lemma byte_in_bits:
  fixes g r :: "'a::len word"
  assumes "8 \<le> LENGTH('a)"
  shows "byte_in g r d = foldl (lfsr_in g) r (msb_bits d)"
  using lfsr_in_bits [of "msb_bits d" g r] assms
  by (simp add: byte_in_def top_val_msb_bits)

lemma bytes_in_bits:
  fixes g r :: "'a::len word"
  assumes "8 \<le> LENGTH('a)"
  shows "foldl (byte_in g) r data = foldl (lfsr_in g) r (concat (map msb_bits data))"
  using assms by (induction data arbitrary: r) (simp_all add: byte_in_bits)

lemma crc_is_remainder:
  fixes g :: "'a::len word"
  assumes "8 \<le> LENGTH('a)"
  shows "msb_bits (foldl (byte_in g) 0 data)
     = gf2_rem (msb_bits g) (concat (map msb_bits data) @ replicate LENGTH('a) False)"
proof -
  have "xor_prefix (replicate n False) bs = bs" for n bs
  proof (induction n arbitrary: bs)
    case (Suc n)
    then show ?case by (cases bs) auto
  qed simp
  moreover have "msb_bits (0 :: 'a word) = replicate LENGTH('a) False"
    by (rule nth_equalityI) (simp_all add: msb_bits_def)
  ultimately show ?thesis
    using gf2_rem_lfsr [of g 0 "concat (map msb_bits data)"] assms
    by (simp add: bytes_in_bits)
qed

subsection \<open>Bytes, linearity and errors\<close>

lemma byte_in_xor:
  fixes g r r' :: "'a::len word"
  assumes "8 \<le> LENGTH('a)"
  shows "byte_in g (r XOR r') (d XOR d') = byte_in g r d XOR byte_in g r' d'"
proof -
  have "(r XOR r') XOR push_bit (LENGTH('a) - 8) (ucast (d XOR d'))
      = (r XOR push_bit (LENGTH('a) - 8) (ucast d)) XOR (r' XOR push_bit (LENGTH('a) - 8) (ucast d'))"
    by (auto simp: word_bits bit_xor_iff bit_push_bit_iff bit_ucast_iff)
  then show ?thesis by (simp add: byte_in_def lfsr_pow_xor)
qed

lemma bytes_in_xor:
  fixes g r r' :: "'a::len word"
  assumes "8 \<le> LENGTH('a)" and "length ds = length ds'"
  shows "foldl (byte_in g) (r XOR r') (map2 (XOR) ds ds')
       = foldl (byte_in g) r ds XOR foldl (byte_in g) r' ds'"
  using assms(2)
  by (induction ds ds' arbitrary: r r' rule: list_induct2) (simp_all add: byte_in_xor [OF assms(1)])

lemma byte_in_inj:
  fixes g r r' :: "'a::len word"
  assumes "bit g 0" and "byte_in g r d = byte_in g r' d"
  shows "r = r'"
proof -
  have "r XOR push_bit (LENGTH('a) - 8) (ucast d) = r' XOR push_bit (LENGTH('a) - 8) (ucast d)"
    using assms(2) unfolding byte_in_def by (rule lfsr_pow_inj [OF assms(1)])
  then show ?thesis by (metis xor_cancel_left xor.commute)
qed

lemma bytes_in_inj:
  "bit g 0 \<Longrightarrow> foldl (byte_in g) r ds = foldl (byte_in g) r' ds \<Longrightarrow> r = r'"
  by (induction ds arbitrary: r r') (auto dest: byte_in_inj)

subsection \<open>Tables of a linear function\<close>

lemma word_of_nat_add_power:
  assumes "k < LENGTH('a::len)" and "i < 2 ^ k"
  shows "(word_of_nat (2 ^ k + i) :: 'a word) = 2 ^ k XOR word_of_nat i"
proof -
  have low: "\<not> bit (word_of_nat i :: 'a word) n" if "k \<le> n" for n
  proof -
    have "take_bit k i = i" using assms(2) by (simp add: take_bit_nat_eq_self)
    then have "\<not> bit i n" using that by (metis bit_take_bit_iff linorder_not_le)
    then show ?thesis by (simp add: bit_of_nat_iff)
  qed
  have "(word_of_nat (2 ^ k + i) :: 'a word) = 2 ^ k + word_of_nat i" by simp
  also have "\<dots> = 2 ^ k OR word_of_nat i"
    using low by (intro disjunctive_add) (auto simp: bit_exp_iff)
  also have "\<dots> = 2 ^ k XOR word_of_nat i"
    using low by (auto simp: word_bits bit_or_iff bit_xor_iff bit_exp_iff)
  finally show ?thesis .
qed

definition xor_span :: "'a::len word list \<Rightarrow> 'a word list" where
  "xor_span vs = foldl (\<lambda>T v. T @ map ((XOR) v) T) [0] vs"

lemma xor_span_snoc: "xor_span (vs @ [v]) = xor_span vs @ map ((XOR) v) (xor_span vs)"
  by (simp add: xor_span_def)

lemma linear_table:
  fixes f :: "'a::len word \<Rightarrow> 'b::len word"
  assumes lin: "\<And>x y. f (x XOR y) = f x XOR f y" and "k \<le> LENGTH('a)"
  shows "map (\<lambda>i. f (word_of_nat i)) [0..<2 ^ k] = xor_span (map (\<lambda>j. f (2 ^ j)) [0..<k])"
  using assms(2)
proof (induction k)
  case 0
  have "f 0 = 0" using lin [of 0 0] by simp
  then show ?case by (simp add: xor_span_def)
next
  case (Suc k)
  define T where "T = map (\<lambda>i. f (word_of_nat i)) [0..<2 ^ k]"
  have "[0..<2 ^ Suc k] = [0..<2 ^ k] @ map (\<lambda>i. 2 ^ k + i) [0..<2 ^ k]"
  proof -
    have "(2::nat) ^ Suc k = 2 ^ k + 2 ^ k" by simp
    moreover have "[0..<2 ^ k + 2 ^ k] = [0..<2 ^ k] @ [2 ^ k..<2 ^ k + 2 ^ k]"
      by (rule upt_add_eq_append) simp
    moreover have "[2 ^ k..<2 ^ k + 2 ^ k] = map (\<lambda>i. 2 ^ k + i) [0..<2 ^ k]"
      by (simp only: map_add_upt [symmetric] add.commute)
    ultimately show ?thesis by (simp only:)
  qed
  moreover have "map (\<lambda>i. f (word_of_nat i)) (map (\<lambda>i. 2 ^ k + i) [0..<2 ^ k]) = map ((XOR) (f (2 ^ k))) T"
    unfolding T_def map_map comp_def
  proof (rule map_cong [OF refl])
    fix i :: nat assume "i \<in> set [0..<2 ^ k]"
    then have "(word_of_nat (2 ^ k + i) :: 'a word) = 2 ^ k XOR word_of_nat i"
      using Suc.prems by (intro word_of_nat_add_power) auto
    then show "f (word_of_nat (2 ^ k + i)) = f (2 ^ k) XOR f (word_of_nat i)"
      by (simp only: lin)
  qed
  ultimately have "map (\<lambda>i. f (word_of_nat i)) [0..<2 ^ Suc k] = T @ map ((XOR) (f (2 ^ k))) T"
    by (simp only: map_append T_def)
  moreover have "T = xor_span (map (\<lambda>j. f (2 ^ j)) [0..<k])"
    unfolding T_def using Suc by simp
  ultimately show ?case by (simp add: xor_span_snoc)
qed

end
