(* ===== verification/Crc.thy ===== *)
theory Crc
  imports Gf2
begin

text \<open>
  The CRC programs \<^verbatim>\<open>crc/crc8.c\<close> and \<^verbatim>\<open>crc/crc16.c\<close>: the table generators, the
  table-driven and the bitwise checksum, and the two \<open>main\<close> functions.  The global
  \<open>crc_table\<close> is the list of its 256 entries, passed to the function that reads it; a buffer and its
  length are the list of the bytes read.  The interface \<open>crc_engine\<close> states what a table-driven
  checksum needs of its table; both programs interpret it here, and the flow tracker's
  fixed table interprets it in \<^verbatim>\<open>Flow_Hash\<close>.
\<close>

subsection \<open>What a table-driven CRC needs\<close>

locale crc_engine =
  fixes gen :: "'a::len word" and table :: "'a word list"
  assumes width: "8 \<le> LENGTH('a)"
    and odd: "bit gen 0"
    and size: "length table = 256"
    and entry: "i < 256 \<Longrightarrow> table ! i = (lfsr gen ^^ 8) (push_bit (LENGTH('a) - 8) (word_of_nat i))"
begin

text \<open>One table lookup does the work of eight turns of the bitwise loop.\<close>

lemma lookup_byte:
  "push_bit 8 crc XOR table ! unat (ucast (drop_bit (LENGTH('a) - 8) crc) XOR d) = byte_in gen crc d"
proof -
  define p where "p = (ucast (drop_bit (LENGTH('a) - 8) crc) XOR d :: u8)"
  have "unat p < 256" by simp
  then have t: "table ! unat p = (lfsr gen ^^ 8) (push_bit (LENGTH('a) - 8) (ucast p))"
    using entry by (simp add: unsigned_ucast_eq)
  define low where "low = take_bit (LENGTH('a) - 8) crc"
  have "(lfsr gen ^^ 8) low = push_bit 8 low"
    using width by (intro lfsr_pow_low) (auto simp: low_def bit_take_bit_iff)
  also have "\<dots> = push_bit 8 crc"
    by (auto simp: low_def word_bits bit_push_bit_iff bit_take_bit_iff)
  finally have l: "(lfsr gen ^^ 8) low = push_bit 8 crc" .
  have "crc XOR push_bit (LENGTH('a) - 8) (ucast d) = low XOR push_bit (LENGTH('a) - 8) (ucast p)"
  proof (rule bit_word_eqI)
    fix n assume n: "n < LENGTH('a)"
    then have "n + 8 - LENGTH('a) < 8" "n + 8 - LENGTH('a) < LENGTH('a)"
      using width by linarith+
    with n show "bit (crc XOR push_bit (LENGTH('a) - 8) (ucast d)) n
      = bit (low XOR push_bit (LENGTH('a) - 8) (ucast p)) n"
      using width by (cases "n < LENGTH('a) - 8")
        (simp_all add: low_def p_def bit_xor_iff bit_push_bit_iff bit_ucast_iff
          bit_take_bit_iff bit_drop_bit_eq)
  qed
  then show ?thesis
    unfolding p_def [symmetric] byte_in_def by (simp add: t l lfsr_pow_xor)
qed

lemma lookup_bytes:
  "foldl (\<lambda>crc d. push_bit 8 crc XOR table ! unat (ucast (drop_bit (LENGTH('a) - 8) crc) XOR d)) c data
   = foldl (byte_in gen) c data"
  by (rule foldl_cong_step) (rule lookup_byte)

text \<open>
  Messages that differ only inside a window of at most \<open>LENGTH('a)\<close> bits, at any bit position,
  have different checksums: the register is an injective function of such a window.
\<close>

lemma burst_detected:
  assumes "concat (map msb_bits data) = pre @ w @ post" and "concat (map msb_bits data') = pre @ w' @ post"
    and "length w = length w'" and "length w \<le> LENGTH('a)"
    and "foldl (byte_in gen) c data = foldl (byte_in gen) c data'"
  shows "w = w'"
proof -
  define r where "r = foldl (lfsr_in gen) c pre"
  have "foldl (lfsr_in gen) r w = foldl (lfsr_in gen) r w'"
    using assms(5) lfsr_in_list_inj [OF odd]
    by (simp add: bytes_in_bits [OF width] assms(1,2) r_def)
  then have "r XOR top_val w = r XOR top_val w'"
    using assms(3,4) lfsr_pow_inj [OF odd] by (simp add: lfsr_in_bits)
  then have "top_val w = (top_val w' :: 'a word)" by (metis xor_cancel_left)
  then show ?thesis using assms(3,4) by (rule top_val_inj)
qed

end

subsection \<open>crc8.c\<close>

definition crc8_generator :: u8 where
  "crc8_generator = 0x1d"

text \<open>The body of the inner loop, the same in \<open>gen_lookuptable\<close> and \<open>crc8_simple\<close>.\<close>

definition crc8_step :: "u8 \<Rightarrow> u8" where
  "crc8_step crc =
     (let msb = crc AND 0x80; crc = push_bit 1 crc
      in if msb \<noteq> 0 then crc XOR crc8_generator else crc)"

definition crc8_gen_lookuptable :: "u8 list" where
  "crc8_gen_lookuptable = map (\<lambda>i. (crc8_step ^^ 8) (word_of_nat i)) [0..<256]"

definition crc8_lookuptable :: "u8 list \<Rightarrow> u8 list \<Rightarrow> u8" where
  "crc8_lookuptable crc_table data =
     foldl (\<lambda>crc d. let crc = crc XOR d in crc_table ! unat crc) 0 data"

definition crc8_simple :: "u8 list \<Rightarrow> u8" where
  "crc8_simple data = foldl (\<lambda>crc d. let crc = crc XOR d in (crc8_step ^^ 8) crc) 0 data"

subsection \<open>crc16.c\<close>

definition crc16_generator :: u16 where
  "crc16_generator = 0x1021"

definition crc16_step :: "u16 \<Rightarrow> u16" where
  "crc16_step crc =
     (let msb = crc AND 0x8000; crc = push_bit 1 crc
      in if msb \<noteq> 0 then crc XOR crc16_generator else crc)"

definition crc16_gen_lookuptable :: "u16 list" where
  "crc16_gen_lookuptable = map (\<lambda>i. (crc16_step ^^ 8) (push_bit 8 (word_of_nat i))) [0..<256]"

definition crc16_lookuptable :: "u16 list \<Rightarrow> u8 list \<Rightarrow> u16" where
  "crc16_lookuptable crc_table data =
     foldl (\<lambda>crc d. let pos = ucast (drop_bit 8 crc) XOR d
                    in push_bit 8 crc XOR crc_table ! unat (pos :: u8)) 0 data"

definition crc16_simple :: "u8 list \<Rightarrow> u16" where
  "crc16_simple data =
     foldl (\<lambda>crc d. let crc = crc XOR push_bit 8 (ucast d) in (crc16_step ^^ 8) crc) 0 data"

subsection \<open>The main functions\<close>

text \<open>
  Both programs take one integer, split it into four bytes, most significant first, and print the
  two checksums.  \<open>atoi\<close> is the C library's; its result is the 32-bit pattern of the \<open>int\<close>.
\<close>

definition int_bytes :: "u32 \<Rightarrow> u8 list" where
  "int_bytes input =
     [ucast (drop_bit 24 (input AND 0xff000000)), ucast (drop_bit 16 (input AND 0x00ff0000)),
      ucast (drop_bit 8 (input AND 0x0000ff00)), ucast (input AND 0x000000ff)]"

datatype 'c crc_output = Usage | Crc_Report (input: u32) (shown: "u8 list") (bitwise: 'c) (by_table: 'c)

definition crc8_main :: "(string \<Rightarrow> u32) \<Rightarrow> string list \<Rightarrow> u8 crc_output" where
  "crc8_main atoi argv =
     (if length argv \<noteq> 2 then Usage
      else let input = atoi (argv ! 1); data = int_bytes input;
               crc_table = crc8_gen_lookuptable
           in Crc_Report input data (crc8_simple data) (crc8_lookuptable crc_table data))"

definition crc16_main :: "(string \<Rightarrow> u32) \<Rightarrow> string list \<Rightarrow> u16 crc_output" where
  "crc16_main atoi argv =
     (if length argv \<noteq> 2 then Usage
      else let input = atoi (argv ! 1); data = int_bytes input;
               crc_table = crc16_gen_lookuptable
           in Crc_Report input data (crc16_simple data) (crc16_lookuptable crc_table data))"

subsection \<open>The inner loops are the shift register\<close>

lemma and_top_bit:
  fixes x :: "'a::len word"
  assumes "m = push_bit (LENGTH('a) - 1) 1"
  shows "x AND m \<noteq> 0 \<longleftrightarrow> bit x (LENGTH('a) - 1)"
  unfolding assms by (simp add: bit_iff_and_push_bit_not_eq_0)

lemma crc8_step_lfsr: "crc8_step = lfsr crc8_generator"
proof
  fix x :: u8
  have "x AND 0x80 \<noteq> 0 \<longleftrightarrow> bit x 7"
    using and_top_bit [of "0x80 :: u8" x] by simp
  then show "crc8_step x = lfsr crc8_generator x"
    by (simp add: crc8_step_def lfsr_def Let_def)
qed

lemma crc16_step_lfsr: "crc16_step = lfsr crc16_generator"
proof
  fix x :: u16
  have "x AND 0x8000 \<noteq> 0 \<longleftrightarrow> bit x 15"
    using and_top_bit [of "0x8000 :: u16" x] by simp
  then show "crc16_step x = lfsr crc16_generator x"
    by (simp add: crc16_step_def lfsr_def Let_def)
qed

lemma crc8_simple_bytes: "crc8_simple data = foldl (byte_in crc8_generator) 0 data"
  unfolding crc8_simple_def crc8_step_lfsr
  by (rule foldl_cong_step) (simp add: byte_in_def)

lemma crc16_simple_bytes: "crc16_simple data = foldl (byte_in crc16_generator) 0 data"
  unfolding crc16_simple_def crc16_step_lfsr
  by (rule foldl_cong_step) (simp add: byte_in_def)

interpretation crc8: crc_engine crc8_generator crc8_gen_lookuptable
  by unfold_locales
    (auto simp: crc8_gen_lookuptable_def crc8_step_lfsr crc8_generator_def)

interpretation crc16: crc_engine crc16_generator crc16_gen_lookuptable
  by unfold_locales
    (auto simp: crc16_gen_lookuptable_def crc16_step_lfsr crc16_generator_def)

lemma crc8_lookuptable_bytes:
  "crc8_lookuptable crc8_gen_lookuptable data = foldl (byte_in crc8_generator) 0 data"
  using crc8.lookup_bytes [of 0 data] by (simp add: crc8_lookuptable_def Let_def)

lemma crc16_lookuptable_bytes:
  "crc16_lookuptable crc16_gen_lookuptable data = foldl (byte_in crc16_generator) 0 data"
  using crc16.lookup_bytes [of 0 data] by (simp add: crc16_lookuptable_def Let_def)

lemma crc16_append:
  "crc16_simple (data @ [ucast (drop_bit 8 (crc16_simple data)), ucast (crc16_simple data)]) = 0"
proof -
  define c where "c = crc16_simple data"
  have hi: "c XOR push_bit 8 (ucast (ucast (drop_bit 8 c) :: u8)) = take_bit 8 c"
    by (rule bit_word_eqI)
      (auto simp: bit_xor_iff bit_push_bit_iff bit_ucast_iff bit_drop_bit_eq bit_take_bit_iff)
  have "(lfsr crc16_generator ^^ 8) (take_bit 8 c) = push_bit 8 (take_bit 8 c)"
    by (rule lfsr_pow_low) (auto simp: bit_take_bit_iff)
  then have first: "byte_in crc16_generator c (ucast (drop_bit 8 c)) = push_bit 8 (take_bit 8 c)"
    by (simp add: byte_in_def hi)
  have "push_bit 8 (take_bit 8 c) = push_bit 8 (ucast (ucast c :: u8))"
    by (rule bit_word_eqI) (auto simp: bit_push_bit_iff bit_ucast_iff bit_take_bit_iff)
  then show ?thesis
    by (simp add: crc16_simple_bytes first c_def [unfolded crc16_simple_bytes, symmetric]
        byte_in_def [of _ "push_bit 8 _"])
qed

lemma concat_msb_bits_inj:
  "concat (map msb_bits xs) = concat (map msb_bits (ys :: 'a::len word list)) \<Longrightarrow> xs = ys"
proof (induction xs arbitrary: ys)
  case Nil
  then show ?case by (cases ys) (auto simp: msb_bits_Cons)
next
  case (Cons x xs)
  then obtain y ys' where ys: "ys = y # ys'"
    by (cases ys) (auto simp: msb_bits_Cons)
  then have "msb_bits x = msb_bits y \<and> concat (map msb_bits xs) = concat (map msb_bits ys')"
    using Cons.prems by simp
  then show ?case using Cons.IH ys by (auto dest: msb_bits_inj)
qed

lemma byte_masks:
  "(0xff000000 :: u32) = push_bit 24 (mask 8)" "(0xff0000 :: u32) = push_bit 16 (mask 8)"
  "(0xff00 :: u32) = push_bit 8 (mask 8)" "(0xff :: u32) = mask 8"
  by (simp_all add: mask_eq_exp_minus_1 push_bit_eq_mult)

lemma int_bytes_shifts:
  "int_bytes w = [ucast (drop_bit 24 w), ucast (drop_bit 16 w), ucast (drop_bit 8 w), ucast w]"
  unfolding int_bytes_def byte_masks
  by (intro arg_cong2 [where f = Cons] bit_word_eqI refl)
    (auto simp: bit_and_iff bit_push_bit_iff bit_ucast_iff bit_drop_bit_eq bit_mask_iff)

lemma int_bytes_join:
  assumes "int_bytes w = [a, b, c, d]"
  shows "push_bit 24 (ucast a) OR push_bit 16 (ucast b) OR push_bit 8 (ucast c) OR ucast d = w"
proof -
  have bytes: "a = ucast (drop_bit 24 w)" "b = ucast (drop_bit 16 w)" "c = ucast (drop_bit 8 w)" "d = ucast w"
    using assms by (simp_all add: int_bytes_shifts)
  show ?thesis
  proof (rule bit_word_eqI)
    fix n assume n: "n < LENGTH(32)"
    consider "n < 8" | "8 \<le> n" "n < 16" | "16 \<le> n" "n < 24" | "24 \<le> n" by linarith
    then show "bit (push_bit 24 (ucast a) OR push_bit 16 (ucast b) OR push_bit 8 (ucast c) OR ucast d :: u32) n = bit w n"
      using n by cases (auto simp: bytes bit_or_iff bit_push_bit_iff bit_ucast_iff bit_drop_bit_eq)
  qed
qed

subsection \<open>Properties\<close>

text \<open>C28: the table-driven CRC-16, with the table the program generates, computes the bitwise CRC-16
  of any data.\<close>

theorem crc16_table_equals_bitwise:
  "crc16_lookuptable crc16_gen_lookuptable data = crc16_simple data"
  by (simp add: crc16_lookuptable_bytes crc16_simple_bytes)

text \<open>C16: the bitwise CRC-16 is the remainder of dividing the message, followed by sixteen zero bits, by
  the polynomial \<open>x^16 + x^12 + x^5 + 1\<close> over GF(2), by long division.\<close>

theorem crc16_simple_remainder:
  "msb_bits (crc16_simple data)
   = gf2_rem (msb_bits crc16_generator) (concat (map msb_bits data) @ replicate 16 False)"
  using crc_is_remainder [of crc16_generator data] by (simp add: crc16_simple_bytes)

text \<open>C15: CRC-16 detects every burst error of at most sixteen bits: two messages that agree outside a window
  of at most sixteen bits, at any bit offset, and have the same checksum are the same message.\<close>

theorem crc16_detects_bursts:
  assumes "concat (map msb_bits data) = pre @ w @ post"
    and "concat (map msb_bits data') = pre @ w' @ post"
    and "length w = length w'" and "length w \<le> 16"
    and "crc16_simple data = crc16_simple data'"
  shows "data = data'"
proof -
  have "w = w'"
    using assms crc16.burst_detected by (auto simp: crc16_simple_bytes)
  with assms(1,2) show ?thesis by (intro concat_msb_bits_inj) simp
qed

theorem crc16_detects_bursts_witness:
  "\<exists>pre w post. concat (map msb_bits [0x31, 0x32, 0x33 :: u8]) = pre @ w @ post \<and> length w = 16 \<and>
     ([0x31, 0x32, 0x33 :: u8] = [0x31, 0x32, 0x33])"
  using crc16_detects_bursts [of "[0x31, 0x32, 0x33]" "msb_bits (0x31 :: u8)"
      "msb_bits (0x32 :: u8) @ msb_bits (0x33 :: u8)" "[]" "[0x31, 0x32, 0x33]"
      "msb_bits (0x32 :: u8) @ msb_bits (0x33 :: u8)"]
  by (intro exI [of _ "msb_bits (0x31 :: u8)"] exI [of _ "msb_bits (0x32 :: u8) @ msb_bits (0x33 :: u8)"]
      exI [of _ "[]"]) simp

text \<open>A message followed by its own checksum, high byte first, has checksum zero.\<close>

theorem crc16_residue_zero:
  "crc16_simple (data @ [ucast (drop_bit 8 (crc16_simple data)), ucast (crc16_simple data)]) = 0"
  by (rule crc16_append)

text \<open>The CRC-8 program: its table-driven checksum is its bitwise one, which is the remainder of the
  message shifted by eight bits modulo \<open>x^8 + x^4 + x^3 + x^2 + 1\<close>.\<close>

theorem crc8_correct:
  "crc8_lookuptable crc8_gen_lookuptable data = crc8_simple data \<and>
   msb_bits (crc8_simple data)
     = gf2_rem (msb_bits crc8_generator) (concat (map msb_bits data) @ replicate 8 False)"
  using crc_is_remainder [of crc8_generator data]
  by (simp add: crc8_lookuptable_bytes crc8_simple_bytes)

text \<open>Given one integer, both programs print its four bytes, most significant first, and two equal
  checksums of them; with any other number of arguments they print the usage line.\<close>

theorem crc_mains_agree:
  "(length argv = 2 \<longrightarrow>
     (\<exists>a b c d. int_bytes (atoi (argv ! 1)) = [a, b, c, d] \<and>
        push_bit 24 (ucast a) OR push_bit 16 (ucast b) OR push_bit 8 (ucast c) OR ucast d = atoi (argv ! 1) \<and>
        crc16_main atoi argv
          = Crc_Report (atoi (argv ! 1)) [a, b, c, d] (crc16_simple [a, b, c, d]) (crc16_simple [a, b, c, d]) \<and>
        crc8_main atoi argv
          = Crc_Report (atoi (argv ! 1)) [a, b, c, d] (crc8_simple [a, b, c, d]) (crc8_simple [a, b, c, d]))) \<and>
   (length argv \<noteq> 2 \<longrightarrow> crc16_main atoi argv = Usage \<and> crc8_main atoi argv = Usage)"
proof -
  obtain a b c d where abcd: "int_bytes (atoi (argv ! 1)) = [a, b, c, d]"
    by (simp add: int_bytes_def)
  then show ?thesis
    using int_bytes_join [OF abcd]
    by (simp add: crc16_main_def crc8_main_def Let_def crc16_lookuptable_bytes crc16_simple_bytes
        crc8_lookuptable_bytes crc8_simple_bytes)
qed

theorem crc_mains_agree_witness:
  "crc16_main (\<lambda>_. 7) [''crc16'', ''7''] = Crc_Report 7 [0, 0, 0, 7] (crc16_simple [0, 0, 0, 7]) (crc16_simple [0, 0, 0, 7])"
  using crc_mains_agree [of "[''crc16'', ''7'']" "\<lambda>_. 7"] by (simp add: int_bytes_def)

end
