(* ===== verification/Flow_Hash.thy ===== *)
theory Flow_Hash
  imports Crc
begin

text \<open>
  The hash of the flow tracker: the constant table of \<^verbatim>\<open>flow-tracker/crc_table.h\<close>, the
  table-driven \<open>crc16\<close> of \<^verbatim>\<open>flow-tracker/flow_table.c\<close> and \<open>flow_hash\<close>, which checksums the
  twelve bytes of a flow's addresses and ports.  The constant table is shown to be the
  one \<^verbatim>\<open>crc/crc16.c\<close> generates, so the flow tracker's checksum interprets \<open>crc_engine\<close> too.
\<close>

definition CRC_HASH_TABLE :: "u16 list" where
  "CRC_HASH_TABLE =
    [0x0000, 0x1021, 0x2042, 0x3063, 0x4084, 0x50a5, 0x60c6, 0x70e7,
     0x8108, 0x9129, 0xa14a, 0xb16b, 0xc18c, 0xd1ad, 0xe1ce, 0xf1ef,
     0x1231, 0x0210, 0x3273, 0x2252, 0x52b5, 0x4294, 0x72f7, 0x62d6,
     0x9339, 0x8318, 0xb37b, 0xa35a, 0xd3bd, 0xc39c, 0xf3ff, 0xe3de,
     0x2462, 0x3443, 0x0420, 0x1401, 0x64e6, 0x74c7, 0x44a4, 0x5485,
     0xa56a, 0xb54b, 0x8528, 0x9509, 0xe5ee, 0xf5cf, 0xc5ac, 0xd58d,
     0x3653, 0x2672, 0x1611, 0x0630, 0x76d7, 0x66f6, 0x5695, 0x46b4,
     0xb75b, 0xa77a, 0x9719, 0x8738, 0xf7df, 0xe7fe, 0xd79d, 0xc7bc,
     0x48c4, 0x58e5, 0x6886, 0x78a7, 0x0840, 0x1861, 0x2802, 0x3823,
     0xc9cc, 0xd9ed, 0xe98e, 0xf9af, 0x8948, 0x9969, 0xa90a, 0xb92b,
     0x5af5, 0x4ad4, 0x7ab7, 0x6a96, 0x1a71, 0x0a50, 0x3a33, 0x2a12,
     0xdbfd, 0xcbdc, 0xfbbf, 0xeb9e, 0x9b79, 0x8b58, 0xbb3b, 0xab1a,
     0x6ca6, 0x7c87, 0x4ce4, 0x5cc5, 0x2c22, 0x3c03, 0x0c60, 0x1c41,
     0xedae, 0xfd8f, 0xcdec, 0xddcd, 0xad2a, 0xbd0b, 0x8d68, 0x9d49,
     0x7e97, 0x6eb6, 0x5ed5, 0x4ef4, 0x3e13, 0x2e32, 0x1e51, 0x0e70,
     0xff9f, 0xefbe, 0xdfdd, 0xcffc, 0xbf1b, 0xaf3a, 0x9f59, 0x8f78,
     0x9188, 0x81a9, 0xb1ca, 0xa1eb, 0xd10c, 0xc12d, 0xf14e, 0xe16f,
     0x1080, 0x00a1, 0x30c2, 0x20e3, 0x5004, 0x4025, 0x7046, 0x6067,
     0x83b9, 0x9398, 0xa3fb, 0xb3da, 0xc33d, 0xd31c, 0xe37f, 0xf35e,
     0x02b1, 0x1290, 0x22f3, 0x32d2, 0x4235, 0x5214, 0x6277, 0x7256,
     0xb5ea, 0xa5cb, 0x95a8, 0x8589, 0xf56e, 0xe54f, 0xd52c, 0xc50d,
     0x34e2, 0x24c3, 0x14a0, 0x0481, 0x7466, 0x6447, 0x5424, 0x4405,
     0xa7db, 0xb7fa, 0x8799, 0x97b8, 0xe75f, 0xf77e, 0xc71d, 0xd73c,
     0x26d3, 0x36f2, 0x0691, 0x16b0, 0x6657, 0x7676, 0x4615, 0x5634,
     0xd94c, 0xc96d, 0xf90e, 0xe92f, 0x99c8, 0x89e9, 0xb98a, 0xa9ab,
     0x5844, 0x4865, 0x7806, 0x6827, 0x18c0, 0x08e1, 0x3882, 0x28a3,
     0xcb7d, 0xdb5c, 0xeb3f, 0xfb1e, 0x8bf9, 0x9bd8, 0xabbb, 0xbb9a,
     0x4a75, 0x5a54, 0x6a37, 0x7a16, 0x0af1, 0x1ad0, 0x2ab3, 0x3a92,
     0xfd2e, 0xed0f, 0xdd6c, 0xcd4d, 0xbdaa, 0xad8b, 0x9de8, 0x8dc9,
     0x7c26, 0x6c07, 0x5c64, 0x4c45, 0x3ca2, 0x2c83, 0x1ce0, 0x0cc1,
     0xef1f, 0xff3e, 0xcf5d, 0xdf7c, 0xaf9b, 0xbfba, 0x8fd9, 0x9ff8,
     0x6e17, 0x7e36, 0x4e55, 0x5e74, 0x2e93, 0x3eb2, 0x0ed1, 0x1ef0]"

text \<open>\<open>crc16\<close> takes a pointer, and returns 0 for \<open>NULL\<close>.\<close>

definition crc16 :: "u8 list option \<Rightarrow> u16" where
  "crc16 data =
     (case data of
        None \<Rightarrow> 0
      | Some bytes \<Rightarrow>
          foldl (\<lambda>crc d. let pos = ucast (drop_bit 8 crc) XOR d
                         in push_bit 8 crc XOR CRC_HASH_TABLE ! unat (pos :: u8)) 0 bytes)"

text \<open>
  \<open>struct flow_entry\<close>, without its \<open>hlist\<close> links: an entry's place in a list is the place of its
  address there (\<^verbatim>\<open>Flow_Table\<close>).
\<close>

record flow_entry =
  local_ip :: u32
  remote_ip :: u32
  local_port :: u16
  remote_port :: u16
  bytes_sent :: u32

text \<open>
  The array \<open>u16 tuples[6]\<close> is read through a \<open>u8 *\<close>: on the little-endian machines the module
  is built for, the low byte of each element comes first.
\<close>

definition flow_hash :: "flow_entry \<Rightarrow> u16" where
  "flow_hash flow =
     (let tuples = [ucast (drop_bit 16 (local_ip flow)), ucast (local_ip flow AND 0xffff),
                    ucast (drop_bit 16 (remote_ip flow)), ucast (remote_ip flow AND 0xffff),
                    local_port flow, remote_port flow]
      in crc16 (Some (concat (map u16_bytes tuples))))"

subsection \<open>The constant table is the generated one\<close>

text \<open>
  The register is linear, so the table is spanned by its entries at the powers of two; spanning it
  takes one \<open>XOR\<close> for each entry.
\<close>

lemma crc16_table_span:
  "crc16_gen_lookuptable = xor_span (map (\<lambda>j. (crc16_step ^^ 8) (push_bit 8 (2 ^ j))) [0..<8])"
proof -
  have "map (\<lambda>i. (lfsr crc16_generator ^^ 8) (push_bit 8 (word_of_nat i))) [0..<2 ^ 8]
      = xor_span (map (\<lambda>j. (lfsr crc16_generator ^^ 8) (push_bit 8 (2 ^ j))) [0..<8])"
    by (rule linear_table) (simp_all add: push_bit_xor lfsr_pow_xor)
  then show ?thesis by (simp add: crc16_gen_lookuptable_def crc16_step_lfsr)
qed

lemma crc16_table_basis:
  "map (\<lambda>j. (crc16_step ^^ 8) (push_bit 8 (2 ^ j))) [0..<8]
   = [0x1021, 0x2042, 0x4084, 0x8108, 0x1231, 0x2462, 0x48c4, 0x9188]"
  by (simp add: upt_conv_Cons funpow_eight crc16_step_def crc16_generator_def)

lemma span0: "xor_span [] =
    ([0x0] :: u16 list)"
  by (simp add: xor_span_def)

lemma span1: "xor_span [0x1021] =
    ([0x0, 0x1021] :: u16 list)"
  using xor_span_snoc [of "[]" "0x1021 :: u16"] by (simp add: span0)

lemma span2: "xor_span [0x1021, 0x2042] =
    ([0x0, 0x1021, 0x2042, 0x3063] :: u16 list)"
  using xor_span_snoc [of "[0x1021]" "0x2042 :: u16"] by (simp add: span1)

lemma span3: "xor_span [0x1021, 0x2042, 0x4084] =
    ([0x0, 0x1021, 0x2042, 0x3063, 0x4084, 0x50a5, 0x60c6, 0x70e7] :: u16 list)"
  using xor_span_snoc [of "[0x1021, 0x2042]" "0x4084 :: u16"] by (simp add: span2)

lemma span4: "xor_span [0x1021, 0x2042, 0x4084, 0x8108] =
    ([0x0, 0x1021, 0x2042, 0x3063, 0x4084, 0x50a5, 0x60c6, 0x70e7,
     0x8108, 0x9129, 0xa14a, 0xb16b, 0xc18c, 0xd1ad, 0xe1ce, 0xf1ef] :: u16 list)"
  using xor_span_snoc [of "[0x1021, 0x2042, 0x4084]" "0x8108 :: u16"] by (simp add: span3)

lemma span5: "xor_span [0x1021, 0x2042, 0x4084, 0x8108, 0x1231] =
    ([0x0, 0x1021, 0x2042, 0x3063, 0x4084, 0x50a5, 0x60c6, 0x70e7,
     0x8108, 0x9129, 0xa14a, 0xb16b, 0xc18c, 0xd1ad, 0xe1ce, 0xf1ef,
     0x1231, 0x210, 0x3273, 0x2252, 0x52b5, 0x4294, 0x72f7, 0x62d6,
     0x9339, 0x8318, 0xb37b, 0xa35a, 0xd3bd, 0xc39c, 0xf3ff, 0xe3de] :: u16 list)"
  using xor_span_snoc [of "[0x1021, 0x2042, 0x4084, 0x8108]" "0x1231 :: u16"] by (simp add: span4)

lemma span6: "xor_span [0x1021, 0x2042, 0x4084, 0x8108, 0x1231, 0x2462] =
    ([0x0, 0x1021, 0x2042, 0x3063, 0x4084, 0x50a5, 0x60c6, 0x70e7,
     0x8108, 0x9129, 0xa14a, 0xb16b, 0xc18c, 0xd1ad, 0xe1ce, 0xf1ef,
     0x1231, 0x210, 0x3273, 0x2252, 0x52b5, 0x4294, 0x72f7, 0x62d6,
     0x9339, 0x8318, 0xb37b, 0xa35a, 0xd3bd, 0xc39c, 0xf3ff, 0xe3de,
     0x2462, 0x3443, 0x420, 0x1401, 0x64e6, 0x74c7, 0x44a4, 0x5485,
     0xa56a, 0xb54b, 0x8528, 0x9509, 0xe5ee, 0xf5cf, 0xc5ac, 0xd58d,
     0x3653, 0x2672, 0x1611, 0x630, 0x76d7, 0x66f6, 0x5695, 0x46b4,
     0xb75b, 0xa77a, 0x9719, 0x8738, 0xf7df, 0xe7fe, 0xd79d, 0xc7bc] :: u16 list)"
  using xor_span_snoc [of "[0x1021, 0x2042, 0x4084, 0x8108, 0x1231]" "0x2462 :: u16"] by (simp add: span5)

lemma span7: "xor_span [0x1021, 0x2042, 0x4084, 0x8108, 0x1231, 0x2462, 0x48c4] =
    ([0x0, 0x1021, 0x2042, 0x3063, 0x4084, 0x50a5, 0x60c6, 0x70e7,
     0x8108, 0x9129, 0xa14a, 0xb16b, 0xc18c, 0xd1ad, 0xe1ce, 0xf1ef,
     0x1231, 0x210, 0x3273, 0x2252, 0x52b5, 0x4294, 0x72f7, 0x62d6,
     0x9339, 0x8318, 0xb37b, 0xa35a, 0xd3bd, 0xc39c, 0xf3ff, 0xe3de,
     0x2462, 0x3443, 0x420, 0x1401, 0x64e6, 0x74c7, 0x44a4, 0x5485,
     0xa56a, 0xb54b, 0x8528, 0x9509, 0xe5ee, 0xf5cf, 0xc5ac, 0xd58d,
     0x3653, 0x2672, 0x1611, 0x630, 0x76d7, 0x66f6, 0x5695, 0x46b4,
     0xb75b, 0xa77a, 0x9719, 0x8738, 0xf7df, 0xe7fe, 0xd79d, 0xc7bc,
     0x48c4, 0x58e5, 0x6886, 0x78a7, 0x840, 0x1861, 0x2802, 0x3823,
     0xc9cc, 0xd9ed, 0xe98e, 0xf9af, 0x8948, 0x9969, 0xa90a, 0xb92b,
     0x5af5, 0x4ad4, 0x7ab7, 0x6a96, 0x1a71, 0xa50, 0x3a33, 0x2a12,
     0xdbfd, 0xcbdc, 0xfbbf, 0xeb9e, 0x9b79, 0x8b58, 0xbb3b, 0xab1a,
     0x6ca6, 0x7c87, 0x4ce4, 0x5cc5, 0x2c22, 0x3c03, 0xc60, 0x1c41,
     0xedae, 0xfd8f, 0xcdec, 0xddcd, 0xad2a, 0xbd0b, 0x8d68, 0x9d49,
     0x7e97, 0x6eb6, 0x5ed5, 0x4ef4, 0x3e13, 0x2e32, 0x1e51, 0xe70,
     0xff9f, 0xefbe, 0xdfdd, 0xcffc, 0xbf1b, 0xaf3a, 0x9f59, 0x8f78] :: u16 list)"
  using xor_span_snoc [of "[0x1021, 0x2042, 0x4084, 0x8108, 0x1231, 0x2462]" "0x48c4 :: u16"] by (simp add: span6)

lemma span8: "xor_span [0x1021, 0x2042, 0x4084, 0x8108, 0x1231, 0x2462, 0x48c4, 0x9188] =
    ([0x0, 0x1021, 0x2042, 0x3063, 0x4084, 0x50a5, 0x60c6, 0x70e7,
     0x8108, 0x9129, 0xa14a, 0xb16b, 0xc18c, 0xd1ad, 0xe1ce, 0xf1ef,
     0x1231, 0x210, 0x3273, 0x2252, 0x52b5, 0x4294, 0x72f7, 0x62d6,
     0x9339, 0x8318, 0xb37b, 0xa35a, 0xd3bd, 0xc39c, 0xf3ff, 0xe3de,
     0x2462, 0x3443, 0x420, 0x1401, 0x64e6, 0x74c7, 0x44a4, 0x5485,
     0xa56a, 0xb54b, 0x8528, 0x9509, 0xe5ee, 0xf5cf, 0xc5ac, 0xd58d,
     0x3653, 0x2672, 0x1611, 0x630, 0x76d7, 0x66f6, 0x5695, 0x46b4,
     0xb75b, 0xa77a, 0x9719, 0x8738, 0xf7df, 0xe7fe, 0xd79d, 0xc7bc,
     0x48c4, 0x58e5, 0x6886, 0x78a7, 0x840, 0x1861, 0x2802, 0x3823,
     0xc9cc, 0xd9ed, 0xe98e, 0xf9af, 0x8948, 0x9969, 0xa90a, 0xb92b,
     0x5af5, 0x4ad4, 0x7ab7, 0x6a96, 0x1a71, 0xa50, 0x3a33, 0x2a12,
     0xdbfd, 0xcbdc, 0xfbbf, 0xeb9e, 0x9b79, 0x8b58, 0xbb3b, 0xab1a,
     0x6ca6, 0x7c87, 0x4ce4, 0x5cc5, 0x2c22, 0x3c03, 0xc60, 0x1c41,
     0xedae, 0xfd8f, 0xcdec, 0xddcd, 0xad2a, 0xbd0b, 0x8d68, 0x9d49,
     0x7e97, 0x6eb6, 0x5ed5, 0x4ef4, 0x3e13, 0x2e32, 0x1e51, 0xe70,
     0xff9f, 0xefbe, 0xdfdd, 0xcffc, 0xbf1b, 0xaf3a, 0x9f59, 0x8f78,
     0x9188, 0x81a9, 0xb1ca, 0xa1eb, 0xd10c, 0xc12d, 0xf14e, 0xe16f,
     0x1080, 0xa1, 0x30c2, 0x20e3, 0x5004, 0x4025, 0x7046, 0x6067,
     0x83b9, 0x9398, 0xa3fb, 0xb3da, 0xc33d, 0xd31c, 0xe37f, 0xf35e,
     0x2b1, 0x1290, 0x22f3, 0x32d2, 0x4235, 0x5214, 0x6277, 0x7256,
     0xb5ea, 0xa5cb, 0x95a8, 0x8589, 0xf56e, 0xe54f, 0xd52c, 0xc50d,
     0x34e2, 0x24c3, 0x14a0, 0x481, 0x7466, 0x6447, 0x5424, 0x4405,
     0xa7db, 0xb7fa, 0x8799, 0x97b8, 0xe75f, 0xf77e, 0xc71d, 0xd73c,
     0x26d3, 0x36f2, 0x691, 0x16b0, 0x6657, 0x7676, 0x4615, 0x5634,
     0xd94c, 0xc96d, 0xf90e, 0xe92f, 0x99c8, 0x89e9, 0xb98a, 0xa9ab,
     0x5844, 0x4865, 0x7806, 0x6827, 0x18c0, 0x8e1, 0x3882, 0x28a3,
     0xcb7d, 0xdb5c, 0xeb3f, 0xfb1e, 0x8bf9, 0x9bd8, 0xabbb, 0xbb9a,
     0x4a75, 0x5a54, 0x6a37, 0x7a16, 0xaf1, 0x1ad0, 0x2ab3, 0x3a92,
     0xfd2e, 0xed0f, 0xdd6c, 0xcd4d, 0xbdaa, 0xad8b, 0x9de8, 0x8dc9,
     0x7c26, 0x6c07, 0x5c64, 0x4c45, 0x3ca2, 0x2c83, 0x1ce0, 0xcc1,
     0xef1f, 0xff3e, 0xcf5d, 0xdf7c, 0xaf9b, 0xbfba, 0x8fd9, 0x9ff8,
     0x6e17, 0x7e36, 0x4e55, 0x5e74, 0x2e93, 0x3eb2, 0xed1, 0x1ef0] :: u16 list)"
  using xor_span_snoc [of "[0x1021, 0x2042, 0x4084, 0x8108, 0x1231, 0x2462, 0x48c4]" "0x9188 :: u16"] by (simp add: span7)

lemma CRC_HASH_TABLE_generated: "CRC_HASH_TABLE = crc16_gen_lookuptable"
  unfolding crc16_table_span crc16_table_basis span8 CRC_HASH_TABLE_def by (rule refl)

interpretation flow_crc: crc_engine crc16_generator CRC_HASH_TABLE
  unfolding CRC_HASH_TABLE_generated by unfold_locales

lemma crc16_bytes: "crc16 (Some data) = foldl (byte_in crc16_generator) 0 data"
  using flow_crc.lookup_bytes [of 0 data] by (simp add: crc16_def Let_def)

lemma crc16_simple_eq: "crc16 (Some data) = crc16_simple data"
  by (simp add: crc16_bytes crc16_simple_bytes)

text \<open>The constant table of the flow tracker is, entry by entry, the table \<^verbatim>\<open>crc/crc16.c\<close>
  generates, so its \<open>crc16\<close> of a buffer is the bitwise CRC-16 of \<^verbatim>\<open>crc/crc16.c\<close>, and 0 for \<open>NULL\<close>.\<close>

theorem flow_crc16_correct:
  "CRC_HASH_TABLE = crc16_gen_lookuptable \<and> crc16 (Some data) = crc16_simple data \<and> crc16 None = 0"
  by (simp add: CRC_HASH_TABLE_generated crc16_simple_eq) (simp add: crc16_def)

end
