(* ===== verification/Flow_Table.thy ===== *)
theory Flow_Table
  imports Flow_Hash
begin

text \<open>
  The hash table of \<^verbatim>\<open>flow-tracker/flow_table.h\<close> and \<^verbatim>\<open>flow-tracker/flow_table.c\<close>.  An array of
  \<open>2 ^ bits\<close> linked lists holds the addresses of the flow entries; the entries are in a heap.
  \<open>kmalloc\<close> and \<open>vmalloc\<close> belong to the kernel and are parameters.  The operations are modelled with
  their pointer dereferences, lock operations and early returns; that none of them faults, and that
  together they implement a finite map from connection keys to byte counts, is proved from the invariant
  \<open>table_ok\<close> and packaged as an interpretation of \<open>flow_store\<close>.
\<close>

subsection \<open>Data\<close>

type_synonym heap = "addr \<rightharpoonup> flow_entry"

record flow_table =
  lists :: "addr list list buffer"
  bits :: u8
  num_flows :: u32
  lock :: bool

definition spin_lock_irqsave :: "flow_table \<Rightarrow> fault + flow_table" where
  "spin_lock_irqsave t = (if lock t then Inl Deadlock else Inr (t\<lparr>lock := True\<rparr>))"

definition spin_unlock_irqrestore :: "flow_table \<Rightarrow> flow_table" where
  "spin_unlock_irqrestore t = t\<lparr>lock := False\<rparr>"

subsection \<open>Creating and freeing the table\<close>

text \<open>\<open>vmalloc n\<close> gives room for \<open>n\<close> list heads, with arbitrary contents, or \<open>None\<close>.\<close>

definition init_table :: "(nat \<Rightarrow> addr list list option) \<Rightarrow> flow_table option \<Rightarrow> u8 \<Rightarrow> bool \<times> flow_table option" where
  "init_table vmalloc table nbits =
     (case table of None \<Rightarrow> (False, None)
      | Some t \<Rightarrow>
          if unat nbits > 16 then (False, Some t)
          else (case vmalloc (2 ^ unat nbits) of
                  None \<Rightarrow> (False, Some (t\<lparr>lists := Null\<rparr>))
                | Some arr \<Rightarrow>
                    let t = t\<lparr>lists := Live arr, bits := nbits, num_flows := 0, lock := False\<rparr>;
                        num_lists = 2 ^ unat nbits;
                        arr = foldl (\<lambda>ls i. ls[i := []]) arr [0..<num_lists]
                    in (True, Some (t\<lparr>lists := Live arr\<rparr>))))"

text \<open>\<open>hlist_for_each_entry_safe\<close> with \<open>hlist_del\<close> and \<open>kfree\<close> on every entry of one list.\<close>

fun free_list :: "heap \<Rightarrow> addr list \<Rightarrow> fault + heap" where
  "free_list h [] = Inr h"
| "free_list h (obj # rest) =
     (case h obj of None \<Rightarrow> Inl Use_After_Free | Some _ \<Rightarrow> free_list (h(obj := None)) rest)"

fun free_lists :: "heap \<Rightarrow> addr list list \<Rightarrow> fault + heap" where
  "free_lists h [] = Inr h"
| "free_lists h (l # ls) = andthen (free_list h l) (\<lambda>h. free_lists h ls)"

definition free_table :: "flow_table \<Rightarrow> heap \<Rightarrow> fault + (flow_table \<times> heap)" where
  "free_table t h =
     (case lists t of Null \<Rightarrow> Inl Null_Deref | Dangling \<Rightarrow> Inl Use_After_Free
      | Live ls \<Rightarrow>
          let num_lists = 2 ^ unat (bits t) in
          if length ls < num_lists then Inl Out_Of_Bounds
          else andthen (free_lists h (take num_lists ls))
                 (\<lambda>h. Inr (t\<lparr>lists := Dangling\<rparr>, h)))"

subsection \<open>Finding, inserting and deleting entries\<close>

definition same_flow :: "flow_entry \<Rightarrow> flow_entry \<Rightarrow> bool" where
  "same_flow obj flow \<longleftrightarrow>
     local_ip obj = local_ip flow \<and> remote_ip obj = remote_ip flow \<and>
     local_port obj = local_port flow \<and> remote_port obj = remote_port flow"

text \<open>\<open>u16 index = flow_hash(flow) >> (16 - table->bits)\<close>.\<close>

definition flow_index :: "u8 \<Rightarrow> flow_entry \<Rightarrow> nat" where
  "flow_index nbits flow = unat (drop_bit (16 - unat nbits) (flow_hash flow))"

definition table_index :: "flow_table option \<Rightarrow> flow_entry option \<Rightarrow> fault + nat" where
  "table_index table flow =
     andthen (deref flow) (\<lambda>f. andthen (deref table) (\<lambda>t.
       if unat (bits t) > 16 then Inl Bad_Shift else Inr (flow_index (bits t) f)))"

fun find_entry :: "heap \<Rightarrow> addr list \<Rightarrow> flow_entry \<Rightarrow> fault + addr option" where
  "find_entry h [] flow = Inr None"
| "find_entry h (obj # rest) flow =
     (case h obj of None \<Rightarrow> Inl Use_After_Free
      | Some e \<Rightarrow> if same_flow e flow then Inr (Some obj) else find_entry h rest flow)"

text \<open>\<open>&(table->lists[index])\<close>, followed.\<close>

definition bucket :: "flow_table \<Rightarrow> nat \<Rightarrow> fault + addr list" where
  "bucket t index =
     (case lists t of Null \<Rightarrow> Inl Null_Deref | Dangling \<Rightarrow> Inl Use_After_Free
      | Live ls \<Rightarrow> if index < length ls then Inr (ls ! index) else Inl Out_Of_Bounds)"

definition set_bucket :: "flow_table \<Rightarrow> nat \<Rightarrow> addr list \<Rightarrow> flow_table" where
  "set_bucket t index l = t\<lparr>lists := Live ((contents (lists t))[index := l])\<rparr>"

definition insert_table ::
  "(heap \<Rightarrow> addr option) \<Rightarrow> flow_table option \<Rightarrow> flow_entry option \<Rightarrow> heap
   \<Rightarrow> fault + (bool \<times> flow_table option \<times> heap)" where
  "insert_table kmalloc table flow h =
     andthen (table_index table flow) (\<lambda>index.
       case (table, flow) of
         (Some t, Some f) \<Rightarrow>
           if lists t = Null then Inr (False, table, h)
           else andthen (spin_lock_irqsave t) (\<lambda>t. andthen (bucket t index) (\<lambda>l.
             andthen (find_entry h l f) (\<lambda>found.
               let t = spin_unlock_irqrestore t in
               if found \<noteq> None then Inr (False, Some t, h)
               else (case kmalloc h of
                       None \<Rightarrow> Inr (False, Some t, h)
                     | Some obj \<Rightarrow>
                         let h = h(obj \<mapsto> f) in
                         andthen (spin_lock_irqsave t) (\<lambda>t. andthen (bucket t index) (\<lambda>l.
                           let t = spin_unlock_irqrestore (set_bucket t index (obj # l)) in
                           Inr (True, Some (t\<lparr>num_flows := num_flows t + 1\<rparr>), h)))))))
       | _ \<Rightarrow> Inr (False, table, h))"

definition search_table ::
  "flow_table option \<Rightarrow> flow_entry option \<Rightarrow> heap \<Rightarrow> fault + addr option" where
  "search_table table flow h =
     andthen (table_index table flow) (\<lambda>index.
       case (table, flow) of
         (Some t, Some f) \<Rightarrow>
           if lists t = Null then Inr None
           else andthen (bucket t index) (\<lambda>l. find_entry h l f)
       | _ \<Rightarrow> Inr None)"

definition delete_table ::
  "flow_table option \<Rightarrow> flow_entry option \<Rightarrow> heap \<Rightarrow> fault + (bool \<times> flow_table option \<times> heap)" where
  "delete_table table flow h =
     andthen (table_index table flow) (\<lambda>index.
       case (table, flow) of
         (Some t, Some f) \<Rightarrow>
           if lists t = Null then Inr (False, table, h)
           else andthen (spin_lock_irqsave t) (\<lambda>t. andthen (bucket t index) (\<lambda>l.
             andthen (find_entry h l f) (\<lambda>found.
               case found of
                 None \<Rightarrow> Inr (False, Some (spin_unlock_irqrestore t), h)
               | Some obj \<Rightarrow>
                   let t = set_bucket t index (remove1 obj l);
                       h = h(obj := None);
                       t = spin_unlock_irqrestore t
                   in Inr (True, Some (t\<lparr>num_flows := num_flows t - 1\<rparr>), h))))
       | _ \<Rightarrow> Inr (False, table, h))"

subsection \<open>The invariant and the map the table stands for\<close>

type_synonym flow_key = "u32 \<times> u32 \<times> u16 \<times> u16"

definition flow_key :: "flow_entry \<Rightarrow> flow_key" where
  "flow_key e = (local_ip e, remote_ip e, local_port e, remote_port e)"

definition live_in :: "heap \<Rightarrow> u8 \<Rightarrow> nat \<Rightarrow> addr \<Rightarrow> bool" where
  "live_in h b i a \<longleftrightarrow> (case h a of None \<Rightarrow> False | Some e \<Rightarrow> flow_index b e = i)"

definition key_at :: "heap \<Rightarrow> addr \<Rightarrow> flow_key" where
  "key_at h a = flow_key (the (h a))"

definition lists_ok :: "addr list list \<Rightarrow> u8 \<Rightarrow> heap \<Rightarrow> bool" where
  "lists_ok ls b h \<longleftrightarrow>
     unat b \<le> 16 \<and> length ls = 2 ^ unat b \<and>
     (\<forall>i < length ls. \<forall>a \<in> set (ls ! i). live_in h b i a) \<and>
     distinct (concat ls) \<and> inj_on (key_at h) (set (concat ls)) \<and> dom h = set (concat ls)"

definition table_ok :: "flow_table \<Rightarrow> heap \<Rightarrow> bool" where
  "table_ok t h \<longleftrightarrow>
     (case lists t of
        Live ls \<Rightarrow> lists_ok ls (bits t) h \<and> \<not> lock t \<and>
                   num_flows t = word_of_nat (length (concat ls))
      | _ \<Rightarrow> False)"

definition flows_in :: "addr list \<Rightarrow> heap \<Rightarrow> flow_key \<rightharpoonup> u32" where
  "flows_in as h k = map_option (\<lambda>a. bytes_sent (the (h a))) (find (\<lambda>a. key_at h a = k) as)"

definition flows :: "flow_table \<Rightarrow> heap \<Rightarrow> flow_key \<rightharpoonup> u32" where
  "flows t h = flows_in (concat (contents (lists t))) h"

subsection \<open>Buckets\<close>

lemma same_flow_key: "same_flow e f \<longleftrightarrow> flow_key e = flow_key f"
  by (auto simp: same_flow_def flow_key_def)

lemma flow_index_key: "flow_key e = flow_key f \<Longrightarrow> flow_index b e = flow_index b f"
  by (simp add: flow_index_def flow_hash_def flow_key_def)

lemma flow_index_less:
  assumes "unat b \<le> 16"
  shows "flow_index b f < 2 ^ unat b"
proof -
  have "unat (flow_hash f) < 2 ^ (unat b + (16 - unat b))"
    using unsigned_less [of "flow_hash f"] assms by simp
  then have "unat (flow_hash f) div 2 ^ (16 - unat b) < 2 ^ unat b"
    by (simp add: power_add less_mult_imp_div_less)
  then show ?thesis
    by (simp only: flow_index_def unat_drop_bit_eq) (simp only: drop_bit_eq_div)
qed

lemma live_in_Some: "live_in h b i a \<Longrightarrow> \<exists>e. h a = Some e \<and> flow_index b e = i"
  by (auto simp: live_in_def split: option.splits)

lemma find_entry_find:
  assumes "\<forall>a \<in> set l. h a \<noteq> None"
  shows "find_entry h l f = Inr (find (\<lambda>a. key_at h a = flow_key f) l)"
  using assms by (induction l) (auto simp: same_flow_key key_at_def)

lemma in_concat_nth: "a \<in> set (concat ls) \<longleftrightarrow> (\<exists>i < length ls. a \<in> set (ls ! i))"
  by (auto simp: in_set_conv_nth) (metis in_set_conv_nth)+

lemma lists_okD:
  assumes "lists_ok ls b h"
  shows "unat b \<le> 16" "length ls = 2 ^ unat b" "distinct (concat ls)"
    "inj_on (key_at h) (set (concat ls))" "dom h = set (concat ls)"
    "i < length ls \<Longrightarrow> a \<in> set (ls ! i) \<Longrightarrow> live_in h b i a"
  using assms by (auto simp: lists_ok_def)

lemma in_bucket:
  assumes "lists_ok ls b h" and "a \<in> set (concat ls)"
  shows "\<exists>e. h a = Some e \<and> a \<in> set (ls ! flow_index b e)"
  using assms by (auto simp only: in_concat_nth dest!: lists_okD(6) live_in_Some)

lemma find_concat_bucket:
  assumes ok: "lists_ok ls b h" and i: "i = flow_index b f"
  shows "find (\<lambda>a. key_at h a = flow_key f) (concat ls) = find (\<lambda>a. key_at h a = flow_key f) (ls ! i)"
proof -
  have len: "i < length ls" using flow_index_less lists_okD(1,2) [OF ok] by (simp add: i)
  have sub: "set (ls ! i) \<subseteq> set (concat ls)" using len by (simp only: in_concat_nth subset_iff) blast
  have inb: "a \<in> set (ls ! i)" if c: "a \<in> set (concat ls)" and k: "key_at h a = flow_key f" for a
  proof -
    obtain e where "h a = Some e" "a \<in> set (ls ! flow_index b e)"
      using in_bucket [OF ok c] by blast
    then show ?thesis using k flow_index_key [of e f b] by (simp add: key_at_def i)
  qed
  show ?thesis
  proof (cases "find (\<lambda>a. key_at h a = flow_key f) (ls ! i)")
    case None
    then have "find (\<lambda>a. key_at h a = flow_key f) (concat ls) = None"
      using inb unfolding find_None_iff by blast
    then show ?thesis using None by simp
  next
    case (Some a)
    then have a: "a \<in> set (ls ! i)" "key_at h a = flow_key f" by (auto simp: find_Some_iff)
    then obtain c where c: "find (\<lambda>a. key_at h a = flow_key f) (concat ls) = Some c"
      using sub by (cases "find (\<lambda>a. key_at h a = flow_key f) (concat ls)") (auto simp: find_None_iff)
    then have "c \<in> set (concat ls)" "key_at h c = key_at h a"
      using a(2) find_SomeD by fastforce+
    then have "c = a" using lists_okD(4) [OF ok] a(1) sub by (meson inj_onD subsetD)
    then show ?thesis using c Some by simp
  qed
qed


lemma flows_in_Some:
  assumes "inj_on (key_at h) (set as)"
  shows "flows_in as h k = Some v \<longleftrightarrow> (\<exists>a \<in> set as. key_at h a = k \<and> bytes_sent (the (h a)) = v)"
proof
  assume "flows_in as h k = Some v"
  then show "\<exists>a \<in> set as. key_at h a = k \<and> bytes_sent (the (h a)) = v"
    by (auto simp: flows_in_def find_Some_iff intro!: bexI nth_mem)
next
  assume "\<exists>a \<in> set as. key_at h a = k \<and> bytes_sent (the (h a)) = v"
  then obtain a where a: "a \<in> set as" "key_at h a = k" "bytes_sent (the (h a)) = v" by auto
  then obtain c where c: "find (\<lambda>a. key_at h a = k) as = Some c"
    by (cases "find (\<lambda>a. key_at h a = k) as") (auto simp: find_None_iff)
  then have "c \<in> set as" "key_at h c = k" by (auto simp: find_Some_iff intro: nth_mem)
  then have "c = a" using assms a by (auto dest: inj_onD)
  with a c show "flows_in as h k = Some v" by (simp add: flows_in_def)
qed

lemma flows_in_None: "flows_in as h k = None \<longleftrightarrow> (\<forall>a \<in> set as. key_at h a \<noteq> k)"
  by (auto simp: flows_in_def find_None_iff)

lemma lists_ok_insert:
  assumes ok: "lists_ok ls b h" and i: "i = flow_index b f" and new: "h a = None"
    and fresh: "flows_in (concat ls) h (flow_key f) = None"
  shows "lists_ok (ls[i := a # ls ! i]) b (h(a \<mapsto> f))"
    and "flows_in (concat (ls[i := a # ls ! i])) (h(a \<mapsto> f))
         = (flows_in (concat ls) h)(flow_key f \<mapsto> bytes_sent f)"
    and "length (concat (ls[i := a # ls ! i])) = Suc (length (concat ls))"
proof -
  let ?ls = "ls[i := a # ls ! i]" and ?h = "h(a \<mapsto> f)"
  have len: "i < length ls" using flow_index_less lists_okD(1,2) [OF ok] by (simp add: i)
  have ms: "mset (concat ?ls) = add_mset a (mset (concat ls))" using len by (rule mset_concat_cons)
  then have set': "set (concat ?ls) = insert a (set (concat ls))"
    by (metis set_mset_add_mset_insert set_mset_mset)
  have notin: "a \<notin> set (concat ls)" using in_bucket [OF ok] new by fastforce
  have key: "key_at ?h c = key_at h c" if "c \<in> set (concat ls)" for c
    using that notin by (auto simp: key_at_def)
  have key_a: "key_at ?h a = flow_key f" by (simp add: key_at_def)
  have other: "key_at h c \<noteq> flow_key f" if "c \<in> set (concat ls)" for c
    using fresh that by (simp only: flows_in_None) blast
  have "inj_on (key_at ?h) (set (concat ls))"
    using lists_okD(4) [OF ok] by (simp only: inj_on_cong [OF key])
  moreover have "key_at ?h a \<notin> key_at ?h ` (set (concat ls) - {a})"
    using key key_a other by (metis DiffD1 image_iff)
  ultimately have inj: "inj_on (key_at ?h) (set (concat ?ls))"
    by (simp only: set' inj_on_insert simp_thms)
  have live: "live_in ?h b j c" if "j < length ?ls" "c \<in> set (?ls ! j)" for j c
  proof (cases "c = a")
    case True
    have "j = i"
    proof (rule ccontr)
      assume "j \<noteq> i"
      then have "a \<in> set (concat ls)" using that True by (auto simp only: in_concat_nth length_list_update nth_list_update_neq)
      with notin show False ..
    qed
    then show ?thesis using True i by (simp add: live_in_def)
  next
    case False
    then have "c \<in> set (ls ! j)" using that len by (cases "j = i") auto
    then have "live_in h b j c" using lists_okD(6) [OF ok] that(1) by simp
    then show ?thesis using False by (simp add: live_in_def)
  qed
  show "lists_ok ?ls b ?h"
    unfolding lists_ok_def
  proof (intro conjI allI impI ballI)
    show "distinct (concat ?ls)"
      using ms notin lists_okD(3) [OF ok]
      by (metis distinct_count_atmost_1 distinct.simps(2) mset.simps(2) mset_eq_imp_distinct_iff)
    show "dom ?h = set (concat ?ls)"
      using lists_okD(5) [OF ok] by (simp only: set' dom_fun_upd) simp
  qed (use lists_okD(1,2) [OF ok] live inj in auto)
  show "flows_in (concat ?ls) ?h = (flows_in (concat ls) h)(flow_key f \<mapsto> bytes_sent f)"
  proof (rule map_eqI)
    fix k v
    have "(\<exists>c \<in> set (concat ls). key_at ?h c = k \<and> bytes_sent (the (?h c)) = v)
       \<longleftrightarrow> (\<exists>c \<in> set (concat ls). key_at h c = k \<and> bytes_sent (the (h c)) = v)"
      using key notin by (intro bex_cong refl) auto
    then show "(flows_in (concat ?ls) ?h k = Some v)
      = (((flows_in (concat ls) h)(flow_key f \<mapsto> bytes_sent f)) k = Some v)"
      using other unfolding flows_in_Some [OF inj] set' bex_simps
      by (auto simp: flows_in_Some [OF lists_okD(4) [OF ok]] key_a simp del: set_concat)
  qed
  show "length (concat ?ls) = Suc (length (concat ls))"
    using arg_cong [OF ms, of size] by simp
qed


lemma lists_ok_delete:
  assumes ok: "lists_ok ls b h" and i: "i = flow_index b f"
    and found: "find (\<lambda>a. key_at h a = flow_key f) (ls ! i) = Some a"
  shows "lists_ok (ls[i := remove1 a (ls ! i)]) b (h(a := None))"
    and "flows_in (concat (ls[i := remove1 a (ls ! i)])) (h(a := None))
         = (flows_in (concat ls) h)(flow_key f := None)"
    and "Suc (length (concat (ls[i := remove1 a (ls ! i)]))) = length (concat ls)"
proof -
  let ?ls = "ls[i := remove1 a (ls ! i)]" and ?h = "h(a := None)"
  have len: "i < length ls" using flow_index_less lists_okD(1,2) [OF ok] by (simp add: i)
  have a: "a \<in> set (ls ! i)" "key_at h a = flow_key f"
    using found by (auto simp: find_Some_iff)
  have ms: "add_mset a (mset (concat ?ls)) = mset (concat ls)" using len a(1) by (rule mset_concat_remove1)
  have dist: "distinct (a # concat ?ls)"
    using lists_okD(3) [OF ok] ms by (metis mset.simps(2) mset_eq_imp_distinct_iff)
  then have notin: "a \<notin> set (concat ?ls)" by (simp only: distinct.simps) blast
  have set': "set (concat ls) = insert a (set (concat ?ls))"
    using ms by (metis set_mset_add_mset_insert set_mset_mset)
  have key: "key_at ?h c = key_at h c" if "c \<in> set (concat ?ls)" for c
    using that notin by (metis fun_upd_apply key_at_def)
  have inj0: "inj_on (key_at h) (insert a (set (concat ?ls)))"
    using lists_okD(4) [OF ok] by (simp only: set')
  then have inj: "inj_on (key_at ?h) (set (concat ?ls))"
    by (simp only: inj_on_insert inj_on_cong [OF key])
  have other: "key_at h c \<noteq> flow_key f" if "c \<in> set (concat ?ls)" for c
    using inj0 a(2) that notin by (metis inj_onD insertCI)
  have live: "live_in ?h b j c" if "j < length ?ls" "c \<in> set (?ls ! j)" for j c
  proof -
    have "c \<in> set (concat ?ls)" using that by (simp only: in_concat_nth) blast
    then have "c \<noteq> a" using notin by blast
    moreover have "c \<in> set (ls ! j)"
      using that len by (cases "j = i") (auto dest: set_remove1_subset [THEN subsetD])
    then have "live_in h b j c" using lists_okD(6) [OF ok] that(1) by simp
    ultimately show ?thesis by (simp add: live_in_def)
  qed
  show "lists_ok ?ls b ?h"
    unfolding lists_ok_def
  proof (intro conjI allI impI ballI)
    show "distinct (concat ?ls)" using dist by (simp only: distinct.simps)
    show "dom ?h = set (concat ?ls)"
      using lists_okD(5) [OF ok] notin by (simp only: set' dom_fun_upd) (simp del: set_concat)
  qed (use lists_okD(1,2) [OF ok] live inj in auto)
  show "flows_in (concat ?ls) ?h = (flows_in (concat ls) h)(flow_key f := None)"
  proof (rule map_eqI)
    fix k v
    have "(\<exists>c \<in> set (concat ?ls). key_at ?h c = k \<and> bytes_sent (the (?h c)) = v)
       \<longleftrightarrow> (\<exists>c \<in> set (concat ?ls). key_at h c = k \<and> bytes_sent (the (h c)) = v)"
      using key notin by (intro bex_cong refl) (metis fun_upd_apply)
    then show "(flows_in (concat ?ls) ?h k = Some v)
      = (((flows_in (concat ls) h)(flow_key f := None)) k = Some v)"
      using other a(2) unfolding flows_in_Some [OF inj]
      by (auto simp: flows_in_Some [OF lists_okD(4) [OF ok]] set' simp del: set_concat)
  qed
  show "Suc (length (concat ?ls)) = length (concat ls)"
    using arg_cong [OF ms, of size] by simp
qed

lemma lists_ok_update:
  assumes ok: "lists_ok ls b h" and a: "a \<in> set (concat ls)" "h a = Some e"
    and e': "flow_key e' = flow_key e"
  shows "lists_ok ls b (h(a \<mapsto> e'))"
    and "flows_in (concat ls) (h(a \<mapsto> e')) = (flows_in (concat ls) h)(flow_key e \<mapsto> bytes_sent e')"
proof -
  let ?h = "h(a \<mapsto> e')"
  have key: "key_at ?h c = key_at h c" for c
    using a(2) e' by (simp add: key_at_def)
  then have key': "key_at ?h = key_at h" by (rule ext)
  have "live_in ?h b j c = live_in h b j c" for j c
    using a(2) flow_index_key [OF e'] by (auto simp: live_in_def)
  moreover have "dom ?h = dom h" using a(2) by auto
  ultimately show "lists_ok ls b ?h" using ok by (simp add: lists_ok_def key')
  note inj = lists_okD(4) [OF ok]
  show "flows_in (concat ls) ?h = (flows_in (concat ls) h)(flow_key e \<mapsto> bytes_sent e')"
  proof (rule map_eqI)
    fix k v
    have "key_at h c = flow_key e \<longleftrightarrow> c = a" if "c \<in> set (concat ls)" for c
      using inj a that by (metis inj_onD key_at_def option.sel)
    then show "(flows_in (concat ls) ?h k = Some v)
      = (((flows_in (concat ls) h)(flow_key e \<mapsto> bytes_sent e')) k = Some v)"
      using a(1) unfolding flows_in_Some [OF inj [folded key']]
      by (auto simp: flows_in_Some [OF inj] key' simp del: set_concat)
  qed
qed

subsection \<open>The operations, on a table in good order\<close>

lemma table_okE:
  assumes "table_ok t h"
  obtains ls where "lists t = Live ls" "lists_ok ls (bits t) h" "\<not> lock t"
    "num_flows t = word_of_nat (length (concat ls))"
  using assms by (cases "lists t") (auto simp: table_ok_def)

lemma table_index_ok:
  "table_ok t h \<Longrightarrow> table_index (Some t) (Some f) = Inr (flow_index (bits t) f)"
  by (auto simp: table_index_def lists_ok_def elim!: table_okE)

lemma lock_cycle: "\<not> lock t \<Longrightarrow> t\<lparr>lock := False\<rparr> = t"
  by simp

lemma find_bucket:
  assumes ok: "lists_ok ls b h" and i: "i = flow_index b f"
  shows "i < length ls"
    and "find_entry h (ls ! i) f = Inr (find (\<lambda>a. key_at h a = flow_key f) (concat ls))"
proof -
  show len: "i < length ls" using flow_index_less lists_okD(1,2) [OF ok] by (simp add: i)
  then have "\<forall>a \<in> set (ls ! i). h a \<noteq> None"
    using lists_okD(6) [OF ok] live_in_Some by fastforce
  then show "find_entry h (ls ! i) f = Inr (find (\<lambda>a. key_at h a = flow_key f) (concat ls))"
    by (simp only: find_entry_find find_concat_bucket [OF ok i])
qed

lemma flows_None_find:
  "flows t h (flow_key f) = None \<longleftrightarrow> find (\<lambda>a. key_at h a = flow_key f) (concat (contents (lists t))) = None"
  by (simp add: flows_def flows_in_def)

lemma insert_table_new:
  assumes ok: "table_ok t h" and new: "flows t h (flow_key f) = None"
    and mem: "kmalloc h = Some a" "h a = None"
  obtains t' where "insert_table kmalloc (Some t) (Some f) h = Inr (True, Some t', h(a \<mapsto> f))"
    "table_ok t' (h(a \<mapsto> f))" "flows t' (h(a \<mapsto> f)) = (flows t h)(flow_key f \<mapsto> bytes_sent f)"
    "bits t' = bits t" "num_flows t' = num_flows t + 1"
proof -
  obtain ls where ls: "lists t = Live ls" "lists_ok ls (bits t) h" "\<not> lock t"
    "num_flows t = word_of_nat (length (concat ls))"
    using ok by (rule table_okE)
  define i where "i = flow_index (bits t) f"
  define t' where "t' = t\<lparr>lists := Live (ls[i := a # ls ! i]), num_flows := num_flows t + 1\<rparr>"
  note find = find_bucket [OF ls(2) i_def]
  have none: "flows_in (concat ls) h (flow_key f) = None" using new ls(1) by (simp add: flows_def)
  note ins = lists_ok_insert [OF ls(2) i_def mem(2) none]
  have nf: "find (\<lambda>a. key_at h a = flow_key f) (concat ls) = None"
    using new ls(1) by (simp add: flows_None_find)
  have "insert_table kmalloc (Some t) (Some f) h = Inr (True, Some t', h(a \<mapsto> f))"
    using find nf ls(1,3) mem
    by (simp add: insert_table_def table_index_ok [OF ok] i_def [symmetric] bucket_def set_bucket_def
        spin_lock_irqsave_def spin_unlock_irqrestore_def Let_def t'_def del: set_concat)
  moreover have "table_ok t' (h(a \<mapsto> f))"
    using ins(1,3) ls(3,4) by (simp add: table_ok_def t'_def del: length_concat)
  moreover have "flows t' (h(a \<mapsto> f)) = (flows t h)(flow_key f \<mapsto> bytes_sent f)"
    using ins(2) ls(1) by (simp add: flows_def t'_def)
  ultimately show thesis by (rule that) (simp_all add: t'_def)
qed

lemma insert_table_old:
  assumes ok: "table_ok t h" and old: "flows t h (flow_key f) \<noteq> None"
  shows "insert_table kmalloc (Some t) (Some f) h = Inr (False, Some t, h)"
proof -
  obtain ls where ls: "lists t = Live ls" "lists_ok ls (bits t) h" "\<not> lock t"
    using ok by (rule table_okE)
  note find = find_bucket [OF ls(2) refl]
  show ?thesis
    using find old ls(1,3)
    by (simp add: insert_table_def table_index_ok [OF ok] bucket_def flows_None_find
        spin_lock_irqsave_def spin_unlock_irqrestore_def Let_def del: set_concat)
qed

lemma insert_table_full:
  assumes ok: "table_ok t h" and full: "kmalloc h = None"
  shows "insert_table kmalloc (Some t) (Some f) h = Inr (False, Some t, h)"
proof -
  obtain ls where ls: "lists t = Live ls" "lists_ok ls (bits t) h" "\<not> lock t"
    using ok by (rule table_okE)
  note find = find_bucket [OF ls(2) refl]
  show ?thesis
    using find full ls(1,3)
    by (simp add: insert_table_def table_index_ok [OF ok] bucket_def
        spin_lock_irqsave_def spin_unlock_irqrestore_def Let_def del: set_concat)
qed

lemma delete_table_some:
  assumes ok: "table_ok t h" and old: "flows t h (flow_key f) \<noteq> None"
  obtains t' h' where "delete_table (Some t) (Some f) h = Inr (True, Some t', h')"
    "table_ok t' h'" "flows t' h' = (flows t h)(flow_key f := None)"
    "bits t' = bits t" "num_flows t' = num_flows t - 1"
proof -
  obtain ls where ls: "lists t = Live ls" "lists_ok ls (bits t) h" "\<not> lock t"
    "num_flows t = word_of_nat (length (concat ls))"
    using ok by (rule table_okE)
  define i where "i = flow_index (bits t) f"
  note find = find_bucket [OF ls(2) i_def]
  obtain a where a: "find (\<lambda>a. key_at h a = flow_key f) (concat ls) = Some a"
    using old ls(1) by (auto simp: flows_None_find simp del: set_concat)
  define t' where "t' = t\<lparr>lists := Live (ls[i := remove1 a (ls ! i)]), num_flows := num_flows t - 1\<rparr>"
  have "find (\<lambda>a. key_at h a = flow_key f) (ls ! i) = Some a"
    using a find_concat_bucket [OF ls(2) i_def] by simp
  note del = lists_ok_delete [OF ls(2) i_def this]
  have "delete_table (Some t) (Some f) h = Inr (True, Some t', h(a := None))"
    using find a ls(1,3)
    by (simp add: delete_table_def table_index_ok [OF ok] i_def [symmetric] bucket_def set_bucket_def
        spin_lock_irqsave_def spin_unlock_irqrestore_def Let_def t'_def del: set_concat)
  moreover have "table_ok t' (h(a := None))"
    using del(1,3) ls(3,4) by (simp add: table_ok_def t'_def flip: del(3) del: length_concat)
  moreover have "flows t' (h(a := None)) = (flows t h)(flow_key f := None)"
    using del(2) ls(1) by (simp add: flows_def t'_def)
  ultimately show thesis by (rule that) (simp_all add: t'_def)
qed

lemma delete_table_none:
  assumes ok: "table_ok t h" and none: "flows t h (flow_key f) = None"
  shows "delete_table (Some t) (Some f) h = Inr (False, Some t, h)"
proof -
  obtain ls where ls: "lists t = Live ls" "lists_ok ls (bits t) h" "\<not> lock t"
    using ok by (rule table_okE)
  note find = find_bucket [OF ls(2) refl]
  show ?thesis
    using find none ls(1,3)
    by (simp add: delete_table_def table_index_ok [OF ok] bucket_def flows_None_find
        spin_lock_irqsave_def spin_unlock_irqrestore_def Let_def del: set_concat)
qed

lemma search_table_find:
  assumes ok: "table_ok t h"
  shows "search_table (Some t) (Some f) h
       = Inr (find (\<lambda>a. key_at h a = flow_key f) (concat (contents (lists t))))"
proof -
  obtain ls where ls: "lists t = Live ls" "lists_ok ls (bits t) h" "\<not> lock t"
    using ok by (rule table_okE)
  show ?thesis
    using find_bucket [OF ls(2) refl] ls(1)
    by (simp add: search_table_def table_index_ok [OF ok] bucket_def del: set_concat)
qed

subsection \<open>Creating and freeing\<close>

text \<open>What the kernel's allocators promise.\<close>

definition vmalloc_ok :: "(nat \<Rightarrow> 'a list option) \<Rightarrow> bool" where
  "vmalloc_ok vmalloc \<longleftrightarrow> (\<forall>n arr. vmalloc n = Some arr \<longrightarrow> length arr = n)"

definition kmalloc_ok :: "(('k \<rightharpoonup> 'v) \<Rightarrow> 'k option) \<Rightarrow> bool" where
  "kmalloc_ok kmalloc \<longleftrightarrow> (\<forall>h a. kmalloc h = Some a \<longrightarrow> h a = None)"

lemma init_table_ok:
  assumes "vmalloc_ok vmalloc" and "unat nbits \<le> 16" and "vmalloc (2 ^ unat nbits) = Some arr"
  obtains t' where "init_table vmalloc (Some t) nbits = (True, Some t')"
    "table_ok t' Map.empty" "flows t' Map.empty = Map.empty" "bits t' = nbits" "num_flows t' = 0"
proof -
  define ls where "ls = replicate (2 ^ unat nbits) ([] :: addr list)"
  have "length arr = 2 ^ unat nbits" using assms by (simp add: vmalloc_ok_def)
  then have "foldl (\<lambda>ls i. ls[i := []]) arr [0..<2 ^ unat nbits] = ls"
    using foldl_update [of "2 ^ unat nbits" arr "\<lambda>_. []"] by (simp add: ls_def map_replicate_const)
  moreover define t' where "t' = t\<lparr>lists := Live ls, bits := nbits, num_flows := 0, lock := False\<rparr>"
  ultimately have "init_table vmalloc (Some t) nbits = (True, Some t')"
    using assms by (simp add: init_table_def Let_def)
  moreover have none: "concat ls = []" by (simp add: ls_def)
  moreover have "lists_ok ls nbits Map.empty"
    using assms(2) by (simp add: lists_ok_def none) (simp add: ls_def)
  ultimately show thesis
    by (intro that [of t']) (simp_all add: t'_def table_ok_def flows_def flows_in_def fun_eq_iff del: length_concat concat_eq_Nil_conv)
qed

lemma free_list_ok:
  "distinct l \<Longrightarrow> set l \<subseteq> dom h \<Longrightarrow> free_list h l = Inr (h |` (- set l))"
proof (induction l arbitrary: h)
  case Nil
  then show ?case by simp
next
  case (Cons a l)
  then obtain e where "h a = Some e" by auto
  moreover have "h(a := None) |` (- set l) = h |` (- set (a # l))"
    by (auto simp: restrict_map_def fun_eq_iff)
  moreover have "free_list (h(a := None)) l = Inr ((h(a := None)) |` (- set l))"
    using Cons.prems by (intro Cons.IH) auto
  ultimately show ?case by (simp only: free_list.simps option.case)
qed

lemma free_lists_ok:
  "distinct (concat ls) \<Longrightarrow> set (concat ls) \<subseteq> dom h \<Longrightarrow> free_lists h ls = Inr (h |` (- set (concat ls)))"
proof (induction ls arbitrary: h)
  case Nil
  then show ?case by simp
next
  case (Cons l ls)
  then have "free_list h l = Inr (h |` (- set l))" by (intro free_list_ok) auto
  moreover have "free_lists (h |` (- set l)) ls = Inr ((h |` (- set l)) |` (- set (concat ls)))"
    using Cons.prems by (intro Cons.IH) auto
  moreover have "(h |` (- set l)) |` (- set (concat ls)) = h |` (- set (concat (l # ls)))"
    by (auto simp: restrict_map_def fun_eq_iff)
  ultimately show ?case by simp
qed

lemma free_table_ok:
  assumes "table_ok t h"
  shows "free_table t h = Inr (t\<lparr>lists := Dangling\<rparr>, Map.empty)"
proof -
  obtain ls where ls: "lists t = Live ls" "lists_ok ls (bits t) h"
    using assms by (rule table_okE)
  note ok = lists_okD [OF ls(2)]
  have "h |` (- set (concat ls)) = Map.empty"
    using ok(5) by (auto simp: restrict_map_def fun_eq_iff simp del: set_concat)
  then have "free_lists h ls = Inr Map.empty"
    using free_lists_ok [OF ok(3), of h] ok(5) by (simp del: set_concat)
  then show ?thesis using ls(1) ok(2) by (simp add: free_table_def)
qed

subsection \<open>The interface the tracker relies on\<close>

text \<open>
  A store of flows: what its user may rely on.  \<open>view\<close> is the finite map the store stands for;
  \<open>room\<close> says whether the next insertion can get memory; \<open>search\<close> returns a pointer through which
  \<open>add\<close> increases the value of the entry found.
\<close>

locale flow_store =
  fixes inv :: "'s \<Rightarrow> bool" and view :: "'s \<Rightarrow> 'k \<rightharpoonup> 'v::plus"
    and insert :: "'e \<Rightarrow> 's \<Rightarrow> fault + bool \<times> 's"
    and delete :: "'e \<Rightarrow> 's \<Rightarrow> fault + bool \<times> 's"
    and search :: "'e \<Rightarrow> 's \<Rightarrow> fault + 'p option"
    and add :: "'p \<Rightarrow> 'v \<Rightarrow> 's \<Rightarrow> fault + 's"
    and room :: "'s \<Rightarrow> bool" and key :: "'e \<Rightarrow> 'k" and val :: "'e \<Rightarrow> 'v"
  assumes insert_new: "inv s \<Longrightarrow> view s (key e) = None \<Longrightarrow> room s \<Longrightarrow>
      \<exists>s'. insert e s = Inr (True, s') \<and> inv s' \<and> view s' = (view s)(key e \<mapsto> val e)"
    and insert_old: "inv s \<Longrightarrow> view s (key e) \<noteq> None \<Longrightarrow> insert e s = Inr (False, s)"
    and insert_full: "inv s \<Longrightarrow> \<not> room s \<Longrightarrow> insert e s = Inr (False, s)"
    and delete_some: "inv s \<Longrightarrow> view s (key e) \<noteq> None \<Longrightarrow>
      \<exists>s'. delete e s = Inr (True, s') \<and> inv s' \<and> view s' = (view s)(key e := None)"
    and delete_none: "inv s \<Longrightarrow> view s (key e) = None \<Longrightarrow> delete e s = Inr (False, s)"
    and search_none: "inv s \<Longrightarrow> view s (key e) = None \<Longrightarrow> search e s = Inr None"
    and search_add: "inv s \<Longrightarrow> view s (key e) = Some v \<Longrightarrow>
      \<exists>p s'. search e s = Inr (Some p) \<and> add p n s = Inr s' \<and> inv s' \<and> view s' = (view s)(key e \<mapsto> v + n)"
begin

lemma insert_cases:
  assumes "inv s"
  obtains s' where "insert e s = Inr (True, s')" "inv s'" "view s (key e) = None" "room s"
      "view s' = (view s)(key e \<mapsto> val e)"
  | "insert e s = Inr (False, s)" "view s (key e) \<noteq> None \<or> \<not> room s"
  using assms insert_new insert_old insert_full by metis

lemma delete_cases:
  assumes "inv s"
  obtains s' where "delete e s = Inr (True, s')" "inv s'" "view s (key e) \<noteq> None"
      "view s' = (view s)(key e := None)"
  | "delete e s = Inr (False, s)" "view s (key e) = None"
  using assms delete_some delete_none by metis

text \<open>An entry put in is found with its value, and is gone once deleted.\<close>

lemma insert_then_delete:
  assumes "inv s" and "view s (key e) = None" and "room s"
  shows "\<exists>s1 s2. insert e s = Inr (True, s1) \<and> delete e s1 = Inr (True, s2) \<and> inv s2 \<and> view s2 = view s"
proof -
  obtain s1 where s1: "insert e s = Inr (True, s1)" "inv s1" "view s1 = (view s)(key e \<mapsto> val e)"
    using insert_new assms by blast
  then obtain s2 where "delete e s1 = Inr (True, s2)" "inv s2" "view s2 = (view s1)(key e := None)"
    using delete_some by fastforce
  with s1 assms(2) show ?thesis by (auto simp: fun_eq_iff)
qed

end

text \<open>
  The flow table as such a store.  The state is the table and the heap; the allocator is any
  function, cut down to its promise that what it returns is free.
\<close>

definition fresh_kmalloc :: "(heap \<Rightarrow> addr option) \<Rightarrow> heap \<Rightarrow> addr option" where
  "fresh_kmalloc pick h = (case pick h of Some a \<Rightarrow> if h a = None then Some a else None | None \<Rightarrow> None)"

lemma fresh_kmalloc_ok: "kmalloc_ok kmalloc \<Longrightarrow> fresh_kmalloc kmalloc = kmalloc"
  by (auto simp: kmalloc_ok_def fresh_kmalloc_def fun_eq_iff split: option.splits)

type_synonym table_state = "flow_table \<times> heap"

definition table_insert :: "(heap \<Rightarrow> addr option) \<Rightarrow> flow_entry \<Rightarrow> table_state \<Rightarrow> fault + bool \<times> table_state" where
  "table_insert kmalloc f s =
     andthen (insert_table kmalloc (Some (fst s)) (Some f) (snd s))
       (\<lambda>(r, t, h). andthen (deref t) (\<lambda>t. Inr (r, (t, h))))"

definition table_delete :: "flow_entry \<Rightarrow> table_state \<Rightarrow> fault + bool \<times> table_state" where
  "table_delete f s =
     andthen (delete_table (Some (fst s)) (Some f) (snd s))
       (\<lambda>(r, t, h). andthen (deref t) (\<lambda>t. Inr (r, (t, h))))"

definition table_search :: "flow_entry \<Rightarrow> table_state \<Rightarrow> fault + addr option" where
  "table_search f s = search_table (Some (fst s)) (Some f) (snd s)"

text \<open>\<open>entry->bytes_sent += len\<close>.\<close>

definition add_bytes :: "addr \<Rightarrow> u32 \<Rightarrow> table_state \<Rightarrow> fault + table_state" where
  "add_bytes entry n s =
     (case snd s entry of
        None \<Rightarrow> Inl Use_After_Free
      | Some e \<Rightarrow> Inr (fst s, (snd s)(entry \<mapsto> e\<lparr>bytes_sent := bytes_sent e + n\<rparr>)))"

lemma search_add_bytes:
  assumes ok: "table_ok t h" and some: "flows t h (flow_key f) = Some v"
  shows "\<exists>p h'. table_search f (t, h) = Inr (Some p) \<and> add_bytes p n (t, h) = Inr (t, h') \<and>
           table_ok t h' \<and> flows t h' = (flows t h)(flow_key f \<mapsto> v + n)"
proof -
  obtain ls where ls: "lists t = Live ls" "lists_ok ls (bits t) h" "\<not> lock t"
    "num_flows t = word_of_nat (length (concat ls))"
    using ok by (rule table_okE)
  obtain a where a: "find (\<lambda>a. key_at h a = flow_key f) (concat ls) = Some a" "bytes_sent (the (h a)) = v"
    using some ls(1) by (auto simp: flows_def flows_in_def simp del: set_concat)
  then have in_a: "a \<in> set (concat ls)" and key: "key_at h a = flow_key f"
    using find_SomeD by fastforce+
  then obtain e where e: "h a = Some e" using in_bucket [OF ls(2)] by blast
  define e' where "e' = e\<lparr>bytes_sent := bytes_sent e + n\<rparr>"
  have "flow_key e' = flow_key e" by (simp add: e'_def flow_key_def)
  note upd = lists_ok_update [OF ls(2) in_a e this]
  have "table_search f (t, h) = Inr (Some a)"
    using search_table_find [OF ok, of f] a(1) ls(1) by (simp add: table_search_def)
  moreover have "add_bytes a n (t, h) = Inr (t, h(a \<mapsto> e'))"
    by (simp add: add_bytes_def e e'_def)
  moreover have "table_ok t (h(a \<mapsto> e'))" using ls upd(1) by (simp add: table_ok_def)
  moreover have "flows t (h(a \<mapsto> e')) = (flows t h)(flow_key f \<mapsto> v + n)"
    using upd(2) ls(1) key a(2) e by (simp add: flows_def key_at_def e'_def)
  ultimately show ?thesis by blast
qed

interpretation ft: flow_store "\<lambda>s. table_ok (fst s) (snd s)" "\<lambda>s. flows (fst s) (snd s)"
  "table_insert (fresh_kmalloc pick)" table_delete table_search add_bytes
  "\<lambda>s. fresh_kmalloc pick (snd s) \<noteq> None" flow_key bytes_sent for pick
proof (unfold_locales, goal_cases)
  case (1 s e)
  then obtain a where a: "fresh_kmalloc pick (snd s) = Some a" "snd s a = None"
    by (auto simp: fresh_kmalloc_def split: option.splits if_splits)
  obtain t' where
    "insert_table (fresh_kmalloc pick) (Some (fst s)) (Some e) (snd s) = Inr (True, Some t', (snd s)(a \<mapsto> e))"
    "table_ok t' ((snd s)(a \<mapsto> e))"
    "flows t' ((snd s)(a \<mapsto> e)) = (flows (fst s) (snd s))(flow_key e \<mapsto> bytes_sent e)"
    by (rule insert_table_new [where kmalloc = "fresh_kmalloc pick" and t = "fst s" and h = "snd s" and f = e, OF 1(1) 1(2) a(1) a(2)])
  then show ?case by (intro exI [of _ "(t', (snd s)(a \<mapsto> e))"]) (simp add: table_insert_def)
next
  case (2 s e)
  then show ?case by (simp add: table_insert_def insert_table_old)
next
  case (3 s e)
  then show ?case by (simp add: table_insert_def insert_table_full)
next
  case (4 s e)
  obtain t' h' where "delete_table (Some (fst s)) (Some e) (snd s) = Inr (True, Some t', h')"
    "table_ok t' h'" "flows t' h' = (flows (fst s) (snd s))(flow_key e := None)"
    by (rule delete_table_some [where f = e, OF 4(1) 4(2)])
  then show ?case by (intro exI [of _ "(t', h')"]) (simp add: table_delete_def)
next
  case (5 s e)
  then show ?case by (simp add: table_delete_def delete_table_none)
next
  case (6 s e)
  then show ?case by (simp add: table_search_def search_table_find flows_None_find)
next
  case (7 s e v n)
  then obtain p h' where "table_search e s = Inr (Some p)" "add_bytes p n s = Inr (fst s, h')"
    "table_ok (fst s) h'" "flows (fst s) h' = (flows (fst s) (snd s))(flow_key e \<mapsto> v + n)"
    using search_add_bytes [of "fst s" "snd s" e v n] by auto
  then show ?case by (intro exI [of _ p] exI [of _ "(fst s, h')"]) simp
qed

subsection \<open>Properties\<close>

lemma flows_dom: "dom (flows_in as h) = key_at h ` set as"
proof (rule set_eqI)
  fix k
  show "k \<in> dom (flows_in as h) \<longleftrightarrow> k \<in> key_at h ` set as"
    unfolding domIff flows_in_None by blast
qed

lemma flows_card:
  assumes "lists_ok ls b h"
  shows "card (dom (flows_in (concat ls) h)) = length (concat ls)"
  unfolding flows_dom card_image [OF lists_okD(4) [OF assms]]
  by (rule distinct_card [OF lists_okD(3) [OF assms]])

lemma insert_table_result:
  assumes "kmalloc_ok kmalloc" and "table_ok t h"
  shows "\<exists>r t' h'. insert_table kmalloc (Some t) (Some f) h = Inr (r, Some t', h') \<and> table_ok t' h' \<and>
           (r \<longleftrightarrow> flows t h (flow_key f) = None \<and> kmalloc h \<noteq> None) \<and>
           flows t' h' = (if r then (flows t h)(flow_key f \<mapsto> bytes_sent f) else flows t h)"
proof (cases "flows t h (flow_key f) = None \<and> kmalloc h \<noteq> None")
  case True
  then obtain a where a: "kmalloc h = Some a" "h a = None"
    using assms(1) by (auto simp: kmalloc_ok_def)
  obtain t' where "insert_table kmalloc (Some t) (Some f) h = Inr (True, Some t', h(a \<mapsto> f))"
    "table_ok t' (h(a \<mapsto> f))" "flows t' (h(a \<mapsto> f)) = (flows t h)(flow_key f \<mapsto> bytes_sent f)"
    by (rule insert_table_new [where kmalloc = kmalloc and t = t and h = h and f = f and a = a])
      (use assms(2) True a in auto)
  with True show ?thesis
    by (intro exI [of _ True] exI [of _ t'] exI [of _ "h(a \<mapsto> f)"]) simp
next
  case False
  then have "insert_table kmalloc (Some t) (Some f) h = Inr (False, Some t, h)"
    using assms(2) insert_table_old insert_table_full by blast
  with False assms(2) show ?thesis by auto
qed

text \<open>A small table, its allocator and a flow, at which the properties below are exercised.\<close>

definition empty_table :: flow_table where
  "empty_table = \<lparr>lists = Live (replicate 256 []), bits = 8, num_flows = 0, lock = False\<rparr>"

definition one_slot :: "heap \<Rightarrow> addr option" where
  "one_slot h = (if h 0 = None then Some 0 else None)"

definition sample_flow :: flow_entry where
  "sample_flow = \<lparr>local_ip = 0x0100007F, remote_ip = 0x0200007F, local_port = 0x8913,
                  remote_port = 80, bytes_sent = 60\<rparr>"

lemma empty_table_ok: "table_ok empty_table Map.empty" and empty_table_flows: "flows empty_table Map.empty k = None"
  by (auto simp: empty_table_def table_ok_def lists_ok_def flows_def flows_in_def)

lemma one_slot_ok: "kmalloc_ok one_slot"
  by (auto simp: kmalloc_ok_def one_slot_def)

text \<open>C2: \<open>insert_table\<close> on a table in good order never faults and keeps it in good order; it returns
  true exactly when the flow was not there and memory was, and then the flow and its byte count are the only
  change to the map.\<close>

theorem insert_table_correct:
  assumes "kmalloc_ok kmalloc" and "table_ok t h"
  shows "\<exists>r t' h'. insert_table kmalloc (Some t) (Some f) h = Inr (r, Some t', h') \<and> table_ok t' h' \<and>
           (r \<longleftrightarrow> flows t h (flow_key f) = None \<and> kmalloc h \<noteq> None) \<and>
           flows t' h' = (if r then (flows t h)(flow_key f \<mapsto> bytes_sent f) else flows t h)"
  using assms by (rule insert_table_result)

theorem insert_table_correct_witness:
  "\<exists>r t' h'. insert_table one_slot (Some empty_table) (Some sample_flow) Map.empty = Inr (r, Some t', h') \<and>
     table_ok t' h' \<and> r \<and> flows t' h' (flow_key sample_flow) = Some 60"
  using insert_table_correct [OF one_slot_ok empty_table_ok, of sample_flow]
  by (auto simp: empty_table_flows one_slot_def sample_flow_def)

text \<open>C7: \<open>delete_table\<close> never faults on a table in good order: it removes exactly the given flow,
  frees its entry and returns true, or returns false and changes nothing.\<close>

theorem delete_table_correct:
  assumes "table_ok t h"
  shows "\<exists>r t' h'. delete_table (Some t) (Some f) h = Inr (r, Some t', h') \<and> table_ok t' h' \<and>
           (r \<longleftrightarrow> flows t h (flow_key f) \<noteq> None) \<and> flows t' h' = (flows t h)(flow_key f := None)"
proof (cases "flows t h (flow_key f) = None")
  case True
  moreover from True have "(flows t h)(flow_key f := None) = flows t h" by auto
  ultimately show ?thesis using delete_table_none [OF assms True] assms by auto
next
  case False
  obtain t' h' where "delete_table (Some t) (Some f) h = Inr (True, Some t', h')"
    "table_ok t' h'" "flows t' h' = (flows t h)(flow_key f := None)"
    by (rule delete_table_some [where f = f, OF assms False])
  with False show ?thesis
    by (intro exI [of _ True] exI [of _ t'] exI [of _ h']) simp
qed

theorem delete_table_correct_witness:
  "\<exists>r t' h'. delete_table (Some empty_table) (Some sample_flow) Map.empty = Inr (r, Some t', h') \<and> \<not> r"
  using delete_table_correct [OF empty_table_ok, of sample_flow] by (auto simp: empty_table_flows)

text \<open>C8: \<open>search_table\<close> returns the address of the live entry with the flow's addresses and ports, whose byte
  count is the one on record, or \<open>NULL\<close> when there is none; it never faults and never returns a freed entry.\<close>

theorem search_table_correct:
  assumes "table_ok t h"
  shows "case flows t h (flow_key f) of
           None \<Rightarrow> search_table (Some t) (Some f) h = Inr None
         | Some n \<Rightarrow> \<exists>a e. search_table (Some t) (Some f) h = Inr (Some a) \<and> h a = Some e \<and>
                           same_flow e f \<and> bytes_sent e = n"
proof -
  obtain ls where ls: "lists t = Live ls" "lists_ok ls (bits t) h" using assms by (rule table_okE)
  show ?thesis
  proof (cases "find (\<lambda>a. key_at h a = flow_key f) (concat ls)")
    case None
    then show ?thesis using ls(1) by (simp add: search_table_find [OF assms] flows_def flows_in_def)
  next
    case (Some a)
    then have "a \<in> set (concat ls)" "key_at h a = flow_key f" using find_SomeD by fastforce+
    moreover from this obtain e where "h a = Some e" using in_bucket [OF ls(2)] by blast
    ultimately show ?thesis using ls(1) Some
      by (simp add: search_table_find [OF assms] flows_def flows_in_def same_flow_key key_at_def)
  qed
qed

theorem search_table_correct_witness:
  "search_table (Some empty_table) (Some sample_flow) Map.empty = Inr None"
  using search_table_correct [OF empty_table_ok, of sample_flow] by (simp add: empty_table_flows)

text \<open>The atomic counter \<open>num_flows\<close> always agrees with the number of flows on record.\<close>

theorem num_flows_counts:
  assumes "table_ok t h"
  shows "num_flows t = word_of_nat (card (dom (flows t h)))"
proof -
  obtain ls where "lists t = Live ls" "lists_ok ls (bits t) h"
    "num_flows t = word_of_nat (length (concat ls))" using assms by (rule table_okE)
  then show ?thesis by (simp only: flows_def flows_card buffer.sel)
qed

theorem num_flows_counts_witness: "num_flows empty_table = word_of_nat (card (dom (flows empty_table Map.empty)))"
  by (rule num_flows_counts [OF empty_table_ok])

text \<open>A table that \<open>init_table\<close> has set up is empty, and \<open>free_table\<close> frees every entry of any table in
  good order exactly once: nothing faults and nothing is leaked.\<close>

theorem init_free_table:
  assumes "vmalloc_ok vmalloc"
  shows "(unat nbits \<le> 16 \<and> vmalloc (2 ^ unat nbits) \<noteq> None \<longrightarrow>
           (\<exists>t'. init_table vmalloc (Some t) nbits = (True, Some t') \<and> table_ok t' Map.empty \<and>
                 flows t' Map.empty = Map.empty \<and> num_flows t' = 0)) \<and>
         (unat nbits > 16 \<longrightarrow> init_table vmalloc (Some t) nbits = (False, Some t)) \<and>
         (table_ok t h \<longrightarrow> free_table t h = Inr (t\<lparr>lists := Dangling\<rparr>, Map.empty))"
proof -
  have "unat nbits \<le> 16 \<and> vmalloc (2 ^ unat nbits) \<noteq> None \<longrightarrow>
           (\<exists>t'. init_table vmalloc (Some t) nbits = (True, Some t') \<and> table_ok t' Map.empty \<and>
                 flows t' Map.empty = Map.empty \<and> num_flows t' = 0)"
    using init_table_ok [OF assms] by (metis not_None_eq)
  then show ?thesis by (simp add: init_table_def free_table_ok)
qed

theorem init_free_table_witness:
  "\<exists>t'. init_table (\<lambda>n. Some (replicate n [0])) (Some empty_table) 3 = (True, Some t') \<and> table_ok t' Map.empty"
  using init_free_table [of "\<lambda>n. Some (replicate n [0])" 3 empty_table Map.empty]
  by (auto simp: vmalloc_ok_def)

text \<open>The check for \<open>NULL\<close> arguments comes after both pointers have been followed to compute the
  index, so a \<open>NULL\<close> flow or table is a fault and never the documented false.\<close>

theorem null_check_too_late:
  "insert_table kmalloc table None h = Inl Null_Deref \<and>
   insert_table kmalloc None (Some f) h = Inl Null_Deref \<and>
   delete_table table None h = Inl Null_Deref \<and>
   search_table None (Some f) h = Inl Null_Deref"
  by (simp add: insert_table_def delete_table_def search_table_def table_index_def)

end
