(* ===== verification/Netfilter.thy ===== *)
theory Netfilter
  imports C_Prelude
begin

text \<open>
  What the two netfilter modules, \<^verbatim>\<open>flow-tracker/main.c\<close> and \<^verbatim>\<open>ipip/ipip_tcp.c\<close>, use of the
  kernel and of C's library: verdicts, byte order, \<open>strncmp\<close> and the registration of hooks.
\<close>

datatype verdict = NF_ACCEPT | NF_DROP

text \<open>\<open>ntohs\<close> and \<open>htons\<close> on a little-endian machine swap the bytes.\<close>

definition ntohs :: "u16 \<Rightarrow> u16" where
  "ntohs x = push_bit 8 x OR drop_bit 8 x"

abbreviation htons :: "u16 \<Rightarrow> u16" where
  "htons \<equiv> ntohs"

lemma ntohs_ntohs [simp]: "ntohs (ntohs x) = x"
  by (rule bit_word_eqI)
    (auto simp: ntohs_def bit_or_iff bit_push_bit_iff bit_drop_bit_eq dest: bit_imp_le_length)

lemma ntohs_eq_iff: "ntohs x = y \<longleftrightarrow> x = ntohs y"
  by (metis ntohs_ntohs)

text \<open>C strings end at the first NUL; \<open>strncmp\<close> compares at most \<open>n\<close> characters.\<close>

definition c_string :: "string \<Rightarrow> string" where
  "c_string s = takeWhile (\<lambda>c. c \<noteq> CHR 0x00) s"

definition strncmp_differs :: "string \<Rightarrow> string \<Rightarrow> nat \<Rightarrow> bool" where
  "strncmp_differs a b n \<longleftrightarrow> take n (c_string a) \<noteq> take n (c_string b)"

definition IFNAMSIZ :: nat where
  "IFNAMSIZ = 16"

definition IPPROTO_TCP :: u8 where
  "IPPROTO_TCP = 6"

definition IPPROTO_IPIP :: u8 where
  "IPPROTO_IPIP = 4"

end
