(* ===== verification/Flow_Tracker.thy ===== *)
theory Flow_Tracker
  imports Flow_Table Netfilter
begin

text \<open>
  The netfilter module \<^verbatim>\<open>flow-tracker/main.c\<close>: its module parameters, the hook that inserts a flow
  on SYN, deletes it on FIN or RST and counts the bytes of every other packet, and the module's
  initialisation and exit.  The hook's use of the table is proved against the interface
  \<open>flow_store\<close>, and carried to the real table by its interpretation.
\<close>

subsection \<open>Packets and module state\<close>

record ip_hdr =
  protocol :: u8
  saddr :: u32
  daddr :: u32

record tcp_hdr =
  tcp_source :: u16
  tcp_dest :: u16
  syn :: bool
  fin :: bool
  rst :: bool

record packet =
  ip_hdr_of :: "ip_hdr option"
  tcp_hdr_of :: tcp_hdr
  skb_len :: u32

record params =
  param_dev :: "string option"
  param_port :: u32

record tracker =
  module_params :: params
  tbl :: flow_table
  mem :: heap
  out_hook :: bool
  in_hook :: bool

text \<open>The line the hook writes to the kernel log.\<close>

datatype 'e log_line = Silent | Inserted 'e | Deleted 'e | No_Entry 'e

subsection \<open>The hook\<close>

text \<open>
  The hook's dealings with the table, from \<open>tcph->syn && insert_table\<close> to
  \<open>entry->bytes_sent += skb->len\<close>, over the operations it calls.
\<close>

definition hook_actions ::
  "('e \<Rightarrow> 's \<Rightarrow> fault + bool \<times> 's) \<Rightarrow> ('e \<Rightarrow> 's \<Rightarrow> fault + bool \<times> 's)
   \<Rightarrow> ('e \<Rightarrow> 's \<Rightarrow> fault + 'p option) \<Rightarrow> ('p \<Rightarrow> 'v \<Rightarrow> 's \<Rightarrow> fault + 's)
   \<Rightarrow> tcp_hdr \<Rightarrow> 'e \<Rightarrow> 'v \<Rightarrow> 's \<Rightarrow> fault + 'e log_line \<times> 's" where
  "hook_actions ins del srch add tcph f len s =
     andthen (if syn tcph then ins f s else Inr (False, s)) (\<lambda>(inserted, s).
       if inserted then Inr (Inserted f, s)
       else andthen (if fin tcph \<or> rst tcph then del f s else Inr (False, s)) (\<lambda>(deleted, s).
         if deleted then Inr (Deleted f, s)
         else andthen (srch f s) (\<lambda>entry.
           case entry of
             None \<Rightarrow> Inr (No_Entry f, s)
           | Some p \<Rightarrow> andthen (add p len s) (\<lambda>s. Inr (Silent, s)))))"

text \<open>The packets the hook looks at: TCP, leaving by the chosen device, from or to the chosen port.\<close>

definition other_device :: "params \<Rightarrow> string option \<Rightarrow> bool" where
  "other_device ps out \<longleftrightarrow>
     (case (out, param_dev ps) of
        (Some name, Some dev) \<Rightarrow> strncmp_differs name dev IFNAMSIZ
      | _ \<Rightarrow> False)"

definition other_port :: "params \<Rightarrow> tcp_hdr \<Rightarrow> bool" where
  "other_port ps tcph \<longleftrightarrow>
     param_port ps \<noteq> 0 \<and> ucast (ntohs (tcp_source tcph)) \<noteq> param_port ps \<and>
     ucast (ntohs (tcp_dest tcph)) \<noteq> param_port ps"

definition packet_flow :: "ip_hdr \<Rightarrow> tcp_hdr \<Rightarrow> u32 \<Rightarrow> flow_entry" where
  "packet_flow iph tcph len =
     \<lparr>local_ip = saddr iph, remote_ip = daddr iph,
      local_port = tcp_source tcph, remote_port = tcp_dest tcph, bytes_sent = len\<rparr>"

definition hook_func_out ::
  "(heap \<Rightarrow> addr option) \<Rightarrow> params \<Rightarrow> packet \<Rightarrow> string option \<Rightarrow> table_state
   \<Rightarrow> fault + verdict \<times> flow_entry log_line \<times> table_state" where
  "hook_func_out kmalloc ps skb out s =
     (if other_device ps out then Inr (NF_ACCEPT, Silent, s)
      else case ip_hdr_of skb of
        None \<Rightarrow> Inr (NF_ACCEPT, Silent, s)
      | Some iph \<Rightarrow>
          if protocol iph \<noteq> IPPROTO_TCP then Inr (NF_ACCEPT, Silent, s)
          else let tcph = tcp_hdr_of skb in
            if other_port ps tcph then Inr (NF_ACCEPT, Silent, s)
            else let f = packet_flow iph tcph (skb_len skb) in
              andthen (hook_actions (table_insert kmalloc) table_delete table_search add_bytes
                         tcph f (skb_len skb) s)
                (\<lambda>(n, s). Inr (NF_ACCEPT, n, s)))"

definition hook_func_in :: "packet \<Rightarrow> verdict" where
  "hook_func_in skb = NF_ACCEPT"

subsection \<open>Initialisation and exit\<close>

text \<open>
  The trimming loop: the first newline among the first 32 characters becomes the terminating NUL.
  Reading past the buffer is a fault; a parameter string ends with NUL.
\<close>

function trim_dev :: "nat \<Rightarrow> string \<Rightarrow> fault + string" where
  "trim_dev i dev =
     (if i < 32 then
        if i < length dev then
          if dev ! i = CHR 0x00 then Inr dev
          else if dev ! i = CHR 0x0A then Inr (dev[i := CHR 0x00])
          else trim_dev (Suc i) dev
        else Inl Out_Of_Bounds
      else Inr dev)"
  by pat_completeness auto
termination
  by (relation "measure (\<lambda>(i, _). 32 - i)") auto

declare trim_dev.simps [simp del]

datatype hook_id = Hook_Out | Hook_In

text \<open>\<open>nf_register_hook\<close> returns 0 when it has registered the hook.\<close>

definition flow_tracker_init ::
  "(nat \<Rightarrow> addr list list option) \<Rightarrow> (hook_id \<Rightarrow> int) \<Rightarrow> tracker \<Rightarrow> fault + int \<times> tracker" where
  "flow_tracker_init vmalloc nf_register_hook s =
     andthen (case param_dev (module_params s) of
                None \<Rightarrow> Inr None
              | Some dev \<Rightarrow> andthen (trim_dev 0 dev) (\<lambda>dev. Inr (Some dev)))
       (\<lambda>dev.
         let s = s\<lparr>module_params := (module_params s)\<lparr>param_dev := dev\<rparr>\<rparr>;
             (ok, t) = init_table vmalloc (Some (tbl s)) 8
         in andthen (deref t) (\<lambda>t.
           let s = s\<lparr>tbl := t\<rparr> in
           if \<not> ok then Inr (-1, s)
           else if nf_register_hook Hook_Out \<noteq> 0 then Inr (-1, s)
           else let s = s\<lparr>out_hook := True\<rparr> in
             if nf_register_hook Hook_In \<noteq> 0 then Inr (-1, s)
             else Inr (0, s\<lparr>in_hook := True\<rparr>)))"

definition flow_tracker_exit :: "tracker \<Rightarrow> fault + tracker" where
  "flow_tracker_exit s =
     (let s = s\<lparr>out_hook := False, in_hook := False\<rparr>
      in andthen (free_table (tbl s) (mem s)) (\<lambda>(t, h). Inr (s\<lparr>tbl := t, mem := h\<rparr>)))"

text \<open>Packets leaving one after the other while the module is loaded.\<close>

fun hook_run ::
  "(heap \<Rightarrow> addr option) \<Rightarrow> params \<Rightarrow> (packet \<times> string option) list \<Rightarrow> table_state
   \<Rightarrow> fault + table_state" where
  "hook_run kmalloc ps [] s = Inr s"
| "hook_run kmalloc ps ((skb, out) # rest) s =
     andthen (hook_func_out kmalloc ps skb out s) (\<lambda>(v, n, s). hook_run kmalloc ps rest s)"

subsection \<open>What a packet does to the map of flows\<close>

definition track_spec :: "tcp_hdr \<Rightarrow> bool \<Rightarrow> 'k \<Rightarrow> 'v \<Rightarrow> ('k \<rightharpoonup> 'v::plus) \<Rightarrow> ('k \<rightharpoonup> 'v)" where
  "track_spec tcph room k len m =
     (if syn tcph \<and> room \<and> m k = None then m(k \<mapsto> len)
      else if (fin tcph \<or> rst tcph) \<and> m k \<noteq> None then m(k := None)
      else (case m k of None \<Rightarrow> m | Some n \<Rightarrow> m(k \<mapsto> n + len)))"

definition hook_spec :: "params \<Rightarrow> packet \<Rightarrow> string option \<Rightarrow> bool \<Rightarrow> (flow_key \<rightharpoonup> u32) \<Rightarrow> (flow_key \<rightharpoonup> u32)" where
  "hook_spec ps skb out room m =
     (case ip_hdr_of skb of
        None \<Rightarrow> m
      | Some iph \<Rightarrow>
          if other_device ps out \<or> protocol iph \<noteq> IPPROTO_TCP \<or> other_port ps (tcp_hdr_of skb) then m
          else track_spec (tcp_hdr_of skb) room
                 (saddr iph, daddr iph, tcp_source (tcp_hdr_of skb), tcp_dest (tcp_hdr_of skb))
                 (skb_len skb) m)"

context flow_store
begin

lemma hook_actions_refines:
  assumes "inv s" and "val e = len"
  shows "\<exists>n s'. hook_actions insert delete search add tcph e len s = Inr (n, s') \<and> inv s' \<and>
           view s' = track_spec tcph (room s) (key e) len (view s)"
proof -
  have look: "\<exists>n s'. andthen (search e s) (\<lambda>entry. case entry of None \<Rightarrow> Inr (No_Entry e, s)
        | Some p \<Rightarrow> andthen (add p len s) (\<lambda>s. Inr (Silent, s))) = Inr (n, s') \<and> inv s' \<and>
      view s' = (case view s (key e) of None \<Rightarrow> view s | Some v \<Rightarrow> (view s)(key e \<mapsto> v + len))"
  proof (cases "view s (key e)")
    case None
    then show ?thesis using search_none assms(1) by simp
  next
    case (Some v)
    then obtain p s' where "search e s = Inr (Some p)" "add p len s = Inr s'" "inv s'"
      "view s' = (view s)(key e \<mapsto> v + len)"
      using search_add assms(1) by blast
    with Some show ?thesis by simp
  qed
  show ?thesis
  proof (cases "syn tcph \<and> room s \<and> view s (key e) = None")
    case True
    then obtain s' where "insert e s = Inr (True, s')" "inv s'" "view s' = (view s)(key e \<mapsto> val e)"
      using insert_new assms(1) by blast
    with True show ?thesis by (simp add: hook_actions_def track_spec_def assms(2))
  next
    case False
    then have ins: "(if syn tcph then insert e s else Inr (False, s)) = Inr (False, s)"
      using insert_old insert_full assms(1) by auto
    show ?thesis
    proof (cases "(fin tcph \<or> rst tcph) \<and> view s (key e) \<noteq> None")
      case True
      then obtain s' where s': "delete e s = Inr (True, s')" "inv s'" "view s' = (view s)(key e := None)"
        using delete_some assms(1) by blast
      from True False show ?thesis by (auto simp: hook_actions_def track_spec_def ins s')
    next
      case no: False
      then have del: "(if fin tcph \<or> rst tcph then delete e s else Inr (False, s)) = Inr (False, s)"
        using delete_none assms(1) by auto
      from no False look show ?thesis by (auto simp: hook_actions_def track_spec_def ins del)
    qed
  qed
qed

end

subsection \<open>The module is correct\<close>

lemma flow_key_packet [simp]:
  "flow_key (packet_flow iph tcph len) = (saddr iph, daddr iph, tcp_source tcph, tcp_dest tcph)"
  "bytes_sent (packet_flow iph tcph len) = len"
  by (simp_all add: flow_key_def packet_flow_def)

lemma hook_func_out_refines:
  assumes "kmalloc_ok kmalloc" and "table_ok (fst s) (snd s)"
  shows "\<exists>n s'. hook_func_out kmalloc ps skb out s = Inr (NF_ACCEPT, n, s') \<and> table_ok (fst s') (snd s') \<and>
           flows (fst s') (snd s') = hook_spec ps skb out (kmalloc (snd s) \<noteq> None) (flows (fst s) (snd s))"
proof (cases "ip_hdr_of skb")
  case None
  then show ?thesis using assms(2) by (cases s) (auto simp: hook_func_out_def hook_spec_def)
next
  case (Some iph)
  define f where "f = packet_flow iph (tcp_hdr_of skb) (skb_len skb)"
  have k: "fresh_kmalloc kmalloc = kmalloc" using assms(1) by (rule fresh_kmalloc_ok)
  obtain n s' where "hook_actions (table_insert kmalloc) table_delete table_search add_bytes
      (tcp_hdr_of skb) f (skb_len skb) s = Inr (n, s')" "table_ok (fst s') (snd s')"
    "flows (fst s') (snd s') = track_spec (tcp_hdr_of skb) (kmalloc (snd s) \<noteq> None) (flow_key f)
       (skb_len skb) (flows (fst s) (snd s))"
    using ft.hook_actions_refines [where pick = kmalloc and s = s and e = f and len = "skb_len skb"
      and tcph = "tcp_hdr_of skb", unfolded k] assms(2) by (auto simp: f_def)
  then show ?thesis
    using assms(2) Some
    by (cases s; cases s') (auto simp: hook_func_out_def hook_spec_def Let_def f_def)
qed

text \<open>The abstract run: \<open>rooms\<close> says, packet by packet, whether the allocator had memory.\<close>

fun spec_run ::
  "params \<Rightarrow> (packet \<times> string option) list \<Rightarrow> bool list \<Rightarrow> (flow_key \<rightharpoonup> u32) \<Rightarrow> (flow_key \<rightharpoonup> u32)" where
  "spec_run ps [] rooms m = m"
| "spec_run ps ((skb, out) # rest) rooms m =
     spec_run ps rest (tl rooms) (hook_spec ps skb out (rooms \<noteq> [] \<and> hd rooms) m)"

lemma hook_run_refines:
  assumes "kmalloc_ok kmalloc" and "table_ok (fst s) (snd s)"
  shows "\<exists>rooms s'. length rooms = length pkts \<and> hook_run kmalloc ps pkts s = Inr s' \<and>
           table_ok (fst s') (snd s') \<and>
           flows (fst s') (snd s') = spec_run ps pkts rooms (flows (fst s) (snd s))"
  using assms(2)
proof (induction pkts arbitrary: s)
  case Nil
  then show ?case by simp
next
  case (Cons p pkts)
  obtain skb out where p: "p = (skb, out)" by (cases p)
  obtain n s1 where s1: "hook_func_out kmalloc ps skb out s = Inr (NF_ACCEPT, n, s1)"
    "table_ok (fst s1) (snd s1)"
    "flows (fst s1) (snd s1) = hook_spec ps skb out (kmalloc (snd s) \<noteq> None) (flows (fst s) (snd s))"
    using hook_func_out_refines [OF assms(1) Cons.prems] by blast
  obtain rooms s' where "length rooms = length pkts" "hook_run kmalloc ps pkts s1 = Inr s'"
    "table_ok (fst s') (snd s')"
    "flows (fst s') (snd s') = spec_run ps pkts rooms (flows (fst s1) (snd s1))"
    using Cons.IH [OF s1(2)] by blast
  then show ?case
    using s1 by (intro exI [of _ "(kmalloc (snd s) \<noteq> None) # rooms"] exI [of _ s']) (simp add: p)
qed

subsection \<open>The trimming loop\<close>

lemma c_string_take:
  "i < length s \<Longrightarrow> s ! i = CHR 0x00 \<Longrightarrow> (\<And>j. j < i \<Longrightarrow> s ! j \<noteq> CHR 0x00) \<Longrightarrow> c_string s = take i s"
  unfolding c_string_def by (rule takeWhile_eq_take_P_nth) auto

lemma trim_dev_from:
  assumes "k < length dev" and "dev ! k = CHR 0x00"
    and "\<And>j. j < i \<Longrightarrow> j < length dev \<Longrightarrow> dev ! j \<noteq> CHR 0x00 \<and> dev ! j \<noteq> CHR 0x0A" and "i \<le> k"
  shows "\<exists>dev'. trim_dev i dev = Inr dev' \<and>
    c_string dev' = (let s = c_string dev
                     in if CHR 0x0A \<in> set (take 32 s) then takeWhile (\<lambda>c. c \<noteq> CHR 0x0A) s else s)"
  using assms
proof (induction i dev rule: trim_dev.induct)
  case (1 i dev)
  have len: "i < length dev" using "1.prems"(1,4) by simp
  have before: "j < i \<Longrightarrow> dev ! j \<noteq> CHR 0x00" "j < i \<Longrightarrow> dev ! j \<noteq> CHR 0x0A" for j
    using "1.prems"(3) [of j] len by auto
  have unclean: "CHR 0x0A \<notin> set (take i dev)"
    using before(2) len by (auto simp: in_set_conv_nth)
  consider (full) "32 \<le> i" | (nul) "i < 32" "dev ! i = CHR 0x00"
    | (nl) "i < 32" "dev ! i = CHR 0x0A" | (next_char) "i < 32" "dev ! i \<noteq> CHR 0x00" "dev ! i \<noteq> CHR 0x0A"
    by linarith
  then show ?case
  proof cases
    case full
    have "set (take 32 (c_string dev)) \<subseteq> set (take 32 dev)"
      unfolding c_string_def by (metis takeWhile_eq_take set_take_subset_set_take take_take min.cobounded1)
    also have "\<dots> \<subseteq> set (take i dev)" using full by (rule set_take_subset_set_take)
    finally show ?thesis using full unclean by (auto simp: trim_dev.simps [of i dev] Let_def)
  next
    case nul
    then have "c_string dev = take i dev" using len before by (intro c_string_take)
    with nul len unclean show ?thesis
      by (auto simp: trim_dev.simps [of i dev] Let_def dest: in_set_takeD)
  next
    case nl
    have cut: "c_string (dev[i := CHR 0x00]) = take i dev"
      using c_string_take [of i "dev[i := CHR 0x00]"] len before by simp
    have s_i: "i < length (c_string dev)"
    proof -
      have "Suc i \<le> length (c_string dev)"
        unfolding c_string_def using before(1) nl len less_Suc_eq
        by (intro length_takeWhile_less_P_nth) auto
      then show ?thesis by simp
    qed
    then have nth: "c_string dev ! j = dev ! j" if "j \<le> i" for j
      using that unfolding c_string_def by (intro takeWhile_nth) auto
    have "CHR 0x0A \<in> set (take 32 (c_string dev))"
      using nl s_i nth by (auto simp: in_set_conv_nth intro!: exI [of _ i])
    moreover have "takeWhile (\<lambda>c. c \<noteq> CHR 0x0A) (c_string dev) = take i (c_string dev)"
      using s_i nl nth before(2) by (intro takeWhile_eq_take_P_nth) auto
    moreover have "take i (c_string dev) = take i dev"
      using s_i nth len by (intro nth_equalityI) auto
    ultimately show ?thesis using nl len cut by (simp add: trim_dev.simps [of i dev] Let_def)
  next
    case next_char
    then have "i \<noteq> k" using "1.prems"(2) by auto
    then have "\<exists>dev'. trim_dev (Suc i) dev = Inr dev' \<and>
      c_string dev' = (let s = c_string dev
                     in if CHR 0x0A \<in> set (take 32 s) then takeWhile (\<lambda>c. c \<noteq> CHR 0x0A) s else s)"
      using next_char "1.prems" len before less_Suc_eq by (intro "1.IH") auto
    with next_char len show ?thesis by (simp add: trim_dev.simps [of i dev])
  qed
qed

lemma trim_dev_string:
  assumes "CHR 0x00 \<in> set dev"
  shows "\<exists>dev'. trim_dev 0 dev = Inr dev' \<and>
    c_string dev' = (let s = c_string dev
                     in if CHR 0x0A \<in> set (take 32 s) then takeWhile (\<lambda>c. c \<noteq> CHR 0x0A) s else s)"
proof -
  obtain k where "k < length dev" "dev ! k = CHR 0x00"
    using assms by (auto simp: in_set_conv_nth)
  then show ?thesis by (intro trim_dev_from) auto
qed

subsection \<open>Properties\<close>

text \<open>A buffer that holds a C string, and the module before it is loaded.\<close>

definition terminated :: "string option \<Rightarrow> bool" where
  "terminated dev \<longleftrightarrow> (case dev of None \<Rightarrow> True | Some s \<Rightarrow> CHR 0x00 \<in> set s)"

definition unloaded :: tracker where
  "unloaded = \<lparr>module_params = \<lparr>param_dev = Some (''eth1'' @ [CHR 0x0A, CHR 0x00]), param_port = 5001\<rparr>,
     tbl = \<lparr>lists = Null, bits = 0, num_flows = 0, lock = False\<rparr>, mem = Map.empty,
     out_hook = False, in_hook = False\<rparr>"

definition syn_packet :: packet where
  "syn_packet = \<lparr>ip_hdr_of = Some \<lparr>protocol = IPPROTO_TCP, saddr = 1, daddr = 2\<rparr>,
     tcp_hdr_of = \<lparr>tcp_source = ntohs 5001, tcp_dest = 80, syn = True, fin = False, rst = False\<rparr>, skb_len = 60\<rparr>"

text \<open>C1: an outgoing packet is always accepted, whatever it is: the hook never faults, keeps the table in
  good order, and changes the map of flows exactly as \<open>hook_spec\<close> says - a SYN of an unknown flow
  puts it on record, a FIN or RST of a known one removes it, any other packet of a known flow adds
  its length, and packets of another device, protocol or port change nothing.\<close>

theorem hook_out_correct:
  assumes "kmalloc_ok kmalloc" and "table_ok (fst s) (snd s)"
  shows "\<exists>n s'. hook_func_out kmalloc ps skb out s = Inr (NF_ACCEPT, n, s') \<and> table_ok (fst s') (snd s') \<and>
           flows (fst s') (snd s') = hook_spec ps skb out (kmalloc (snd s) \<noteq> None) (flows (fst s) (snd s))"
  using assms by (rule hook_func_out_refines)

theorem hook_out_correct_witness:
  "\<exists>n s'. hook_func_out one_slot (module_params unloaded) syn_packet (Some ''eth1'') (empty_table, Map.empty)
          = Inr (NF_ACCEPT, n, s') \<and> table_ok (fst s') (snd s')"
  using hook_out_correct [OF one_slot_ok, of "(empty_table, Map.empty)"] empty_table_ok by fastforce

text \<open>The trimming loop terminates without leaving the buffer of a C string, and cuts the string at its
  first newline when there is one among the first 32 characters.\<close>

theorem trim_dev_correct:
  assumes "CHR 0x00 \<in> set dev"
  shows "\<exists>dev'. trim_dev 0 dev = Inr dev' \<and>
    c_string dev' = (let s = c_string dev
                     in if CHR 0x0A \<in> set (take 32 s) then takeWhile (\<lambda>c. c \<noteq> CHR 0x0A) s else s)"
  using assms by (rule trim_dev_string)

theorem trim_dev_correct_witness:
  "\<exists>dev'. trim_dev 0 (''eth1'' @ [CHR 0x0A, CHR 0x00]) = Inr dev' \<and> c_string dev' = ''eth1''"
  using trim_dev_correct [of "''eth1'' @ [CHR 0x0A, CHR 0x00]"] by (simp add: c_string_def)

lemma init_run:
  assumes "vmalloc_ok vmalloc" and "vmalloc 256 \<noteq> None" and "terminated (param_dev (module_params s))"
  obtains dev t where
    "flow_tracker_init vmalloc reg s =
       (let s = s\<lparr>module_params := (module_params s)\<lparr>param_dev := dev\<rparr>, tbl := t\<rparr> in
        if reg Hook_Out \<noteq> 0 then Inr (-1, s)
        else if reg Hook_In \<noteq> 0 then Inr (-1, s\<lparr>out_hook := True\<rparr>)
        else Inr (0, s\<lparr>out_hook := True, in_hook := True\<rparr>))"
    "table_ok t Map.empty" "flows t Map.empty = Map.empty"
proof -
  have dev: "\<exists>dev. (case param_dev (module_params s) of None \<Rightarrow> Inr None
      | Some dev \<Rightarrow> andthen (trim_dev 0 dev) (\<lambda>dev. Inr (Some dev))) = Inr dev"
    using assms(3) trim_dev_string by (fastforce simp: terminated_def split: option.splits)
  then obtain dev where dev: "(case param_dev (module_params s) of None \<Rightarrow> Inr None
      | Some dev \<Rightarrow> andthen (trim_dev 0 dev) (\<lambda>dev. Inr (Some dev))) = Inr dev" ..
  obtain arr where "vmalloc (2 ^ unat (8 :: u8)) = Some arr" using assms(2) by auto
  then obtain t where t: "init_table vmalloc (Some (tbl s)) 8 = (True, Some t)" "table_ok t Map.empty"
    "flows t Map.empty = Map.empty"
    using init_table_ok [of vmalloc 8 arr "tbl s"] assms(1) by auto
  show thesis
    by (rule that [where dev = dev and t = t, OF _ t(2,3)]) (simp add: flow_tracker_init_def dev t(1) Let_def)
qed

text \<open>C36: a whole life of the module: after a successful initialisation any sequence of packets is handled
  without a fault, and exit unregisters both hooks, frees every flow entry, and gives the array of buckets back
  to \<open>vfree\<close>.\<close>

theorem session_no_leak:
  assumes "kmalloc_ok kmalloc" and "vmalloc_ok vmalloc" and "vmalloc 256 \<noteq> None"
    and "terminated (param_dev (module_params s))" and "mem s = Map.empty"
    and "reg Hook_Out = 0" and "reg Hook_In = 0"
  shows "\<exists>s1 t h s2. flow_tracker_init vmalloc reg s = Inr (0, s1) \<and> out_hook s1 \<and> in_hook s1 \<and>
           hook_run kmalloc (module_params s1) pkts (tbl s1, mem s1) = Inr (t, h) \<and>
           num_flows t = word_of_nat (card (dom (flows t h))) \<and>
           flow_tracker_exit (s1\<lparr>tbl := t, mem := h\<rparr>) = Inr s2 \<and>
           mem s2 = Map.empty \<and> (\<exists>ls. lists t = Live ls) \<and> lists (tbl s2) = Dangling \<and>
           \<not> out_hook s2 \<and> \<not> in_hook s2"
proof -
  obtain dev t0 where init: "flow_tracker_init vmalloc reg s = Inr (0, s\<lparr>module_params := (module_params s)\<lparr>param_dev := dev\<rparr>,
      tbl := t0, out_hook := True, in_hook := True\<rparr>)" and ok0: "table_ok t0 Map.empty"
    using init_run [OF assms(2-4), of reg] assms(6,7) by (simp add: Let_def) blast
  define s1 where "s1 = s\<lparr>module_params := (module_params s)\<lparr>param_dev := dev\<rparr>,
      tbl := t0, out_hook := True, in_hook := True\<rparr>"
  obtain t h where run: "hook_run kmalloc (module_params s1) pkts (tbl s1, mem s1) = Inr (t, h)" "table_ok t h"
    using hook_run_refines [OF assms(1), of "(tbl s1, mem s1)"] ok0 assms(5) by (fastforce simp: s1_def)
  obtain ls where ls: "lists t = Live ls" "lists_ok ls (bits t) h"
    "num_flows t = word_of_nat (length (concat ls))"
    using run(2) by (rule table_okE)
  then have "num_flows t = word_of_nat (card (dom (flows t h)))"
    by (simp only: flows_def flows_card buffer.sel)
  moreover have "flow_tracker_exit (s1\<lparr>tbl := t, mem := h\<rparr>)
    = Inr (s1\<lparr>tbl := t\<lparr>lists := Dangling\<rparr>, mem := Map.empty, out_hook := False, in_hook := False\<rparr>)"
    by (simp add: flow_tracker_exit_def free_table_ok [OF run(2)])
  ultimately show ?thesis using init run(1) ls(1) by (fastforce simp: s1_def)
qed

theorem session_no_leak_witness:
  "\<exists>s1 t h s2. flow_tracker_init (\<lambda>n. Some (replicate n [])) (\<lambda>_. 0) unloaded = Inr (0, s1) \<and>
     hook_run one_slot (module_params s1) [(syn_packet, Some ''eth1'')] (tbl s1, mem s1) = Inr (t, h) \<and>
     flow_tracker_exit (s1\<lparr>tbl := t, mem := h\<rparr>) = Inr s2 \<and> mem s2 = Map.empty \<and> lists (tbl s2) = Dangling"
  using session_no_leak [OF one_slot_ok, of "\<lambda>n. Some (replicate n [])" unloaded "\<lambda>_. 0"
      "[(syn_packet, Some ''eth1'')]"]
  by (auto simp: vmalloc_ok_def terminated_def unloaded_def)

text \<open>When the second registration fails, initialisation reports failure but leaves the first hook
  registered and the table allocated, so a module that is not loaded keeps seeing packets.\<close>

theorem failed_init_leaves_hook:
  assumes "vmalloc_ok vmalloc" and "vmalloc 256 \<noteq> None" and "terminated (param_dev (module_params s))"
    and "reg Hook_Out = 0" and "reg Hook_In \<noteq> 0"
  shows "\<exists>s1 ls. flow_tracker_init vmalloc reg s = Inr (-1, s1) \<and> out_hook s1 \<and> lists (tbl s1) = Live ls"
proof -
  obtain dev t where t: "flow_tracker_init vmalloc reg s = Inr (-1, s\<lparr>module_params := (module_params s)\<lparr>param_dev := dev\<rparr>,
      tbl := t, out_hook := True\<rparr>)" "table_ok t Map.empty"
    using init_run [OF assms(1-3), of reg] assms(4,5) by (simp add: Let_def) blast
  obtain ls where "lists t = Live ls" using t(2) by (rule table_okE)
  with t(1) show ?thesis by simp
qed

theorem failed_init_leaves_hook_witness:
  "\<exists>s1. flow_tracker_init (\<lambda>n. Some (replicate n [])) (\<lambda>h. if h = Hook_In then -12 else 0) unloaded = Inr (-1, s1) \<and>
        out_hook s1"
  using failed_init_leaves_hook [of "\<lambda>n. Some (replicate n [])" unloaded "\<lambda>h. if h = Hook_In then -12 else 0"]
  by (auto simp: vmalloc_ok_def terminated_def unloaded_def)

end
