(* ===== verification/Flow_Race.thy ===== *)
theory Flow_Race
  imports Flow_Table
begin

text \<open>
  \<open>insert_table\<close> of \<^verbatim>\<open>flow-tracker/flow_table.c\<close> when several processors run it at once.  The
  function takes the table's lock twice, once to look for the flow and once to link the new entry, and
  lets go of it in between; each critical section, the allocation and the atomic increment are one step.
  A processor that runs undisturbed computes \<open>insert_table\<close>; two that interleave can both
  insert the same flow.
\<close>

subsection \<open>The steps\<close>

datatype ins_pc =
    Start flow_entry            \<comment> \<open>before the first critical section\<close>
  | Checked flow_entry          \<comment> \<open>the flow was not found, the lock is free again\<close>
  | Allocated flow_entry addr   \<comment> \<open>the new entry is filled in\<close>
  | Linked                      \<comment> \<open>in the list, not yet counted\<close>
  | Finished bool

record race =
  rtable :: flow_table
  rheap :: heap
  cpu :: "nat \<Rightarrow> ins_pc"

definition at_bucket :: "race \<Rightarrow> flow_entry \<Rightarrow> addr list" where
  "at_bucket s f = contents (lists (rtable s)) ! flow_index (bits (rtable s)) f"

inductive ins_step :: "(heap \<Rightarrow> addr option) \<Rightarrow> nat \<Rightarrow> race \<Rightarrow> race \<Rightarrow> bool" for kmalloc i where
  found: "cpu s i = Start f \<Longrightarrow> find_entry (rheap s) (at_bucket s f) f = Inr (Some a) \<Longrightarrow>
     ins_step kmalloc i s (s\<lparr>cpu := (cpu s)(i := Finished False)\<rparr>)"
| not_found: "cpu s i = Start f \<Longrightarrow> find_entry (rheap s) (at_bucket s f) f = Inr None \<Longrightarrow>
     ins_step kmalloc i s (s\<lparr>cpu := (cpu s)(i := Checked f)\<rparr>)"
| no_memory: "cpu s i = Checked f \<Longrightarrow> kmalloc (rheap s) = None \<Longrightarrow>
     ins_step kmalloc i s (s\<lparr>cpu := (cpu s)(i := Finished False)\<rparr>)"
| memory: "cpu s i = Checked f \<Longrightarrow> kmalloc (rheap s) = Some a \<Longrightarrow>
     ins_step kmalloc i s (s\<lparr>rheap := (rheap s)(a \<mapsto> f), cpu := (cpu s)(i := Allocated f a)\<rparr>)"
| link: "cpu s i = Allocated f a \<Longrightarrow>
     ins_step kmalloc i s
       (s\<lparr>rtable := set_bucket (rtable s) (flow_index (bits (rtable s)) f) (a # at_bucket s f),
          cpu := (cpu s)(i := Linked)\<rparr>)"
| count: "cpu s i = Linked \<Longrightarrow>
     ins_step kmalloc i s
       (s\<lparr>rtable := (rtable s)\<lparr>num_flows := num_flows (rtable s) + 1\<rparr>,
          cpu := (cpu s)(i := Finished True)\<rparr>)"

inductive_cases ins_stepE: "ins_step kmalloc i s s'"

text \<open>Runs: any processor may take the next step.\<close>

inductive ins_steps :: "(heap \<Rightarrow> addr option) \<Rightarrow> race \<Rightarrow> race \<Rightarrow> bool" for kmalloc where
  stay: "ins_steps kmalloc s s"
| more: "ins_steps kmalloc s s' \<Longrightarrow> ins_step kmalloc i s' s'' \<Longrightarrow> ins_steps kmalloc s s''"

lemma ins_steps_Cons: "ins_step kmalloc i s s' \<Longrightarrow> ins_steps kmalloc s' s'' \<Longrightarrow> ins_steps kmalloc s s''"
  by (rotate_tac 1, induction rule: ins_steps.induct) (auto intro: ins_steps.intros)

lemma ins_steps_one: "ins_step kmalloc i s s' \<Longrightarrow> ins_steps kmalloc s s'"
  by (rule ins_steps.more [OF ins_steps.stay])

subsection \<open>What survives any interleaving\<close>

definition linked :: "race \<Rightarrow> addr list" where
  "linked s = concat (contents (lists (rtable s)))"

definition counting :: "(nat \<Rightarrow> ins_pc) \<Rightarrow> nat set" where
  "counting c = {i. c i = Linked}"

definition race_ok :: "race \<Rightarrow> bool" where
  "race_ok s \<longleftrightarrow>
     (\<exists>ls. lists (rtable s) = Live ls \<and> unat (bits (rtable s)) \<le> 16 \<and>
        length ls = 2 ^ unat (bits (rtable s)) \<and>
        (\<forall>j < length ls. \<forall>a \<in> set (ls ! j). live_in (rheap s) (bits (rtable s)) j a) \<and>
        distinct (concat ls)) \<and>
     (\<forall>i f a. cpu s i = Allocated f a \<longrightarrow> a \<notin> set (linked s) \<and>
        (\<exists>e. rheap s a = Some e \<and> flow_key e = flow_key f)) \<and>
     (\<forall>i j f g a. cpu s i = Allocated f a \<and> cpu s j = Allocated g a \<longrightarrow> i = j) \<and>
     finite (counting (cpu s)) \<and>
     num_flows (rtable s) + word_of_nat (card (counting (cpu s))) = word_of_nat (length (linked s))"

lemma counting_update:
  "counting (c(i := p)) = (if p = Linked then insert i (counting c) else counting c - {i})"
  by (auto simp: counting_def)

lemma not_counting: "c i \<noteq> Linked \<Longrightarrow> counting c - {i} = counting c" "c i \<noteq> Linked \<Longrightarrow> i \<notin> counting c"
  by (auto simp: counting_def)

lemma linked_frame [simp]:
  "linked (s\<lparr>cpu := c\<rparr>) = linked s" "linked (s\<lparr>rheap := h\<rparr>) = linked s"
  by (simp_all add: linked_def)

text \<open>A step that only moves a processor's program counter, and not to a state that owns anything.\<close>

lemma race_ok_move:
  assumes "race_ok s" and "cpu s i \<noteq> Linked" and "p \<noteq> Linked" and "\<And>f a. p \<noteq> Allocated f a"
  shows "race_ok (s\<lparr>cpu := (cpu s)(i := p)\<rparr>)"
  using assms by (auto simp: race_ok_def counting_update not_counting split: if_splits)

lemma race_ok_memory:
  assumes ok: "race_ok s" and at: "cpu s i = Checked f" and new: "rheap s a = None"
  shows "race_ok (s\<lparr>rheap := (rheap s)(a \<mapsto> f), cpu := (cpu s)(i := Allocated f a)\<rparr>)"
proof -
  obtain ls where ls: "lists (rtable s) = Live ls"
    "\<forall>j < length ls. \<forall>a \<in> set (ls ! j). live_in (rheap s) (bits (rtable s)) j a"
    using ok by (auto simp: race_ok_def)
  have "a \<notin> set (linked s)"
    using ls new live_in_Some by (fastforce simp: linked_def in_concat_nth simp del: set_concat)
  moreover have "live_in ((rheap s)(a \<mapsto> f)) b j c" if "live_in (rheap s) b j c" for b j c
    using that new by (auto simp: live_in_def)
  moreover have "cpu s j \<noteq> Allocated g a" for j g
    using ok new unfolding race_ok_def by (metis option.distinct(1))
  ultimately show ?thesis
    using ok at by (auto simp: race_ok_def counting_update not_counting split: if_splits)
qed

lemma race_ok_link:
  assumes ok: "race_ok s" and at: "cpu s i = Allocated f a"
  shows "race_ok (s\<lparr>rtable := set_bucket (rtable s) (flow_index (bits (rtable s)) f) (a # at_bucket s f),
                    cpu := (cpu s)(i := Linked)\<rparr>)"
proof -
  define b where "b = bits (rtable s)"
  define k where "k = flow_index b f"
  obtain ls where ls: "lists (rtable s) = Live ls" "unat b \<le> 16" "length ls = 2 ^ unat b"
    "\<And>j a. j < length ls \<Longrightarrow> a \<in> set (ls ! j) \<Longrightarrow> live_in (rheap s) b j a" "distinct (concat ls)"
    using ok by (auto simp: race_ok_def b_def)
  have k: "k < length ls" using flow_index_less ls(2,3) by (simp add: k_def)
  obtain e where a: "a \<notin> set (concat ls)" "rheap s a = Some e" "flow_key e = flow_key f"
    using ok at ls(1) unfolding race_ok_def linked_def by (metis buffer.sel)
  let ?ls = "ls[k := a # ls ! k]"
  have ms: "mset (concat ?ls) = add_mset a (mset (concat ls))" using k by (rule mset_concat_cons)
  then have set': "set (concat ?ls) = insert a (set (concat ls))"
    by (metis set_mset_add_mset_insert set_mset_mset)
  have dist: "distinct (concat ?ls)"
    using ms a(1) ls(5) by (metis distinct.simps(2) mset.simps(2) mset_eq_imp_distinct_iff)
  have live: "live_in (rheap s) b j c" if "j < length ?ls" "c \<in> set (?ls ! j)" for j c
    using that ls(4) a(2) flow_index_key [OF a(3), of b] k
    by (cases "j = k") (auto simp: live_in_def k_def)
  have len: "length (concat ?ls) = Suc (length (concat ls))"
    using arg_cong [OF ms, of size] by simp
  have cnt: "i \<notin> counting (cpu s)" using at by (simp add: counting_def)
  have others: "c \<noteq> a" if "cpu s j = Allocated g c" "j \<noteq> i" for j g c
    using ok at that by (auto simp: race_ok_def)
  have lk: "linked s = concat ls" using ls(1) by (simp add: linked_def)
  define t where "t = set_bucket (rtable s) k (a # ls ! k)"
  have t: "lists t = Live ?ls" "bits t = b" "num_flows t = num_flows (rtable s)"
    using ls(1) by (simp_all add: t_def set_bucket_def b_def)
  have "race_ok (s\<lparr>rtable := t, cpu := (cpu s)(i := Linked)\<rparr>)"
    unfolding race_ok_def
  proof (intro conjI)
    let ?s = "s\<lparr>rtable := t, cpu := (cpu s)(i := Linked)\<rparr>"
    show "\<exists>ls. lists (rtable ?s) = Live ls \<and> unat (bits (rtable ?s)) \<le> 16 \<and>
        length ls = 2 ^ unat (bits (rtable ?s)) \<and>
        (\<forall>j < length ls. \<forall>a \<in> set (ls ! j). live_in (rheap ?s) (bits (rtable ?s)) j a) \<and> distinct (concat ls)"
      using t ls(2,3) live dist by (intro exI [of _ ?ls]) simp
    have l': "linked ?s = concat ?ls" by (simp add: linked_def t)
    show "\<forall>j g c. cpu ?s j = Allocated g c \<longrightarrow> c \<notin> set (linked ?s) \<and>
        (\<exists>e. rheap ?s c = Some e \<and> flow_key e = flow_key g)"
      unfolding l' set' using ok others
      by (auto simp: race_ok_def lk simp del: set_concat split: if_splits)
    show "\<forall>j j' g g' c. cpu ?s j = Allocated g c \<and> cpu ?s j' = Allocated g' c \<longrightarrow> j = j'"
      using ok by (auto simp: race_ok_def split: if_splits)
    show "finite (counting (cpu ?s))" using ok by (simp add: counting_update race_ok_def)
    show "num_flows (rtable ?s) + word_of_nat (card (counting (cpu ?s))) = word_of_nat (length (linked ?s))"
      using ok cnt unfolding l' len
      by (simp add: counting_update race_ok_def t lk add.assoc [symmetric] add.commute del: length_concat)
  qed
  then show ?thesis using ls(1) by (simp add: t_def k_def b_def at_bucket_def)
qed

lemma race_ok_count:
  assumes ok: "race_ok s" and at: "cpu s i = Linked"
  shows "race_ok (s\<lparr>rtable := (rtable s)\<lparr>num_flows := num_flows (rtable s) + 1\<rparr>,
                    cpu := (cpu s)(i := Finished True)\<rparr>)"
proof -
  have "i \<in> counting (cpu s)" using at by (simp add: counting_def)
  moreover have "finite (counting (cpu s))" using ok by (simp add: race_ok_def)
  ultimately have "card (counting (cpu s)) = Suc (card (counting (cpu s) - {i}))"
    by (metis card_Suc_Diff1)
  then show ?thesis
    using ok at
    by (auto simp: race_ok_def counting_update linked_def algebra_simps split: if_splits)
qed

lemma ins_step_race_ok:
  assumes "kmalloc_ok kmalloc"
  shows "ins_step kmalloc i s s' \<Longrightarrow> race_ok s \<Longrightarrow> race_ok s'"
proof (induction rule: ins_step.induct)
  case (memory s f a)
  then show ?case using assms by (intro race_ok_memory) (auto simp: kmalloc_ok_def)
qed (auto intro: race_ok_move race_ok_link race_ok_count)

lemma ins_steps_race_ok:
  "ins_steps kmalloc s s' \<Longrightarrow> kmalloc_ok kmalloc \<Longrightarrow> race_ok s \<Longrightarrow> race_ok s'"
  by (induction rule: ins_steps.induct) (auto dest: ins_step_race_ok)

lemma table_ok_race_ok:
  assumes "table_ok (rtable s) (rheap s)" and "\<And>i. cpu s i \<noteq> Linked" and "\<And>i f a. cpu s i \<noteq> Allocated f a"
  shows "race_ok s"
proof -
  obtain ls where ls: "lists (rtable s) = Live ls" "lists_ok ls (bits (rtable s)) (rheap s)"
    "num_flows (rtable s) = word_of_nat (length (concat ls))"
    using assms(1) by (rule table_okE)
  have "counting (cpu s) = {}" using assms(2) by (auto simp: counting_def)
  then show ?thesis
    using ls assms(2,3) lists_okD [OF ls(2)]
    by (auto simp: race_ok_def linked_def simp del: set_concat length_concat)
qed

subsection \<open>One processor on its own\<close>

text \<open>The bucket a processor looks into, on a table in good order.\<close>

lemma at_bucket_find:
  assumes "table_ok (rtable s) (rheap s)"
  obtains ls where "lists (rtable s) = Live ls"
    "at_bucket s f = ls ! flow_index (bits (rtable s)) f" "flow_index (bits (rtable s)) f < length ls"
    "find_entry (rheap s) (at_bucket s f) f
     = Inr (find (\<lambda>a. key_at (rheap s) a = flow_key f) (concat ls))"
proof -
  obtain ls where ls: "lists (rtable s) = Live ls" "lists_ok ls (bits (rtable s)) (rheap s)"
    using assms by (rule table_okE)
  show thesis
    using find_bucket [OF ls(2) refl, of f] ls(1) by (intro that [of ls]) (simp_all add: at_bucket_def)
qed

lemma alone_ins_steps: "(ins_step kmalloc i)\<^sup>*\<^sup>* s s' \<Longrightarrow> ins_steps kmalloc s s'"
  by (induction rule: rtranclp_induct) (auto intro: ins_steps.intros)

lemma undisturbed_insert:
  assumes ok: "table_ok t h" and "kmalloc_ok kmalloc"
    and s: "rtable s = t" "rheap s = h" "cpu s i = Start f"
    and result: "insert_table kmalloc (Some t) (Some f) h = Inr (r, Some t', h')"
  shows "(ins_step kmalloc i)\<^sup>*\<^sup>* s (s\<lparr>rtable := t', rheap := h', cpu := (cpu s)(i := Finished r)\<rparr>)"
proof -
  define k where "k = flow_index (bits t) f"
  obtain ls where ls: "lists t = Live ls" "at_bucket s f = ls ! k" "k < length ls"
    "find_entry h (ls ! k) f = Inr (find (\<lambda>a. key_at h a = flow_key f) (concat ls))"
    using at_bucket_find [of s f] ok s(1,2) by (metis k_def)
  have unlocked: "\<not> lock t" using ok by (auto elim: table_okE)
  show ?thesis
  proof (cases "find (\<lambda>a. key_at h a = flow_key f) (concat ls)")
    case (Some b)
    then have "r = False \<and> t' = t \<and> h' = h"
      using result insert_table_old [OF ok, of f kmalloc] ls(1)
      by (auto simp: flows_None_find simp del: set_concat)
    moreover have "ins_step kmalloc i s (s\<lparr>cpu := (cpu s)(i := Finished False)\<rparr>)"
      using Some ls s by (intro ins_step.found) auto
    moreover have "s\<lparr>rtable := t, rheap := h, cpu := (cpu s)(i := Finished False)\<rparr>
        = s\<lparr>cpu := (cpu s)(i := Finished False)\<rparr>"
      using s by simp
    ultimately show ?thesis by (simp add: r_into_rtranclp)
  next
    case None
    define s1 where "s1 = s\<lparr>cpu := (cpu s)(i := Checked f)\<rparr>"
    have one: "ins_step kmalloc i s s1"
      unfolding s1_def using None ls s by (intro ins_step.not_found) auto
    show ?thesis
    proof (cases "kmalloc h")
      case no_mem: None
      then have "r = False \<and> t' = t \<and> h' = h"
        using result insert_table_full [OF ok, of kmalloc f] by simp
      moreover have "ins_step kmalloc i s1 (s1\<lparr>cpu := (cpu s1)(i := Finished False)\<rparr>)"
        using no_mem s by (intro ins_step.no_memory) (auto simp: s1_def)
      moreover have "s\<lparr>rtable := t, rheap := h, cpu := (cpu s)(i := Finished False)\<rparr>
          = s1\<lparr>cpu := (cpu s1)(i := Finished False)\<rparr>"
        using s by (simp add: s1_def)
      ultimately show ?thesis using one by (simp add: converse_rtranclp_into_rtranclp r_into_rtranclp)
    next
      case (Some b)
      define s2 where "s2 = s1\<lparr>rheap := h(b \<mapsto> f), cpu := (cpu s1)(i := Allocated f b)\<rparr>"
      define s3 where "s3 = s2\<lparr>rtable := set_bucket t k (b # ls ! k), cpu := (cpu s2)(i := Linked)\<rparr>"
      define s4 where "s4 = s3\<lparr>rtable := (rtable s3)\<lparr>num_flows := num_flows t + 1\<rparr>, cpu := (cpu s3)(i := Finished True)\<rparr>"
      have two: "ins_step kmalloc i s1 s2"
        using ins_step.memory [of s1 i f kmalloc b] Some s by (simp add: s1_def s2_def)
      have three: "ins_step kmalloc i s2 s3"
        using ins_step.link [of s2 i f b kmalloc] s ls(1,2)
        by (simp add: s1_def s2_def s3_def k_def at_bucket_def)
      have four: "ins_step kmalloc i s3 s4"
        using ins_step.count [of s3 i kmalloc] by (simp add: s3_def s4_def s2_def s1_def set_bucket_def)
      have "(ins_step kmalloc i)\<^sup>*\<^sup>* s s4"
        using one two three four by (meson converse_rtranclp_into_rtranclp r_into_rtranclp)
      moreover have "r \<and> t' = rtable s4 \<and> h' = h(b \<mapsto> f)"
        using result None Some ls(1,3,4) unlocked
        by (auto simp: insert_table_def table_index_ok [OF ok] k_def [symmetric] bucket_def
            spin_lock_irqsave_def spin_unlock_irqrestore_def Let_def s4_def s3_def set_bucket_def
            simp del: set_concat)
      moreover have "s4 = s\<lparr>rtable := rtable s4, rheap := h(b \<mapsto> f), cpu := (cpu s)(i := Finished True)\<rparr>"
        by (simp add: s4_def s3_def s2_def s1_def)
      ultimately show ?thesis by simp
    qed
  qed
qed

lemma double_insert_run:
  assumes ok: "table_ok t h" and new: "flows t h (flow_key f) = None"
    and mem: "kmalloc h = Some a" "kmalloc (h(a \<mapsto> f)) = Some b"
    and ij: "i \<noteq> j" and s: "rtable s = t" "rheap s = h" "cpu s i = Start f" "cpu s j = Start f"
  shows "\<exists>s'. ins_steps kmalloc s s' \<and> cpu s' i = Finished True \<and> cpu s' j = Finished True \<and>
           rheap s' = h(a \<mapsto> f, b \<mapsto> f) \<and> num_flows (rtable s') = num_flows t + 2 \<and>
           a \<in> set (linked s') \<and> b \<in> set (linked s')"
proof -
  define k where "k = flow_index (bits t) f"
  obtain ls where ls: "lists t = Live ls" "at_bucket s f = ls ! k" "k < length ls"
    "find_entry h (ls ! k) f = Inr (find (\<lambda>a. key_at h a = flow_key f) (concat ls))"
    using at_bucket_find [of s f] ok s(1,2) by (metis k_def)
  have none: "find_entry h (ls ! k) f = Inr None"
    using ls(1,4) new by (simp add: flows_None_find)
  define s1 where "s1 = s\<lparr>cpu := (cpu s)(i := Checked f)\<rparr>"
  define s2 where "s2 = s1\<lparr>cpu := (cpu s1)(j := Checked f)\<rparr>"
  define s3 where "s3 = s2\<lparr>rheap := h(a \<mapsto> f), cpu := (cpu s2)(i := Allocated f a)\<rparr>"
  define s4 where "s4 = s3\<lparr>rheap := h(a \<mapsto> f, b \<mapsto> f), cpu := (cpu s3)(j := Allocated f b)\<rparr>"
  define s5 where "s5 = s4\<lparr>rtable := set_bucket t k (a # ls ! k), cpu := (cpu s4)(i := Linked)\<rparr>"
  define s6 where "s6 = s5\<lparr>rtable := set_bucket (rtable s5) k (b # a # ls ! k), cpu := (cpu s5)(j := Linked)\<rparr>"
  define s7 where "s7 = s6\<lparr>rtable := (rtable s6)\<lparr>num_flows := num_flows t + 1\<rparr>, cpu := (cpu s6)(i := Finished True)\<rparr>"
  define s8 where "s8 = s7\<lparr>rtable := (rtable s7)\<lparr>num_flows := num_flows t + 2\<rparr>, cpu := (cpu s7)(j := Finished True)\<rparr>"
  note defs = s1_def s2_def s3_def s4_def s5_def s6_def s7_def s8_def
  have steps: "ins_step kmalloc i s s1" "ins_step kmalloc j s1 s2" "ins_step kmalloc i s2 s3"
    "ins_step kmalloc j s3 s4"
    using ins_step.not_found [of s i f kmalloc] ins_step.not_found [of s1 j f kmalloc]
      ins_step.memory [of s2 i f kmalloc a] ins_step.memory [of s3 j f kmalloc b] ij s mem none ls(2)
    by (simp_all add: s1_def s2_def s3_def s4_def at_bucket_def)
  have link_steps: "ins_step kmalloc i s4 s5" "ins_step kmalloc j s5 s6"
    using ins_step.link [of s4 i f a kmalloc] ins_step.link [of s5 j f b kmalloc] ij s ls(1-3)
    by (simp_all add: defs(1-6) at_bucket_def set_bucket_def k_def)
  have count_steps: "ins_step kmalloc i s6 s7" "ins_step kmalloc j s7 s8"
    using ins_step.count [of s6 i kmalloc] ins_step.count [of s7 j kmalloc] ij s
    by (simp_all add: defs set_bucket_def add.assoc)
  have "ins_steps kmalloc s s8"
    by (rule ins_steps_Cons [OF steps(1)], rule ins_steps_Cons [OF steps(2)],
        rule ins_steps_Cons [OF steps(3)], rule ins_steps_Cons [OF steps(4)],
        rule ins_steps_Cons [OF link_steps(1)], rule ins_steps_Cons [OF link_steps(2)],
        rule ins_steps_Cons [OF count_steps(1)], rule ins_steps_one [OF count_steps(2)])
  moreover have "linked s8 = concat (ls[k := b # a # ls ! k])"
    using ls(1,3) by (simp add: linked_def defs set_bucket_def del: set_concat)
  moreover from this have "set (linked s8) \<supseteq> {a, b}"
    using ls(3) by (auto simp: set_update_memI intro!: bexI [of _ "b # a # ls ! k"])
  ultimately show ?thesis
    using ij by (intro exI [of _ s8]) (simp add: defs)
qed

subsection \<open>Properties\<close>

text \<open>A processor state for the examples: two processors about to insert the same flow.\<close>

definition two_slots :: "heap \<Rightarrow> addr option" where
  "two_slots h = (if h 0 = None then Some 0 else if h 1 = None then Some 1 else None)"

lemma two_slots_ok: "kmalloc_ok two_slots"
  by (auto simp: kmalloc_ok_def two_slots_def)

definition two_inserting :: race where
  "two_inserting = \<lparr>rtable = empty_table, rheap = Map.empty,
     cpu = (\<lambda>i. if i < 2 then Start sample_flow else Finished False)\<rparr>"

text \<open>Two processors that insert the same new flow at once can both succeed: the lock is released
  between the search and the linking, so both searches miss, the flow ends up in the table twice,
  and \<open>num_flows\<close> counts it twice.\<close>

theorem insert_race_duplicates:
  assumes "kmalloc_ok kmalloc" and "table_ok t h" and "flows t h (flow_key f) = None"
    and "kmalloc h = Some a" and "kmalloc (h(a \<mapsto> f)) = Some b"
    and "i \<noteq> j" and "rtable s = t" and "rheap s = h" and "cpu s i = Start f" and "cpu s j = Start f"
  shows "\<exists>s'. ins_steps kmalloc s s' \<and> cpu s' i = Finished True \<and> cpu s' j = Finished True \<and>
           num_flows (rtable s') = num_flows t + 2 \<and> \<not> inj_on (key_at (rheap s')) (set (linked s')) \<and>
           \<not> table_ok (rtable s') (rheap s')"
proof -
  obtain s' where s': "ins_steps kmalloc s s'" "cpu s' i = Finished True" "cpu s' j = Finished True"
    "rheap s' = h(a \<mapsto> f, b \<mapsto> f)" "num_flows (rtable s') = num_flows t + 2"
    "a \<in> set (linked s')" "b \<in> set (linked s')"
    using double_insert_run assms(2-) by (metis (no_types, lifting))
  have "a \<noteq> b" using assms(1,5) unfolding kmalloc_ok_def by (metis fun_upd_same option.distinct(1))
  then have dup: "\<not> inj_on (key_at (rheap s')) (set (linked s'))"
    using s'(4,6,7) by (auto simp: inj_on_def key_at_def)
  moreover from this have "\<not> table_ok (rtable s') (rheap s')"
    by (metis buffer.sel linked_def lists_okD(4) table_okE)
  ultimately show ?thesis using s' by blast
qed

theorem insert_race_duplicates_witness:
  "\<exists>s'. ins_steps two_slots two_inserting s' \<and> cpu s' 0 = Finished True \<and> cpu s' 1 = Finished True \<and>
        num_flows (rtable s') = 2"
  using insert_race_duplicates [OF two_slots_ok empty_table_ok empty_table_flows,
      where a = 0 and b = 1 and i = 0 and j = 1 and s = two_inserting]
  by (auto simp: two_inserting_def two_slots_def empty_table_def)

text \<open>Whatever the interleaving, the table's structure survives: every linked entry is live and in the
  list its hash selects, no entry is linked twice, an entry being inserted belongs to one processor only,
  and once all have finished \<open>num_flows\<close> is the number of linked entries.\<close>

theorem interleaved_inserts_safe:
  assumes "kmalloc_ok kmalloc" and "ins_steps kmalloc s s'"
    and "table_ok (rtable s) (rheap s)" and "\<forall>i. \<exists>f r. cpu s i = Start f \<or> cpu s i = Finished r"
  shows "distinct (linked s') \<and>
    (\<forall>a \<in> set (linked s'). \<exists>e. rheap s' a = Some e \<and> a \<in> set (at_bucket s' e)) \<and>
    (\<forall>i j f g a. cpu s' i = Allocated f a \<and> cpu s' j = Allocated g a \<longrightarrow> i = j) \<and>
    ((\<forall>i. cpu s' i \<noteq> Linked) \<longrightarrow> num_flows (rtable s') = word_of_nat (length (linked s')))"
proof -
  have "race_ok s"
  proof (rule table_ok_race_ok [OF assms(3)])
    show "cpu s i \<noteq> Linked" for i using assms(4) by (metis ins_pc.distinct)
    show "cpu s i \<noteq> Allocated f a" for i f a using assms(4) by (metis ins_pc.distinct)
  qed
  then have ok: "race_ok s'" using assms(1,2) ins_steps_race_ok by blast
  then obtain ls where ls: "lists (rtable s') = Live ls"
    "\<forall>j < length ls. \<forall>a \<in> set (ls ! j). live_in (rheap s') (bits (rtable s')) j a" "distinct (concat ls)"
    by (auto simp: race_ok_def)
  have lk: "linked s' = concat ls" using ls(1) by (simp add: linked_def)
  have "\<exists>e. rheap s' a = Some e \<and> a \<in> set (at_bucket s' e)" if "a \<in> set (concat ls)" for a
    using that ls(1,2) live_in_Some
    by (fastforce simp: in_concat_nth at_bucket_def simp del: set_concat)
  moreover have "counting (cpu s') = {}" if "\<forall>i. cpu s' i \<noteq> Linked"
    using that by (auto simp: counting_def)
  ultimately show ?thesis
    using ok ls(3) unfolding race_ok_def lk by auto
qed

theorem interleaved_inserts_safe_witness:
  "\<exists>s'. ins_steps two_slots two_inserting s' \<and> distinct (linked s')"
proof -
  have ok: "table_ok (rtable two_inserting) (rheap two_inserting)"
    by (simp add: two_inserting_def empty_table_ok)
  have start: "\<forall>i. \<exists>f r. cpu two_inserting i = Start f \<or> cpu two_inserting i = Finished r"
    by (auto simp: two_inserting_def)
  have "distinct (linked two_inserting)"
    using interleaved_inserts_safe [OF two_slots_ok ins_steps.stay ok start] by (rule conjunct1)
  then show ?thesis using ins_steps.stay by blast
qed

text \<open>A processor that is not disturbed by another computes exactly what the sequential model of
  \<open>insert_table\<close> computes, in its result, its table and its heap.\<close>

theorem undisturbed_insert_is_insert_table:
  assumes "table_ok (rtable s) (rheap s)" and "kmalloc_ok kmalloc" and "cpu s i = Start f"
  shows "\<exists>r t' h'. insert_table kmalloc (Some (rtable s)) (Some f) (rheap s) = Inr (r, Some t', h') \<and>
           ins_steps kmalloc s (s\<lparr>rtable := t', rheap := h', cpu := (cpu s)(i := Finished r)\<rparr>)"
proof -
  have "\<exists>r t' h'. insert_table kmalloc (Some (rtable s)) (Some f) (rheap s) = Inr (r, Some t', h')"
    using insert_table_result [OF assms(2,1), of f] by (elim ex_forward conjunct1)
  then obtain r t' h' where r: "insert_table kmalloc (Some (rtable s)) (Some f) (rheap s) = Inr (r, Some t', h')"
    by (elim exE)
  show ?thesis
    using r alone_ins_steps [OF undisturbed_insert [OF assms(1,2) refl refl assms(3) r]] by (intro exI conjI)
qed

theorem undisturbed_insert_is_insert_table_witness:
  "\<exists>r t' h'. insert_table two_slots (Some empty_table) (Some sample_flow) Map.empty = Inr (r, Some t', h')"
  using undisturbed_insert_is_insert_table [OF _ two_slots_ok, of two_inserting 0 sample_flow]
  by (auto simp: two_inserting_def empty_table_ok)

end
