(* ===== verification/Hook_Race.thy ===== *)
theory Hook_Race
  imports Flow_Race Flow_Tracker
begin

text \<open>
  The outgoing hook of \<^verbatim>\<open>flow-tracker/main.c\<close> when several processors send packets at once.  The
  table's functions of \<^verbatim>\<open>flow-tracker/flow_table.c\<close> are cut where another processor can come in between:
  insertion as in \<open>Flow_Race\<close>; deletion into unlinking, freeing and the atomic decrement, the first two
  under the lock; the search, which takes no lock at all, into the two steps that
  \<^verbatim>\<open>hlist_for_each_entry_safe\<close> makes at every node, the load of its \<^verbatim>\<open>next\<close> pointer and the
  comparison; the update of the byte count into its load and its store.  What the lock protects survives
  every interleaving, what the hook does through the pointer that the search returned does not.

  A processor that reads or writes a freed entry, or follows the pointer of an unlinked one, stops as
  \<open>Crashed\<close>.  C says nothing about what the program does from there on: the memory may by then belong to
  anyone, and the store of \<^verbatim>\<open>main.c:80\<close> damage it.  What is proved of the table is therefore proved as long as
  no processor has crashed.  The four fields of the key are read in one step.
\<close>

subsection \<open>The steps\<close>

text \<open>
  Where a processor is in the hook; \<open>f\<close> is the packet's flow, whose \<open>bytes_sent\<close> is the
  packet's length.
\<close>

datatype hook_pc =
    Inserting flow_entry bool ins_pc  \<comment> \<open>SYN: in \<open>insert_table\<close>; the flag is FIN or RST\<close>
  | Deleting flow_entry               \<comment> \<open>FIN or RST: before the critical section of \<open>delete_table\<close>\<close>
  | Unlinked flow_entry addr          \<comment> \<open>after \<open>hlist_del\<close>, holding the lock\<close>
  | Freed flow_entry                  \<comment> \<open>after \<open>kfree\<close> and the unlock, before \<open>atomic_dec\<close>\<close>
  | Searching flow_entry              \<comment> \<open>before the loop of \<open>search_table\<close>\<close>
  | Walking flow_entry "addr option"  \<comment> \<open>in the loop, at a node or at the end\<close>
  | Comparing flow_entry addr "fault + addr option"
      \<comment> \<open>after the load of the node's \<open>next\<close> pointer, before the comparison; \<open>Inl\<close> for a poisoned one\<close>
  | Updating u32 addr                 \<comment> \<open>\<open>entry->bytes_sent += skb->len\<close>, before the load\<close>
  | Loaded u32 addr u32               \<comment> \<open>and before the store\<close>
  | Accepted "flow_entry log_line"
  | Crashed fault

record smp =
  stable :: flow_table
  sheap :: heap
  hpc :: "nat \<Rightarrow> hook_pc"

definition hook_start :: "tcp_hdr \<Rightarrow> flow_entry \<Rightarrow> hook_pc" where
  "hook_start tcph f =
     (if syn tcph then Inserting f (fin tcph \<or> rst tcph) (Start f)
      else if fin tcph \<or> rst tcph then Deleting f else Searching f)"

text \<open>What follows \<open>insert_table\<close>.\<close>

fun after_insert :: "flow_entry \<Rightarrow> bool \<Rightarrow> ins_pc \<Rightarrow> hook_pc" where
  "after_insert f ends (Finished True) = Accepted (Inserted f)"
| "after_insert f ends (Finished False) = (if ends then Deleting f else Searching f)"
| "after_insert f ends p = Inserting f ends p"

text \<open>The two critical sections of \<open>insert_table\<close> start at these points.\<close>

fun takes_lock :: "ins_pc \<Rightarrow> bool" where
  "takes_lock (Start f) = True"
| "takes_lock (Allocated f a) = True"
| "takes_lock p = False"

abbreviation buckets :: "smp \<Rightarrow> addr list list" where
  "buckets s \<equiv> contents (lists (stable s))"

definition bucket_of :: "smp \<Rightarrow> flow_entry \<Rightarrow> addr list" where
  "bucket_of s f = buckets s ! flow_index (bits (stable s)) f"

fun hd_opt :: "'a list \<Rightarrow> 'a option" where
  "hd_opt [] = None"
| "hd_opt (a # l) = Some a"

text \<open>The successor of a node in the list it is on.\<close>

definition succ_in :: "addr list list \<Rightarrow> addr \<Rightarrow> addr option" where
  "succ_in ls a = hd_opt (tl (dropWhile (\<lambda>b. b \<noteq> a) (concat (filter (\<lambda>l. a \<in> set l) ls))))"

text \<open>
  The pointer \<open>obj->hlist.next\<close> of a live node: its successor while it is linked, the poison
  value after \<open>hlist_del\<close>, whose dereference faults, and NULL once \<open>INIT_HLIST_NODE\<close> has run.
\<close>

definition poisoned :: "smp \<Rightarrow> addr \<Rightarrow> bool" where
  "poisoned s a \<longleftrightarrow> (\<exists>i f. hpc s i = Unlinked f a)"

definition next_node :: "smp \<Rightarrow> addr \<Rightarrow> fault + addr option" where
  "next_node s a =
     (if poisoned s a then Inl Protection
      else Inr (if a \<in> set (concat (buckets s)) then succ_in (buckets s) a else None))"

inductive hook_step :: "(heap \<Rightarrow> addr option) \<Rightarrow> nat \<Rightarrow> smp \<Rightarrow> smp \<Rightarrow> bool" for kmalloc i where
  insert: "hpc s i = Inserting f ends p \<Longrightarrow> \<not> (takes_lock p \<and> lock (stable s)) \<Longrightarrow>
     ins_step kmalloc i \<lparr>rtable = stable s, rheap = sheap s, cpu = (\<lambda>_. p)\<rparr> r \<Longrightarrow>
     hook_step kmalloc i s
       \<lparr>stable = rtable r, sheap = rheap r, hpc = (hpc s)(i := after_insert f ends (cpu r i))\<rparr>"
| delete_miss: "hpc s i = Deleting f \<Longrightarrow> \<not> lock (stable s) \<Longrightarrow>
     find_entry (sheap s) (bucket_of s f) f = Inr None \<Longrightarrow>
     hook_step kmalloc i s (s\<lparr>hpc := (hpc s)(i := Searching f)\<rparr>)"
| delete_unlink: "hpc s i = Deleting f \<Longrightarrow> \<not> lock (stable s) \<Longrightarrow>
     find_entry (sheap s) (bucket_of s f) f = Inr (Some a) \<Longrightarrow>
     hook_step kmalloc i s
       (s\<lparr>stable := (set_bucket (stable s) (flow_index (bits (stable s)) f)
                      (remove1 a (bucket_of s f)))\<lparr>lock := True\<rparr>,
          hpc := (hpc s)(i := Unlinked f a)\<rparr>)"
| delete_free: "hpc s i = Unlinked f a \<Longrightarrow> sheap s a = Some e \<Longrightarrow>
     hook_step kmalloc i s
       (s\<lparr>stable := (stable s)\<lparr>lock := False\<rparr>, sheap := (sheap s)(a := None),
          hpc := (hpc s)(i := Freed f)\<rparr>)"
| delete_count: "hpc s i = Freed f \<Longrightarrow>
     hook_step kmalloc i s
       (s\<lparr>stable := (stable s)\<lparr>num_flows := num_flows (stable s) - 1\<rparr>,
          hpc := (hpc s)(i := Accepted (Deleted f))\<rparr>)"
| search_first: "hpc s i = Searching f \<Longrightarrow>
     hook_step kmalloc i s (s\<lparr>hpc := (hpc s)(i := Walking f (hd_opt (bucket_of s f)))\<rparr>)"
| search_end: "hpc s i = Walking f None \<Longrightarrow>
     hook_step kmalloc i s (s\<lparr>hpc := (hpc s)(i := Accepted (No_Entry f))\<rparr>)"
| search_next: "hpc s i = Walking f (Some a) \<Longrightarrow> sheap s a = Some e \<Longrightarrow>
     hook_step kmalloc i s (s\<lparr>hpc := (hpc s)(i := Comparing f a (next_node s a))\<rparr>)"
| search_found: "hpc s i = Comparing f a n \<Longrightarrow> sheap s a = Some e \<Longrightarrow> same_flow e f \<Longrightarrow>
     hook_step kmalloc i s (s\<lparr>hpc := (hpc s)(i := Updating (bytes_sent f) a)\<rparr>)"
| search_differs: "hpc s i = Comparing f a (Inr n) \<Longrightarrow> sheap s a = Some e \<Longrightarrow> \<not> same_flow e f \<Longrightarrow>
     hook_step kmalloc i s (s\<lparr>hpc := (hpc s)(i := Walking f n)\<rparr>)"
| search_poison: "hpc s i = Comparing f a (Inl x) \<Longrightarrow> sheap s a = Some e \<Longrightarrow> \<not> same_flow e f \<Longrightarrow>
     hook_step kmalloc i s (s\<lparr>hpc := (hpc s)(i := Crashed x)\<rparr>)"
| next_freed: "hpc s i = Walking f (Some a) \<Longrightarrow> sheap s a = None \<Longrightarrow>
     hook_step kmalloc i s (s\<lparr>hpc := (hpc s)(i := Crashed Use_After_Free)\<rparr>)"
| compare_freed: "hpc s i = Comparing f a n \<Longrightarrow> sheap s a = None \<Longrightarrow>
     hook_step kmalloc i s (s\<lparr>hpc := (hpc s)(i := Crashed Use_After_Free)\<rparr>)"
| update_load: "hpc s i = Updating n a \<Longrightarrow> sheap s a = Some e \<Longrightarrow>
     hook_step kmalloc i s (s\<lparr>hpc := (hpc s)(i := Loaded n a (bytes_sent e))\<rparr>)"
| update_store: "hpc s i = Loaded n a v \<Longrightarrow> sheap s a = Some e \<Longrightarrow>
     hook_step kmalloc i s
       (s\<lparr>sheap := (sheap s)(a \<mapsto> e\<lparr>bytes_sent := v + n\<rparr>), hpc := (hpc s)(i := Accepted Silent)\<rparr>)"
| load_freed: "hpc s i = Updating n a \<Longrightarrow> sheap s a = None \<Longrightarrow>
     hook_step kmalloc i s (s\<lparr>hpc := (hpc s)(i := Crashed Use_After_Free)\<rparr>)"
| store_freed: "hpc s i = Loaded n a v \<Longrightarrow> sheap s a = None \<Longrightarrow>
     hook_step kmalloc i s (s\<lparr>hpc := (hpc s)(i := Crashed Use_After_Free)\<rparr>)"

inductive hook_steps :: "(heap \<Rightarrow> addr option) \<Rightarrow> smp \<Rightarrow> smp \<Rightarrow> bool" for kmalloc where
  stay: "hook_steps kmalloc s s"
| more: "hook_steps kmalloc s s' \<Longrightarrow> hook_step kmalloc i s' s'' \<Longrightarrow> hook_steps kmalloc s s''"

lemma hook_steps_Cons:
  "hook_step kmalloc i s s' \<Longrightarrow> hook_steps kmalloc s' s'' \<Longrightarrow> hook_steps kmalloc s s''"
  by (rotate_tac 1, induction rule: hook_steps.induct) (auto intro: hook_steps.intros)

lemma hook_steps_trans:
  "hook_steps kmalloc s s' \<Longrightarrow> hook_steps kmalloc s' s'' \<Longrightarrow> hook_steps kmalloc s s''"
  by (induction rule: hook_steps.induct) (auto intro: hook_steps_Cons)

lemma hook_steps_one: "hook_step kmalloc i s s' \<Longrightarrow> hook_steps kmalloc s s'"
  by (rule hook_steps.more [OF hook_steps.stay])

subsection \<open>What survives any interleaving\<close>

fun ins_of :: "hook_pc \<Rightarrow> ins_pc" where
  "ins_of (Inserting f ends p) = p"
| "ins_of p = Finished False"

text \<open>The processors that have unlinked an entry and not yet decremented \<open>num_flows\<close>.\<close>

fun uncounts :: "hook_pc \<Rightarrow> bool" where
  "uncounts (Unlinked f a) = True"
| "uncounts (Freed f) = True"
| "uncounts p = False"

definition uncounting :: "smp \<Rightarrow> nat set" where
  "uncounting s = {i. uncounts (hpc s i)}"

text \<open>The insertions of a state on their own, as a state of \<open>Flow_Race\<close>.\<close>

definition inserts :: "smp \<Rightarrow> race" where
  "inserts s =
     \<lparr>rtable = (stable s)\<lparr>num_flows := num_flows (stable s) - word_of_nat (card (uncounting s))\<rparr>,
      rheap = sheap s, cpu = (\<lambda>i. ins_of (hpc s i))\<rparr>"

definition owned :: "smp \<Rightarrow> addr set" where
  "owned s = {a. (\<exists>i f ends g. hpc s i = Inserting f ends (Allocated g a)) \<or> poisoned s a}"

text \<open>The discipline of the lock and of the entries that a deletion has unlinked.\<close>

definition lock_ok :: "smp \<Rightarrow> bool" where
  "lock_ok s \<longleftrightarrow>
     (\<forall>i f a. hpc s i = Unlinked f a \<longrightarrow> lock (stable s) \<and> sheap s a \<noteq> None \<and>
        a \<notin> set (concat (buckets s)) \<and> (\<forall>j f ends g. hpc s j \<noteq> Inserting f ends (Allocated g a))) \<and>
     (\<forall>i j f g a b. hpc s i = Unlinked f a \<and> hpc s j = Unlinked g b \<longrightarrow> i = j) \<and>
     (lock (stable s) \<longrightarrow> (\<exists>i f a. hpc s i = Unlinked f a))"

definition smp_ok :: "smp \<Rightarrow> bool" where
  "smp_ok s \<longleftrightarrow> race_ok (inserts s) \<and> finite (uncounting s) \<and> lock_ok s \<and>
     dom (sheap s) = set (concat (buckets s)) \<union> owned s"

lemma race_ok_cong:
  "lists (rtable r) = lists (rtable r') \<Longrightarrow> bits (rtable r) = bits (rtable r') \<Longrightarrow>
   num_flows (rtable r) = num_flows (rtable r') \<Longrightarrow> rheap r = rheap r' \<Longrightarrow> cpu r = cpu r' \<Longrightarrow>
   race_ok r \<longleftrightarrow> race_ok r'"
  by (simp add: race_ok_def linked_def)

text \<open>A processor at a point where it owns no entry and owes no count.\<close>

fun quiet :: "hook_pc \<Rightarrow> bool" where
  "quiet (Inserting f ends Linked) = False"
| "quiet (Inserting f ends (Allocated g a)) = False"
| "quiet (Unlinked f a) = False"
| "quiet (Freed f) = False"
| "quiet p = True"

lemma quietD:
  assumes "quiet p"
  shows "ins_of p \<noteq> Linked" "ins_of p \<noteq> Allocated g a" "\<not> uncounts p" "p \<noteq> Unlinked f a" "p \<noteq> Freed f"
    "p \<noteq> Inserting f ends (Allocated g a)" "p \<noteq> Inserting f ends Linked"
  using assms by (induction p rule: quiet.induct) auto

lemma inserts_update:
  "inserts (s\<lparr>hpc := (hpc s)(i := p)\<rparr>) =
     (inserts s)\<lparr>rtable := (stable s)\<lparr>num_flows := num_flows (stable s)
          - word_of_nat (card (if uncounts p then insert i (uncounting s) else uncounting s - {i}))\<rparr>,
        cpu := (cpu (inserts s))(i := ins_of p)\<rparr>"
proof -
  have "uncounting (s\<lparr>hpc := (hpc s)(i := p)\<rparr>)
      = (if uncounts p then insert i (uncounting s) else uncounting s - {i})"
    by (auto simp: uncounting_def)
  then show ?thesis by (simp add: inserts_def fun_eq_iff)
qed

lemma uncounting_iff: "i \<in> uncounting s \<longleftrightarrow> uncounts (hpc s i)"
  by (simp add: uncounting_def)

lemma smp_ok_quiet:
  assumes "smp_ok s" and "quiet (hpc s i)" and "quiet p"
  shows "smp_ok (s\<lparr>hpc := (hpc s)(i := p)\<rparr>)"
proof -
  let ?s = "s\<lparr>hpc := (hpc s)(i := p)\<rparr>"
  note q = quietD [OF assms(2)] quietD [OF assms(3)]
  have "race_ok ((inserts s)\<lparr>cpu := (cpu (inserts s))(i := ins_of p)\<rparr>)"
    using assms(1) q by (intro race_ok_move) (auto simp: smp_ok_def inserts_def)
  moreover have "uncounting s - {i} = uncounting s" using q by (auto simp: uncounting_iff)
  ultimately have "race_ok (inserts ?s)"
    using q by (simp add: inserts_update) (simp add: inserts_def)
  moreover have un: "uncounting ?s = uncounting s" using q by (auto simp: uncounting_def)
  moreover have po: "poisoned ?s a = poisoned s a" for a
    using q unfolding poisoned_def by (auto split: if_splits) metis
  moreover have "owned ?s = owned s"
    using q unfolding owned_def po by (auto split: if_splits) metis
  moreover have "lock_ok ?s"
    using assms(1) q unfolding smp_ok_def lock_ok_def by (auto split: if_splits) metis
  ultimately show ?thesis using assms(1) by (simp add: smp_ok_def)
qed

lemma set_bucket_num_flows:
  "set_bucket (t\<lparr>num_flows := n\<rparr>) k l = (set_bucket t k l)\<lparr>num_flows := n\<rparr>"
  "num_flows (set_bucket t k l) = num_flows t"
  by (simp_all add: set_bucket_def)

text \<open>The steps of an insertion, seen in \<open>inserts\<close>.\<close>

definition adjusted :: "u32 \<Rightarrow> (nat \<Rightarrow> ins_pc) \<Rightarrow> race \<Rightarrow> race" where
  "adjusted d c r =
     \<lparr>rtable = (rtable r)\<lparr>num_flows := num_flows (rtable r) - d\<rparr>, rheap = rheap r, cpu = c\<rparr>"

lemma ins_step_adjusted:
  assumes "ins_step kmalloc i r r'" and "c i = cpu r i"
  shows "ins_step kmalloc i (adjusted d c r) (adjusted d (c(i := cpu r' i)) r')"
proof -
  have b: "at_bucket (adjusted d c r) f = at_bucket r f" for f by (simp add: at_bucket_def adjusted_def)
  show ?thesis
    using assms(1)
  proof cases
    case (found f a)
    then show ?thesis using ins_step.found [of "adjusted d c r" i f a kmalloc] assms(2)
      by (simp add: b) (simp add: adjusted_def)
  next
    case (not_found f)
    then show ?thesis using ins_step.not_found [of "adjusted d c r" i f kmalloc] assms(2)
      by (simp add: b) (simp add: adjusted_def)
  next
    case (no_memory f)
    then show ?thesis using ins_step.no_memory [of "adjusted d c r" i f kmalloc] assms(2)
      by (simp add: adjusted_def)
  next
    case (memory f a)
    then show ?thesis using ins_step.memory [of "adjusted d c r" i f kmalloc a] assms(2)
      by (simp add: adjusted_def)
  next
    case (link f a)
    then show ?thesis using ins_step.link [of "adjusted d c r" i f a kmalloc] assms(2)
      by (simp add: b) (simp add: adjusted_def set_bucket_num_flows)
  next
    case count
    then show ?thesis using ins_step.count [of "adjusted d c r" i kmalloc] assms(2)
      by (simp add: adjusted_def algebra_simps)
  qed
qed

lemma ins_of_after_insert:
  "ins_of (after_insert f ends p) = (case p of Finished b \<Rightarrow> Finished False | _ \<Rightarrow> p)"
  by (cases "(f, ends, p)" rule: after_insert.cases) auto

lemma race_ok_after:
  assumes "race_ok r"
  shows "race_ok (r\<lparr>cpu := (cpu r)(i := ins_of (after_insert f ends (cpu r i)))\<rparr>)"
proof (cases "cpu r i")
  case (Finished b)
  then show ?thesis
    using assms race_ok_move [of r i "Finished False"] by (simp add: ins_of_after_insert)
qed (use assms in \<open>simp_all add: ins_of_after_insert fun_upd_idem\<close>)

lemma after_insert_simps:
  "\<not> uncounts (after_insert f ends p)" "after_insert f ends p \<noteq> Unlinked g a"
  "after_insert f ends p = Inserting f' ends' (Allocated g a) \<longleftrightarrow> f' = f \<and> ends' = ends \<and> p = Allocated g a"
  by (cases "(f, ends, p)" rule: after_insert.cases; auto)+

lemma inserts_insert:
  assumes k: "kmalloc_ok kmalloc" and ok: "smp_ok s" and at: "hpc s i = Inserting f ends p"
    and st: "ins_step kmalloc i \<lparr>rtable = stable s, rheap = sheap s, cpu = (\<lambda>_. p)\<rparr> r"
  defines "s' \<equiv> \<lparr>stable = rtable r, sheap = rheap r, hpc = (hpc s)(i := after_insert f ends (cpu r i))\<rparr>"
  shows "race_ok (inserts s')" and "uncounting s' = uncounting s" and "poisoned s' a \<longleftrightarrow> poisoned s a"
proof -
  show un: "uncounting s' = uncounting s"
    using at by (auto simp: uncounting_def s'_def after_insert_simps)
  show "poisoned s' a \<longleftrightarrow> poisoned s a"
    using at unfolding poisoned_def s'_def by (simp add: after_insert_simps) (metis hook_pc.distinct(3))
  define d where "d = (word_of_nat (card (uncounting s)) :: u32)"
  let ?c = "\<lambda>j. ins_of (hpc s j)"
  define q where "q = adjusted d (?c(i := cpu r i)) r"
  have "ins_step kmalloc i (adjusted d ?c \<lparr>rtable = stable s, rheap = sheap s, cpu = (\<lambda>_. p)\<rparr>) q"
    unfolding q_def using st at by (intro ins_step_adjusted) simp_all
  moreover have "adjusted d ?c \<lparr>rtable = stable s, rheap = sheap s, cpu = (\<lambda>_. p)\<rparr> = inserts s"
    by (simp add: adjusted_def inserts_def d_def)
  ultimately have "race_ok q"
    using ins_step_race_ok [OF k] ok by (simp add: smp_ok_def)
  from race_ok_after [OF this, of i f ends] have "race_ok (adjusted d (?c(i := ins_of (after_insert f ends (cpu r i)))) r)"
    by (simp add: q_def adjusted_def)
  moreover have "inserts s' = adjusted d (?c(i := ins_of (after_insert f ends (cpu r i)))) r"
    using un by (simp add: inserts_def adjusted_def d_def s'_def fun_eq_iff)
  ultimately show "race_ok (inserts s')" by simp
qed

lemma lock_ok_frame:
  assumes "lock_ok s" and "\<And>j g a. hpc s' j = Unlinked g a \<longleftrightarrow> hpc s j = Unlinked g a"
    and "lock (stable s') = lock (stable s)"
    and "\<And>j g a. hpc s j = Unlinked g a \<Longrightarrow> sheap s' a \<noteq> None \<and> a \<notin> set (concat (buckets s')) \<and>
           (\<forall>j f ends g. hpc s' j \<noteq> Inserting f ends (Allocated g a))"
  shows "lock_ok s'"
  using assms unfolding lock_ok_def by (simp del: set_concat)

lemma lock_okD:
  "lock_ok s \<Longrightarrow> hpc s j = Unlinked g a \<Longrightarrow>
   lock (stable s) \<and> sheap s a \<noteq> None \<and> a \<notin> set (concat (buckets s)) \<and>
   hpc s i \<noteq> Inserting f ends (Allocated h a)"
  unfolding lock_ok_def by blast

text \<open>The steps of an insertion: most of them leave the lists and the heap alone; one takes memory, one links it.\<close>

abbreviation inserted :: "smp \<Rightarrow> nat \<Rightarrow> flow_entry \<Rightarrow> bool \<Rightarrow> race \<Rightarrow> smp" where
  "inserted s i f ends r \<equiv>
     \<lparr>stable = rtable r, sheap = rheap r, hpc = (hpc s)(i := after_insert f ends (cpu r i))\<rparr>"

lemma owned_inserted:
  assumes "\<And>a. poisoned (inserted s i f ends r) a \<longleftrightarrow> poisoned s a"
  shows "owned (inserted s i f ends r) = {a. (\<exists>j g e h. j \<noteq> i \<and> hpc s j = Inserting g e (Allocated h a)) \<or>
      (\<exists>g. cpu r i = Allocated g a) \<or> poisoned s a}"
  unfolding owned_def assms by (auto simp: after_insert_simps split: if_splits)

lemma unlinked_inserted:
  "hpc s i = Inserting f ends p \<Longrightarrow> hpc (inserted s i f ends r) j = Unlinked g a \<longleftrightarrow> hpc s j = Unlinked g a"
  by (auto simp: after_insert_simps)

lemma insert_plain:
  assumes lk: "lock_ok s" and at: "hpc s i = Inserting f ends p"
    and pois: "\<And>a. poisoned (inserted s i f ends r) a \<longleftrightarrow> poisoned s a"
    and same: "lists (rtable r) = lists (stable s)" "lock (rtable r) = lock (stable s)" "rheap r = sheap s"
    and no: "\<And>g a. p \<noteq> Allocated g a" "\<And>g a. cpu r i \<noteq> Allocated g a"
  shows "lock_ok (inserted s i f ends r)" and "owned (inserted s i f ends r) = owned s"
proof -
  have "(\<exists>j f' e h. j \<noteq> i \<and> hpc s j = Inserting f' e (Allocated h b)) \<longleftrightarrow>
      (\<exists>j f' e h. hpc s j = Inserting f' e (Allocated h b))" for b
    using at no(1) by (metis hook_pc.inject(1))
  then show "owned (inserted s i f ends r) = owned s"
    unfolding owned_inserted [OF pois] owned_def [of s] using no(2) by simp
  show "lock_ok (inserted s i f ends r)"
    using lock_okD [OF lk] same no
    by (intro lock_ok_frame [OF lk unlinked_inserted [OF at]])
      (auto simp: after_insert_simps simp del: set_concat split: if_splits)
qed

lemma insert_link:
  assumes ok: "smp_ok s" and at: "hpc s i = Inserting f ends (Allocated g a)"
    and pois: "\<And>a. poisoned (inserted s i f ends r) a \<longleftrightarrow> poisoned s a"
    and r: "rtable r = set_bucket (stable s) (flow_index (bits (stable s)) g) (a # bucket_of s g)"
      "rheap r = sheap s" "cpu r i = Linked"
  shows "lock_ok (inserted s i f ends r)"
    and "dom (sheap (inserted s i f ends r)) = set (concat (buckets (inserted s i f ends r))) \<union> owned (inserted s i f ends r)"
proof -
  let ?s = "inserted s i f ends r"
  have lk: "lock_ok s" and dom: "dom (sheap s) = set (concat (buckets s)) \<union> owned s" and race: "race_ok (inserts s)"
    using ok by (auto simp: smp_ok_def)
  define k where "k = flow_index (bits (stable s)) g"
  have k: "k < length (buckets s)"
    using race flow_index_less by (auto simp: race_ok_def inserts_def k_def)
  have alone: "j = i" if "hpc s j = Inserting f' e' (Allocated h a)" for j f' e' h
  proof -
    have "cpu (inserts s) j = Allocated h a" "cpu (inserts s) i = Allocated g a"
      using that at by (simp_all add: inserts_def)
    then show ?thesis using race unfolding race_ok_def by blast
  qed
  have notp: "\<not> poisoned s a" using lk at unfolding lock_ok_def poisoned_def by blast
  have "buckets ?s = (buckets s)[k := a # buckets s ! k]"
    unfolding r by (simp add: r set_bucket_def bucket_of_def k_def)
  then have "mset (concat (buckets ?s)) = add_mset a (mset (concat (buckets s)))"
    using k by (simp only: mset_concat_cons)
  then have set': "set (concat (buckets ?s)) = insert a (set (concat (buckets s)))"
    by (metis set_mset_add_mset_insert set_mset_mset)
  have others: "(\<exists>j f' e h. j \<noteq> i \<and> hpc s j = Inserting f' e (Allocated h b)) \<longleftrightarrow>
      b \<noteq> a \<and> (\<exists>j f' e h. hpc s j = Inserting f' e (Allocated h b))" for b
    using at alone by (metis hook_pc.inject(1) ins_pc.inject(3))
  have "owned ?s = {b. b \<noteq> a \<and> (\<exists>j f' e h. hpc s j = Inserting f' e (Allocated h b)) \<or> poisoned s b}"
    unfolding owned_inserted [OF pois] others by (simp add: r)
  then have "owned s = insert a (owned ?s)" using at unfolding owned_def [of s] by blast
  then show "dom (sheap ?s) = set (concat (buckets ?s)) \<union> owned ?s"
    using dom unfolding set' by (simp add: r del: set_concat)
  show "lock_ok ?s"
  proof (rule lock_ok_frame [OF lk unlinked_inserted [OF at]])
    show "lock (stable ?s) = lock (stable s)" by (simp add: r set_bucket_def)
    show "sheap ?s b \<noteq> None \<and> b \<notin> set (concat (buckets ?s)) \<and>
        (\<forall>j f ends g. hpc ?s j \<noteq> Inserting f ends (Allocated g b))" if "hpc s j = Unlinked h b" for j h b
      using lock_okD [OF lk that] notp that unfolding set' poisoned_def
      by (auto simp: r after_insert_simps simp del: set_concat)
  qed
qed

lemma smp_ok_insert:
  assumes k: "kmalloc_ok kmalloc" and ok: "smp_ok s" and at: "hpc s i = Inserting f ends p"
    and st: "ins_step kmalloc i \<lparr>rtable = stable s, rheap = sheap s, cpu = (\<lambda>_. p)\<rparr> r"
  shows "smp_ok (inserted s i f ends r)" (is "smp_ok ?s")
proof -
  note ins = inserts_insert [OF k ok at st]
  have lk: "lock_ok s" and dom: "dom (sheap s) = set (concat (buckets s)) \<union> owned s"
    using ok by (auto simp: smp_ok_def)
  have plain: "lock_ok ?s \<and> dom (sheap ?s) = set (concat (buckets ?s)) \<union> owned ?s"
    if same: "lists (rtable r) = lists (stable s)" "lock (rtable r) = lock (stable s)" "rheap r = sheap s"
      and no: "\<And>g a. p \<noteq> Allocated g a" "\<And>g a. cpu r i \<noteq> Allocated g a"
    using insert_plain [OF lk at ins(3) same no] dom same by simp
  have "lock_ok ?s \<and> dom (sheap ?s) = set (concat (buckets ?s)) \<union> owned ?s"
    using st
  proof cases
    case (memory g a)
    then have new: "sheap s a = None" using k by (auto simp: kmalloc_ok_def)
    have "hpc s j \<noteq> Unlinked h a" for j h using lock_okD [OF lk] new by blast
    then have "lock_ok ?s"
      using lock_okD [OF lk] memory
      by (intro lock_ok_frame [OF lk unlinked_inserted [OF at]])
        (auto simp: after_insert_simps simp del: set_concat split: if_splits)
    moreover have "hpc s j \<noteq> Inserting f' e (Allocated h b) \<or> j \<noteq> i" for j f' e h b
      using memory at by auto
    then have "owned ?s = insert a (owned s)"
      using memory unfolding owned_inserted [OF ins(3)] owned_def [of s] by auto blast
    ultimately show ?thesis using memory dom by (simp del: set_concat)
  next
    case (link g a)
    then have "hpc s i = Inserting f ends (Allocated g a)" using at by simp
    moreover have "rtable r = set_bucket (stable s) (flow_index (bits (stable s)) g) (a # bucket_of s g)"
      "rheap r = sheap s" "cpu r i = Linked"
      using link by (simp_all add: at_bucket_def bucket_of_def)
    ultimately show ?thesis using insert_link [OF ok _ ins(3)] by blast
  qed (rule plain; simp)+
  then show ?thesis
    using ins ok by (simp add: smp_ok_def)
qed

lemma allocating_frame:
  "(\<And>f ends g. hpc s i \<noteq> Inserting f ends (Allocated g a)) \<Longrightarrow>
   (\<And>f ends g. p \<noteq> Inserting f ends (Allocated g a)) \<Longrightarrow>
   (\<exists>j f ends g. ((hpc s)(i := p)) j = Inserting f ends (Allocated g a)) \<longleftrightarrow>
   (\<exists>j f ends g. hpc s j = Inserting f ends (Allocated g a))"
  by (metis fun_upd_apply)

text \<open>The steps of a deletion.\<close>

lemma race_ok_unlink:
  assumes ok: "race_ok r" and k: "k < length (contents (lists (rtable r)))"
    and a: "a \<in> set (contents (lists (rtable r)) ! k)"
  defines "t \<equiv> set_bucket (rtable r) k (remove1 a (contents (lists (rtable r)) ! k))"
  shows "race_ok (r\<lparr>rtable := t\<lparr>num_flows := num_flows (rtable r) - 1\<rparr>\<rparr>)"
    and "set (concat (contents (lists t))) = set (concat (contents (lists (rtable r)))) - {a}"
proof -
  define b where "b = bits (rtable r)"
  obtain ls where ls: "lists (rtable r) = Live ls" "unat b \<le> 16" "length ls = 2 ^ unat b"
    "\<And>j a. j < length ls \<Longrightarrow> a \<in> set (ls ! j) \<Longrightarrow> live_in (rheap r) b j a" "distinct (concat ls)"
    using ok by (auto simp: race_ok_def b_def)
  let ?ls = "ls[k := remove1 a (ls ! k)]"
  have t: "lists t = Live ?ls" "bits t = b" using ls(1) by (simp_all add: t_def set_bucket_def b_def)
  have ms: "add_mset a (mset (concat ?ls)) = mset (concat ls)"
    using mset_concat_remove1 [of k ls a] k a ls(1) by simp
  then have dist: "distinct (a # concat ?ls)"
    using ls(5) by (metis mset.simps(2) mset_eq_imp_distinct_iff)
  have "set (concat ls) = insert a (set (concat ?ls))"
    using ms by (metis set_mset_add_mset_insert set_mset_mset)
  then have set': "set (concat ?ls) = set (concat ls) - {a}"
    using dist by (simp only: distinct.simps) blast
  then show "set (concat (contents (lists t))) = set (concat (contents (lists (rtable r)))) - {a}"
    using t ls(1) by (simp del: set_concat)
  have len: "Suc (length (concat ?ls)) = length (concat ls)"
    using arg_cong [OF ms, of size] by simp
  have live: "live_in (rheap r) b j c" if "j < length ?ls" "c \<in> set (?ls ! j)" for j c
    using that ls(4) by (cases "j = k") (auto dest: set_remove1_subset [THEN subsetD])
  show "race_ok (r\<lparr>rtable := t\<lparr>num_flows := num_flows (rtable r) - 1\<rparr>\<rparr>)"
    unfolding race_ok_def
  proof (intro conjI)
    let ?r = "r\<lparr>rtable := t\<lparr>num_flows := num_flows (rtable r) - 1\<rparr>\<rparr>"
    have l': "linked ?r = concat ?ls" and l: "linked r = concat ls"
      using t ls(1) by (simp_all add: linked_def)
    show "\<exists>ls. lists (rtable ?r) = Live ls \<and> unat (bits (rtable ?r)) \<le> 16 \<and>
        length ls = 2 ^ unat (bits (rtable ?r)) \<and>
        (\<forall>j < length ls. \<forall>a \<in> set (ls ! j). live_in (rheap ?r) (bits (rtable ?r)) j a) \<and> distinct (concat ls)"
      using t ls(2,3) live dist by (intro exI [of _ ?ls]) simp
    show "\<forall>j g c. cpu ?r j = Allocated g c \<longrightarrow> c \<notin> set (linked ?r) \<and>
        (\<exists>e. rheap ?r c = Some e \<and> flow_key e = flow_key g)"
      using ok unfolding l' set' by (simp add: race_ok_def l del: set_concat)
    have "word_of_nat (length (concat ls)) = (word_of_nat (length (concat ?ls)) + 1 :: u32)"
      unfolding len [symmetric] by simp
    then show "num_flows (rtable ?r) + word_of_nat (card (counting (cpu ?r))) = word_of_nat (length (linked ?r))"
      using ok unfolding l' by (simp add: race_ok_def l algebra_simps del: length_concat)
  qed (use ok in \<open>auto simp: race_ok_def\<close>)
qed

lemma smp_ok_bucket:
  assumes "smp_ok s"
  shows "flow_index (bits (stable s)) f < length (buckets s)"
    and "find_entry (sheap s) (bucket_of s f) f = Inr (find (\<lambda>a. key_at (sheap s) a = flow_key f) (bucket_of s f))"
proof -
  have ok: "race_ok (inserts s)" using assms by (simp add: smp_ok_def)
  then show k: "flow_index (bits (stable s)) f < length (buckets s)"
    using flow_index_less by (auto simp: race_ok_def inserts_def)
  then have "\<forall>a \<in> set (bucket_of s f). sheap s a \<noteq> None"
    using ok live_in_Some unfolding race_ok_def inserts_def bucket_of_def by fastforce
  then show "find_entry (sheap s) (bucket_of s f) f = Inr (find (\<lambda>a. key_at (sheap s) a = flow_key f) (bucket_of s f))"
    by (rule find_entry_find)
qed

lemma smp_ok_unlink:
  assumes ok: "smp_ok s" and at: "hpc s i = Deleting f" and free: "\<not> lock (stable s)"
    and found: "find_entry (sheap s) (bucket_of s f) f = Inr (Some a)"
  shows "smp_ok (s\<lparr>stable := (set_bucket (stable s) (flow_index (bits (stable s)) f)
                      (remove1 a (bucket_of s f)))\<lparr>lock := True\<rparr>,
          hpc := (hpc s)(i := Unlinked f a)\<rparr>)" (is "smp_ok ?s")
proof -
  define k where "k = flow_index (bits (stable s)) f"
  have r: "race_ok (inserts s)" and lk: "lock_ok s" and fin: "finite (uncounting s)"
    and dom: "dom (sheap s) = set (concat (buckets s)) \<union> owned s"
    using ok by (auto simp: smp_ok_def)
  have k: "k < length (buckets s)" using smp_ok_bucket(1) [OF ok] by (simp add: k_def)
  have a: "a \<in> set (buckets s ! k)"
    using found smp_ok_bucket(2) [OF ok, of f]
    by (simp add: bucket_of_def k_def) (metis find_SomeD)
  note un = race_ok_unlink [OF r, of k a]
  have i: "i \<notin> uncounting s" using at by (simp add: uncounting_def)
  have un': "uncounting ?s = insert i (uncounting s)" by (auto simp: uncounting_def)
  have set': "set (concat (buckets ?s)) = set (concat (buckets s)) - {a}"
    using un(2) k a by (simp add: inserts_def set_bucket_def bucket_of_def k_def del: set_concat)
  have a': "a \<in> set (concat (buckets s))" using a k by (simp only: in_concat_nth) blast
  have "race_ok (inserts ?s)"
    using un(1) k a fin i un' at
    by (subst race_ok_cong [where r' = "(inserts s)\<lparr>rtable := (set_bucket (rtable (inserts s)) k
          (remove1 a (contents (lists (rtable (inserts s))) ! k)))\<lparr>num_flows := num_flows (rtable (inserts s)) - 1\<rparr>\<rparr>"])
      (auto simp: inserts_def bucket_of_def k_def set_bucket_def fun_eq_iff)
  moreover have none: "hpc s j \<noteq> Unlinked g b" for j g b using lk free unfolding lock_ok_def by blast
  moreover have noalloc: "hpc s j \<noteq> Inserting g e (Allocated h a)" for j g e h
  proof
    assume "hpc s j = Inserting g e (Allocated h a)"
    then have "cpu (inserts s) j = Allocated h a" by (simp add: inserts_def)
    then show False using r a' unfolding race_ok_def linked_def by (simp add: inserts_def del: set_concat)
  qed
  ultimately have "lock_ok ?s"
    using a' dom unfolding lock_ok_def set' by (auto simp: at simp del: set_concat split: if_splits)
  moreover have "owned ?s = insert a (owned s)"
  proof -
    have "poisoned ?s b \<longleftrightarrow> b = a" "\<not> poisoned s b" for b using none by (auto simp: poisoned_def)
    moreover have "(\<exists>j f e g. hpc ?s j = Inserting f e (Allocated g b)) \<longleftrightarrow>
        (\<exists>j f e g. hpc s j = Inserting f e (Allocated g b))" for b
      using allocating_frame [of s i b "Unlinked f a"] at by simp
    ultimately show ?thesis unfolding owned_def by blast
  qed
  moreover have "dom (sheap ?s) = set (concat (buckets ?s)) \<union> insert a (owned s)"
    using dom a' unfolding set' by (auto simp del: set_concat)
  ultimately show ?thesis
    using \<open>race_ok (inserts ?s)\<close> fin un' by (simp add: smp_ok_def del: set_concat)
qed

text \<open>A change of the heap that leaves the keys of the linked and the new entries alone.\<close>

lemma race_ok_heap:
  assumes "race_ok r" and "\<And>a e. rheap r a = Some e \<Longrightarrow> a \<in> set (linked r) \<or> (\<exists>i f. cpu r i = Allocated f a) \<Longrightarrow>
      \<exists>e'. h a = Some e' \<and> flow_key e' = flow_key e"
  shows "race_ok (r\<lparr>rheap := h\<rparr>)"
proof -
  obtain ls where ls: "lists (rtable r) = Live ls"
    "\<And>j a. j < length ls \<Longrightarrow> a \<in> set (ls ! j) \<Longrightarrow> live_in (rheap r) (bits (rtable r)) j a"
    using assms(1) by (auto simp: race_ok_def)
  have "live_in h (bits (rtable r)) j a" if "j < length ls" "a \<in> set (ls ! j)" for j a
  proof -
    have "a \<in> set (linked r)" using that by (simp only: linked_def ls(1) buffer.sel in_concat_nth) blast
    moreover have "\<exists>e. rheap r a = Some e \<and> flow_index (bits (rtable r)) e = j"
      using live_in_Some [OF ls(2) [OF that]] .
    ultimately obtain e e' where "flow_index (bits (rtable r)) e = j" "h a = Some e'" "flow_key e' = flow_key e"
      using assms(2) by blast
    then show ?thesis using flow_index_key [of e' e] by (simp add: live_in_def)
  qed
  moreover have "\<exists>e. h a = Some e \<and> flow_key e = flow_key f" if "cpu r i = Allocated f a" for i f a
    using assms that unfolding race_ok_def by metis
  ultimately show ?thesis
    using assms(1) ls(1) by (simp add: race_ok_def)
qed

lemma smp_ok_free:
  assumes ok: "smp_ok s" and at: "hpc s i = Unlinked f a"
  shows "smp_ok (s\<lparr>stable := (stable s)\<lparr>lock := False\<rparr>, sheap := (sheap s)(a := None),
          hpc := (hpc s)(i := Freed f)\<rparr>)" (is "smp_ok ?s")
proof -
  have r: "race_ok (inserts s)" and lk: "lock_ok s" and fin: "finite (uncounting s)"
    and dom: "dom (sheap s) = set (concat (buckets s)) \<union> owned s"
    using ok by (auto simp: smp_ok_def)
  note a = lock_okD [OF lk at]
  have only: "hpc s j = Unlinked g b \<longleftrightarrow> j = i \<and> g = f \<and> b = a" for j g b
    using lk at unfolding lock_ok_def by (metis hook_pc.inject(3))
  have un: "uncounting ?s = uncounting s" using at by (auto simp: uncounting_def)
  have "race_ok ((inserts s)\<lparr>rheap := (sheap s)(a := None)\<rparr>)"
  proof (rule race_ok_heap [OF r])
    fix b e assume b: "rheap (inserts s) b = Some e"
      "b \<in> set (linked (inserts s)) \<or> (\<exists>j g. cpu (inserts s) j = Allocated g b)"
    have "cpu (inserts s) j \<noteq> Allocated g a" for j g
      using a by (cases "hpc s j") (auto simp: inserts_def)
    then have "b \<noteq> a"
      using a b(2) by (auto simp: inserts_def linked_def simp del: set_concat)
    then show "\<exists>e'. ((sheap s)(a := None)) b = Some e' \<and> flow_key e' = flow_key e"
      using b(1) by (simp add: inserts_def)
  qed
  then have "race_ok (inserts ?s)"
    using un at
    by (subst race_ok_cong [where r' = "(inserts s)\<lparr>rheap := (sheap s)(a := None)\<rparr>"])
      (auto simp: inserts_def fun_eq_iff)
  moreover have "lock_ok ?s"
    unfolding lock_ok_def by (auto simp: only split: if_splits)
  moreover have "owned ?s = owned s - {a}"
  proof -
    have "\<not> poisoned ?s b" "poisoned s b \<longleftrightarrow> b = a" for b by (auto simp: poisoned_def only)
    moreover have "(\<exists>j f e g. hpc ?s j = Inserting f e (Allocated g b)) \<longleftrightarrow>
        (\<exists>j f e g. hpc s j = Inserting f e (Allocated g b))" for b
      using allocating_frame [of s i b "Freed f"] at by simp
    ultimately show ?thesis using a unfolding owned_def by blast
  qed
  moreover have "set (concat (buckets ?s)) = set (concat (buckets s)) - {a}"
    using a by (simp del: set_concat)
  ultimately show ?thesis
    using dom fin un unfolding smp_ok_def by (simp del: set_concat) blast
qed

lemma smp_ok_uncount:
  assumes ok: "smp_ok s" and at: "hpc s i = Freed f"
  shows "smp_ok (s\<lparr>stable := (stable s)\<lparr>num_flows := num_flows (stable s) - 1\<rparr>,
          hpc := (hpc s)(i := Accepted (Deleted f))\<rparr>)" (is "smp_ok ?s")
proof -
  have r: "race_ok (inserts s)" and lk: "lock_ok s" and fin: "finite (uncounting s)"
    using ok by (auto simp: smp_ok_def)
  have un: "uncounting ?s = uncounting s - {i}" by (auto simp: uncounting_def)
  have "card (uncounting s) = Suc (card (uncounting s - {i}))"
    using card.remove [OF fin, of i] at by (simp add: uncounting_def)
  then have "(word_of_nat (card (uncounting s)) :: u32) = word_of_nat (card (uncounting s - {i})) + 1"
    by simp
  then have "race_ok (inserts ?s)"
    using r un at
    by (subst race_ok_cong [where r' = "inserts s"]) (auto simp: inserts_def fun_eq_iff)
  moreover have pois: "poisoned ?s a \<longleftrightarrow> poisoned s a" for a
    using at unfolding poisoned_def by (auto split: if_splits) (metis hook_pc.distinct)
  moreover have "owned ?s = owned s"
    using allocating_frame [of s i _ "Accepted (Deleted f)"] at unfolding owned_def pois by simp
  moreover have "lock_ok ?s"
    using lock_okD [OF lk] at by (intro lock_ok_frame [OF lk]) (auto simp del: set_concat)
  ultimately show ?thesis using ok un by (simp add: smp_ok_def)
qed

text \<open>The store of a byte count, wherever the pointer leads by now.\<close>

lemma smp_ok_store:
  assumes ok: "smp_ok s" and a: "sheap s a = Some e"
  shows "smp_ok (s\<lparr>sheap := (sheap s)(a \<mapsto> e\<lparr>bytes_sent := w\<rparr>)\<rparr>)" (is "smp_ok ?s")
proof -
  have r: "race_ok (inserts s)" and lk: "lock_ok s" using ok by (auto simp: smp_ok_def)
  have un: "uncounting ?s = uncounting s" and own: "owned ?s = owned s"
    by (auto simp: uncounting_def owned_def poisoned_def)
  have "race_ok ((inserts s)\<lparr>rheap := (sheap s)(a \<mapsto> e\<lparr>bytes_sent := w\<rparr>)\<rparr>)"
    using a by (intro race_ok_heap [OF r]) (auto simp: inserts_def flow_key_def)
  then have "race_ok (inserts ?s)" using un by (simp add: inserts_def)
  moreover have "lock_ok ?s"
    using lock_okD [OF lk] by (intro lock_ok_frame [OF lk]) (auto simp del: set_concat)
  moreover have "dom (sheap ?s) = dom (sheap s)" using a by auto
  ultimately show ?thesis using ok un own by (simp add: smp_ok_def)
qed

lemma hook_step_smp_ok:
  assumes "kmalloc_ok kmalloc"
  shows "hook_step kmalloc i s s' \<Longrightarrow> smp_ok s \<Longrightarrow> smp_ok s'"
proof (induction rule: hook_step.induct)
  case (insert s f ends p r)
  then show ?case using smp_ok_insert [OF assms] by blast
next
  case (update_store s n a v e)
  then have "smp_ok (s\<lparr>sheap := (sheap s)(a \<mapsto> e\<lparr>bytes_sent := v + n\<rparr>)\<rparr>)"
    by (intro smp_ok_store)
  from smp_ok_quiet [OF this, of i "Accepted Silent"] show ?case using update_store by simp
qed (auto intro: smp_ok_quiet smp_ok_unlink smp_ok_free smp_ok_uncount)

lemma hook_steps_smp_ok:
  "hook_steps kmalloc s s' \<Longrightarrow> kmalloc_ok kmalloc \<Longrightarrow> smp_ok s \<Longrightarrow> smp_ok s'"
  by (induction rule: hook_steps.induct) (auto dest: hook_step_smp_ok)

subsection \<open>The search of one processor, while no other moves\<close>

lemma filter_bucket:
  "distinct (concat ls) \<Longrightarrow> k < length ls \<Longrightarrow> a \<in> set (ls ! k) \<Longrightarrow> filter (\<lambda>l. a \<in> set l) ls = [ls ! k]"
proof (induction ls arbitrary: k)
  case (Cons l ls)
  show ?case
  proof (cases k)
    case 0
    then have "filter (\<lambda>l. a \<in> set l) ls = []"
      using Cons.prems by (auto simp: filter_empty_conv)
    then show ?thesis using 0 Cons.prems by simp
  next
    case (Suc m)
    then have "a \<in> set (concat ls)" using Cons.prems by (auto simp: in_concat_nth simp del: set_concat)
    then have "a \<notin> set l" using Cons.prems(1) by auto
    then show ?thesis using Cons Suc by simp
  qed
qed simp

lemma succ_in_bucket:
  assumes "distinct (concat ls)" and "k < length ls" and "ls ! k = xs @ a # ys"
  shows "succ_in ls a = hd_opt ys"
proof -
  have "distinct (ls ! k)" using assms(1,2) by (simp add: distinct_concat_iff)
  then have "dropWhile (\<lambda>b. b \<noteq> a) (xs @ a # ys) = a # ys"
    unfolding assms(3) by (induction xs) auto
  then show ?thesis using filter_bucket [OF assms(1,2), of a] assms(3) by (simp add: succ_in_def)
qed

lemma walk_steps:
  assumes "distinct (concat (buckets s))" and "k < length (buckets s)" and "\<And>a. \<not> poisoned s a"
  shows "buckets s ! k = xs @ ys \<Longrightarrow> \<forall>a \<in> set ys. sheap s a \<noteq> None \<Longrightarrow> hpc s i = Walking f (hd_opt ys) \<Longrightarrow>
    hook_steps kmalloc s (s\<lparr>hpc := (hpc s)(i := Walking f (find (\<lambda>a. key_at (sheap s) a = flow_key f) ys))\<rparr>)"
  using assms
proof (induction ys arbitrary: xs s)
  case Nil
  then have "s\<lparr>hpc := (hpc s)(i := Walking f None)\<rparr> = s" by (simp add: fun_upd_idem)
  then show ?case by (simp only: find.simps hook_steps.stay)
next
  case (Cons a ys)
  then obtain e where e: "sheap s a = Some e" by auto
  show ?case
  proof (cases "same_flow e f")
    case True
    then have "s\<lparr>hpc := (hpc s)(i := Walking f (Some a))\<rparr> = s"
      using Cons.prems by (simp add: fun_upd_idem)
    moreover have "find (\<lambda>a. key_at (sheap s) a = flow_key f) (a # ys) = Some a"
      using True e by (simp add: key_at_def same_flow_key)
    ultimately show ?thesis by (simp only: hook_steps.stay)
  next
    case False
    define s0 where "s0 = s\<lparr>hpc := (hpc s)(i := Comparing f a (Inr (hd_opt ys)))\<rparr>"
    define s1 where "s1 = s\<lparr>hpc := (hpc s)(i := Walking f (hd_opt ys))\<rparr>"
    have "a \<in> set (concat (buckets s))"
      using Cons.prems(1,5) by (metis in_concat_nth in_set_conv_decomp)
    then have "next_node s a = Inr (hd_opt ys)"
      using succ_in_bucket [OF Cons.prems(4,5,1)] Cons.prems(6) by (simp add: next_node_def)
    then have zero: "hook_step kmalloc i s s0"
      using hook_step.search_next [of s i f a e kmalloc] Cons.prems e by (simp add: s0_def)
    have "hook_step kmalloc i s0 s1"
      using hook_step.search_differs [of s0 i f a "hd_opt ys" e kmalloc] e False by (simp add: s0_def s1_def)
    from hook_steps_Cons [OF zero hook_steps_one [OF this]] have one: "hook_steps kmalloc s s1" .
    have "\<not> poisoned s1 b" for b
      using Cons.prems(6) by (auto simp: poisoned_def s1_def split: if_splits)
    then have "hook_steps kmalloc s1
        (s1\<lparr>hpc := (hpc s1)(i := Walking f (find (\<lambda>a. key_at (sheap s1) a = flow_key f) ys))\<rparr>)"
      using Cons.prems by (intro Cons.IH [of s1 "xs @ [a]"]) (auto simp: s1_def)
    moreover have "find (\<lambda>a. key_at (sheap s) a = flow_key f) (a # ys)
        = find (\<lambda>a. key_at (sheap s) a = flow_key f) ys"
      using False e by (simp add: key_at_def same_flow_key)
    ultimately show ?thesis
      using hook_steps_trans [OF one] by (simp add: s1_def del: find.simps fun_upd_apply)
  qed
qed

text \<open>On a table in good order the search finds the entry of its flow, or reaches the end.\<close>

lemma search_steps:
  assumes ok: "table_ok (stable s) (sheap s)" and at: "hpc s i = Searching f" and no: "\<And>a. \<not> poisoned s a"
  defines "r \<equiv> find (\<lambda>a. key_at (sheap s) a = flow_key f) (concat (buckets s))"
  shows "hook_steps kmalloc s (s\<lparr>hpc := (hpc s)(i :=
           (case r of None \<Rightarrow> Accepted (No_Entry f) | Some a \<Rightarrow> Updating (bytes_sent f) a))\<rparr>)"
proof -
  define k where "k = flow_index (bits (stable s)) f"
  obtain ls where ls: "lists (stable s) = Live ls" "lists_ok ls (bits (stable s)) (sheap s)"
    using ok by (rule table_okE)
  have k: "k < length ls" using find_bucket(1) [OF ls(2) k_def] .
  have b: "bucket_of s f = ls ! k" by (simp add: bucket_of_def ls(1) k_def)
  have r: "r = find (\<lambda>a. key_at (sheap s) a = flow_key f) (ls ! k)"
    using find_concat_bucket [OF ls(2) k_def] ls(1) by (simp add: r_def)
  define s1 where "s1 = s\<lparr>hpc := (hpc s)(i := Walking f (hd_opt (ls ! k)))\<rparr>"
  define s2 where "s2 = s\<lparr>hpc := (hpc s)(i := Walking f r)\<rparr>"
  have one: "hook_step kmalloc i s s1"
    using hook_step.search_first [of s i f kmalloc] at by (simp add: s1_def b)
  have "\<not> poisoned s1 a" for a using no by (auto simp: poisoned_def s1_def split: if_splits)
  moreover have live: "\<forall>a \<in> set (ls ! k). sheap s a \<noteq> None"
    using lists_okD(6) [OF ls(2) k] live_in_Some by fastforce
  ultimately have "hook_steps kmalloc s1 s2"
    using walk_steps [of s1 k "[]" "ls ! k" i f kmalloc] lists_okD(3) [OF ls(2)] k ls(1)
    by (simp add: s1_def s2_def r)
  then have two: "hook_steps kmalloc s s2" by (rule hook_steps_Cons [OF one])
  show ?thesis
  proof (cases r)
    case None
    then show ?thesis
      using hook_steps.more [OF two hook_step.search_end [of s2 i f]] by (simp add: s2_def)
  next
    case (Some a)
    then have "a \<in> set (ls ! k)" "key_at (sheap s) a = flow_key f"
      using find_SomeD [of _ "ls ! k" a] unfolding r by blast+
    then obtain e where "sheap s a = Some e" "same_flow e f"
      using live by (auto simp: key_at_def same_flow_key)
    moreover define s3 where "s3 = s\<lparr>hpc := (hpc s)(i := Comparing f a (next_node s2 a))\<rparr>"
    ultimately have three: "hook_step kmalloc i s2 s3"
        "hook_step kmalloc i s3 (s3\<lparr>hpc := (hpc s3)(i := Updating (bytes_sent f) a)\<rparr>)"
      using hook_step.search_next [of s2 i f a e kmalloc] hook_step.search_found [of s3 i f a "next_node s2 a" e kmalloc] Some
      by (simp_all add: s2_def s3_def)
    show ?thesis
      using hook_steps.more [OF hook_steps.more [OF two three(1)] three(2)] Some by (simp add: s3_def)
  qed
qed

subsection \<open>One processor on its own\<close>

lemma ins_step_lock: "ins_step kmalloc i r r' \<Longrightarrow> lock (rtable r') = lock (rtable r)"
  by (induction rule: ins_step.induct) (simp_all add: set_bucket_def)

lemma ins_step_after:
  "ins_step kmalloc i r r' \<Longrightarrow> after_insert f ends (cpu r i) = Inserting f ends (cpu r i)"
  by (induction rule: ins_step.induct) simp_all

lemma ins_step_solo:
  assumes "ins_step kmalloc i r r'"
  shows "ins_step kmalloc i \<lparr>rtable = rtable r, rheap = rheap r, cpu = (\<lambda>_. cpu r i)\<rparr>
           \<lparr>rtable = rtable r', rheap = rheap r', cpu = (\<lambda>_. cpu r i)(i := cpu r' i)\<rparr>"
  using ins_step_adjusted [OF assms, of "\<lambda>_. cpu r i" 0] by (simp add: adjusted_def)

lemma insert_alone:
  "(ins_step kmalloc i)\<^sup>*\<^sup>* r r' \<Longrightarrow> \<not> lock (rtable r) \<Longrightarrow>
   stable s = rtable r \<Longrightarrow> sheap s = rheap r \<Longrightarrow> hpc s i = Inserting f ends (cpu r i) \<Longrightarrow> r \<noteq> r' \<Longrightarrow>
   hook_steps kmalloc s \<lparr>stable = rtable r', sheap = rheap r', hpc = (hpc s)(i := after_insert f ends (cpu r' i))\<rparr>
     \<and> \<not> lock (rtable r')"
proof (induction rule: rtranclp_induct)
  case (step q q')
  let ?at = "\<lambda>q. \<lparr>stable = rtable q, sheap = rheap q, hpc = (hpc s)(i := after_insert f ends (cpu q i))\<rparr>"
  have q: "hook_steps kmalloc s (?at q) \<and> \<not> lock (rtable q)"
  proof (cases "r = q")
    case True
    then have "?at q = s" using step.prems ins_step_after [OF step.hyps(2)] by (simp add: fun_upd_idem)
    then show ?thesis using step.prems True by (simp add: hook_steps.stay)
  qed (use step in blast)
  have st: "hook_step kmalloc i (?at q) (?at q')"
    using hook_step.insert [of "?at q" i f ends "cpu q i" kmalloc
        "\<lparr>rtable = rtable q', rheap = rheap q', cpu = (\<lambda>_. cpu q i)(i := cpu q' i)\<rparr>"]
      ins_step_solo [OF step.hyps(2)] ins_step_after [OF step.hyps(2)] q by simp
  show ?case
    using hook_steps.more [OF conjunct1 [OF q] st] q ins_step_lock [OF step.hyps(2)] by (simp only: simp_thms)
qed simp

lemma table_results:
  "table_insert kmalloc f (t, h) = Inr (r, (t', h')) \<Longrightarrow> insert_table kmalloc (Some t) (Some f) h = Inr (r, Some t', h')"
  "table_delete f (t, h) = Inr (r, (t', h')) \<Longrightarrow> delete_table (Some t) (Some f) h = Inr (r, Some t', h')"
  by (auto simp: table_insert_def table_delete_def andthen_Inr_iff deref_def split: prod.splits option.splits)

text \<open>What the hook does after the insertion, and after the deletion.\<close>

lemma insert_done:
  assumes ok: "table_ok (stable s) (sheap s)" and k: "kmalloc_ok kmalloc"
    and at: "hpc s i = Inserting f ends (Start f)"
    and r: "table_insert kmalloc f (stable s, sheap s) = Inr (r, (t', h'))"
  shows "hook_steps kmalloc s (s\<lparr>stable := t', sheap := h', hpc := (hpc s)(i := after_insert f ends (Finished r))\<rparr>)"
proof -
  let ?r = "\<lparr>rtable = stable s, rheap = sheap s, cpu = (\<lambda>_. Start f)\<rparr>"
  have "(ins_step kmalloc i)\<^sup>*\<^sup>* ?r (?r\<lparr>rtable := t', rheap := h', cpu := (cpu ?r)(i := Finished r)\<rparr>)"
    using ok k table_results(1) [OF r] by (intro undisturbed_insert [where f = f]) simp_all
  moreover have "\<not> lock (stable s)" using ok by (auto elim: table_okE)
  ultimately show ?thesis
    using insert_alone [of kmalloc i ?r "\<lparr>rtable = t', rheap = h', cpu = (\<lambda>_. Start f)(i := Finished r)\<rparr>" s f ends]
      at by (cases s) (auto simp: fun_eq_iff)
qed

lemma delete_done:
  assumes ok: "table_ok (stable s) (sheap s)" and at: "hpc s i = Deleting f"
    and r: "table_delete f (stable s, sheap s) = Inr (r, (t', h'))"
  shows "hook_steps kmalloc s (s\<lparr>stable := t', sheap := h',
           hpc := (hpc s)(i := if r then Accepted (Deleted f) else Searching f)\<rparr>)"
proof -
  define k where "k = flow_index (bits (stable s)) f"
  obtain ls where ls: "lists (stable s) = Live ls" "lists_ok ls (bits (stable s)) (sheap s)" "\<not> lock (stable s)"
    using ok by (rule table_okE)
  note find = find_bucket [OF ls(2) k_def]
  have b: "bucket_of s f = ls ! k" by (simp add: bucket_of_def ls(1) k_def)
  note del = table_results(2) [OF r, unfolded delete_table_def]
  show ?thesis
  proof (cases "find (\<lambda>a. key_at (sheap s) a = flow_key f) (concat ls)")
    case None
    then have "r = False \<and> t' = stable s \<and> h' = sheap s"
      using del find ls(1,3)
      by (simp add: table_index_ok [OF ok] k_def [symmetric] bucket_def spin_lock_irqsave_def
          spin_unlock_irqrestore_def Let_def del: set_concat) auto
    then show ?thesis
      using hook_step.delete_miss [of s i f kmalloc] at ls(3) find(2) None
      by (intro hook_steps_one [of _ i]) (simp add: b)
  next
    case (Some a)
    then obtain e where e: "sheap s a = Some e"
      using in_bucket [OF ls(2)] find_SomeD by metis
    define t where "t = set_bucket (stable s) k (remove1 a (ls ! k))"
    have res: "r \<and> t' = t\<lparr>num_flows := num_flows t - 1\<rparr> \<and> h' = (sheap s)(a := None)"
      using del find ls(1,3) Some
      by (simp add: table_index_ok [OF ok] k_def [symmetric] bucket_def spin_lock_irqsave_def
          spin_unlock_irqrestore_def Let_def t_def set_bucket_def del: set_concat) auto
    define s1 where "s1 = s\<lparr>stable := t\<lparr>lock := True\<rparr>, hpc := (hpc s)(i := Unlinked f a)\<rparr>"
    define s2 where "s2 = s1\<lparr>stable := (stable s1)\<lparr>lock := False\<rparr>, sheap := (sheap s1)(a := None),
        hpc := (hpc s1)(i := Freed f)\<rparr>"
    have one: "hook_step kmalloc i s s1"
      using hook_step.delete_unlink [of s i f a kmalloc] at ls(3) find(2) Some
      by (simp add: s1_def t_def b k_def)
    have two: "hook_step kmalloc i s1 s2"
      using hook_step.delete_free [of s1 i f a e kmalloc] e by (simp add: s1_def s2_def)
    have three: "hook_step kmalloc i s2 (s2\<lparr>stable := (stable s2)\<lparr>num_flows := num_flows (stable s2) - 1\<rparr>,
          hpc := (hpc s2)(i := Accepted (Deleted f))\<rparr>)"
      by (rule hook_step.delete_count) (simp add: s2_def)
    have "t\<lparr>lock := False\<rparr> = t" using ls(3) by (simp add: t_def set_bucket_def)
    then show ?thesis
      using res hook_steps_Cons [OF one hook_steps_Cons [OF two hook_steps_one [OF three]]]
      by (cases s) (auto simp: s1_def s2_def)
  qed
qed

lemma search_done:
  assumes ok: "table_ok (stable s) (sheap s)" and at: "hpc s i = Searching f" and no: "\<And>a. \<not> poisoned s a"
  shows "\<exists>n t' h'. andthen (table_search f (stable s, sheap s)) (\<lambda>entry.
           case entry of
             None \<Rightarrow> Inr (No_Entry f, (stable s, sheap s))
           | Some p \<Rightarrow> andthen (add_bytes p (bytes_sent f) (stable s, sheap s)) (\<lambda>s. Inr (Silent, s)))
         = Inr (n, (t', h')) \<and>
         hook_steps kmalloc s (s\<lparr>stable := t', sheap := h', hpc := (hpc s)(i := Accepted n)\<rparr>)"
proof (cases "find (\<lambda>a. key_at (sheap s) a = flow_key f) (concat (buckets s))")
  case None
  then show ?thesis
    using search_steps [OF ok at no, of kmalloc]
    by (simp add: table_search_def search_table_find [OF ok] del: set_concat)
next
  case (Some a)
  obtain ls where ls: "lists (stable s) = Live ls" "lists_ok ls (bits (stable s)) (sheap s)"
    using ok by (rule table_okE)
  then obtain e where e: "sheap s a = Some e"
    using in_bucket [OF ls(2)] find_SomeD Some by (metis buffer.sel)
  define s1 where "s1 = s\<lparr>hpc := (hpc s)(i := Updating (bytes_sent f) a)\<rparr>"
  define s2 where "s2 = s1\<lparr>hpc := (hpc s1)(i := Loaded (bytes_sent f) a (bytes_sent e))\<rparr>"
  have "hook_steps kmalloc s s1"
    using search_steps [OF ok at no, of kmalloc] Some by (simp add: s1_def del: set_concat)
  moreover have "hook_step kmalloc i s1 s2"
    using hook_step.update_load [of s1 i _ a e kmalloc] e by (simp add: s1_def s2_def)
  moreover have "hook_step kmalloc i s2 (s2\<lparr>sheap := (sheap s2)(a \<mapsto> e\<lparr>bytes_sent := bytes_sent e + bytes_sent f\<rparr>),
      hpc := (hpc s2)(i := Accepted Silent)\<rparr>)"
    using e by (intro hook_step.update_store) (simp_all add: s2_def s1_def)
  ultimately have "hook_steps kmalloc s (s2\<lparr>sheap := (sheap s2)(a \<mapsto> e\<lparr>bytes_sent := bytes_sent e + bytes_sent f\<rparr>),
      hpc := (hpc s2)(i := Accepted Silent)\<rparr>)"
    by (blast intro: hook_steps.more)
  then show ?thesis
    using Some e by (simp add: table_search_def search_table_find [OF ok] add_bytes_def s1_def s2_def del: set_concat)
qed

lemma hook_alone_delete:
  assumes ok: "table_ok (stable s) (sheap s)" and no: "\<And>a. \<not> poisoned s a"
    and at: "hpc s i = (if ends then Deleting f else Searching f)"
  shows "\<exists>n t' h'. andthen (if ends then table_delete f (stable s, sheap s) else Inr (False, (stable s, sheap s)))
         (\<lambda>(deleted, s). if deleted then Inr (Deleted f, s)
           else andthen (table_search f s) (\<lambda>entry.
             case entry of None \<Rightarrow> Inr (No_Entry f, s)
             | Some p \<Rightarrow> andthen (add_bytes p (bytes_sent f) s) (\<lambda>s. Inr (Silent, s))))
         = Inr (n, (t', h')) \<and>
         hook_steps kmalloc s (s\<lparr>stable := t', sheap := h', hpc := (hpc s)(i := Accepted n)\<rparr>)"
proof (cases ends)
  case True
  then have at: "hpc s i = Deleting f" using at by simp
  have sk: "table_ok (fst (stable s, sheap s)) (snd (stable s, sheap s))" using ok by simp
  show ?thesis
  proof (cases rule: ft.delete_cases [OF sk, of f])
    case (1 s')
    then show ?thesis
      using delete_done [OF ok at, of True "fst s'" "snd s'" kmalloc] True by (cases s') simp
  next
    case 2
    define s1 where "s1 = s\<lparr>hpc := (hpc s)(i := Searching f)\<rparr>"
    have "\<not> poisoned s1 a" for a using no by (auto simp: poisoned_def s1_def split: if_splits)
    moreover have "hook_steps kmalloc s s1"
      using delete_done [OF ok at, of False "stable s" "sheap s" kmalloc] 2 by (simp add: s1_def)
    ultimately show ?thesis
      using search_done [of s1 i f kmalloc] ok True 2(1)
      by (simp add: s1_def) (metis (no_types, lifting) hook_steps_trans)
  qed
next
  case False
  then show ?thesis using search_done [OF ok _ no, of i f kmalloc] at by simp
qed

lemma hook_alone_run:
  assumes k: "kmalloc_ok kmalloc" and ok: "table_ok (stable s) (sheap s)" and no: "\<And>a. \<not> poisoned s a"
    and at: "hpc s i = hook_start tcph f"
  shows "\<exists>n t' h'. hook_actions (table_insert kmalloc) table_delete table_search add_bytes tcph f (bytes_sent f)
           (stable s, sheap s) = Inr (n, (t', h')) \<and>
         hook_steps kmalloc s (s\<lparr>stable := t', sheap := h', hpc := (hpc s)(i := Accepted n)\<rparr>)"
proof (cases "syn tcph")
  case True
  then have at: "hpc s i = Inserting f (fin tcph \<or> rst tcph) (Start f)" using at by (simp add: hook_start_def)
  have sk: "table_ok (fst (stable s, sheap s)) (snd (stable s, sheap s))" using ok by simp
  show ?thesis
  proof (cases rule: ft.insert_cases [OF sk, of kmalloc f, unfolded fresh_kmalloc_ok [OF k]])
    case (1 s')
    then show ?thesis
      using insert_done [OF ok k at, of True "fst s'" "snd s'"] True by (cases s') (simp add: hook_actions_def)
  next
    case 2
    define s1 where "s1 = s\<lparr>hpc := (hpc s)(i := if fin tcph \<or> rst tcph then Deleting f else Searching f)\<rparr>"
    have "\<not> poisoned s1 a" for a using no by (auto simp: poisoned_def s1_def split: if_splits)
    then obtain n t' h' where r: "andthen (if fin tcph \<or> rst tcph then table_delete f (stable s1, sheap s1)
          else Inr (False, (stable s1, sheap s1)))
         (\<lambda>(deleted, s). if deleted then Inr (Deleted f, s)
           else andthen (table_search f s) (\<lambda>entry.
             case entry of None \<Rightarrow> Inr (No_Entry f, s)
             | Some p \<Rightarrow> andthen (add_bytes p (bytes_sent f) s) (\<lambda>s. Inr (Silent, s))))
         = Inr (n, (t', h'))"
        "hook_steps kmalloc s1 (s1\<lparr>stable := t', sheap := h', hpc := (hpc s1)(i := Accepted n)\<rparr>)"
      using hook_alone_delete [of s1 i "fin tcph \<or> rst tcph" f kmalloc] ok by (auto simp: s1_def)
    have "hook_steps kmalloc s s1"
      using insert_done [OF ok k at, of False "stable s" "sheap s"] 2 by (simp add: s1_def)
    from hook_steps_trans [OF this r(2)]
    have "hook_steps kmalloc s (s\<lparr>stable := t', sheap := h', hpc := (hpc s)(i := Accepted n)\<rparr>)"
      by (simp add: s1_def)
    moreover have "hook_actions (table_insert kmalloc) table_delete table_search add_bytes tcph f (bytes_sent f)
        (stable s, sheap s) = Inr (n, (t', h'))"
      unfolding r(1) [symmetric] by (simp add: hook_actions_def True 2(1) s1_def)
    ultimately show ?thesis by blast
  qed
next
  case False
  then show ?thesis
    using hook_alone_delete [OF ok no, of i "fin tcph \<or> rst tcph" f kmalloc] at
    by (simp add: hook_actions_def hook_start_def)
qed

subsection \<open>Reachable states\<close>

text \<open>The states the processors start from: a table in good order, every processor before or after a packet.\<close>

definition smp_start :: "smp \<Rightarrow> bool" where
  "smp_start s \<longleftrightarrow> table_ok (stable s) (sheap s) \<and>
     (\<forall>i. (\<exists>tcph f. hpc s i = hook_start tcph f) \<or> (\<exists>n. hpc s i = Accepted n))"

fun at_rest :: "hook_pc \<Rightarrow> bool" where
  "at_rest (Accepted n) = True"
| "at_rest (Crashed e) = True"
| "at_rest p = False"

lemma hook_start_quiet: "quiet (hook_start tcph f)" "\<not> uncounts (hook_start tcph f)"
  by (auto simp: hook_start_def)

lemma smp_start_ok:
  assumes "smp_start s"
  shows "smp_ok s"
proof -
  have ok: "table_ok (stable s) (sheap s)" using assms by (simp add: smp_start_def)
  have q: "quiet (hpc s i)" for i
  proof -
    have "(\<exists>tcph f. hpc s i = hook_start tcph f) \<or> (\<exists>n. hpc s i = Accepted n)"
      using assms by (simp add: smp_start_def)
    then show ?thesis using hook_start_quiet by auto
  qed
  note q' = quietD [OF q]
  have un: "uncounting s = {}" using q' by (simp add: uncounting_def)
  have po: "\<not> poisoned s a" for a using q' by (simp add: poisoned_def)
  have own: "owned s = {}" using q' po by (simp add: owned_def)
  obtain ls where ls: "lists (stable s) = Live ls" "lists_ok ls (bits (stable s)) (sheap s)" "\<not> lock (stable s)"
    using ok by (rule table_okE)
  have "inserts s = \<lparr>rtable = stable s, rheap = sheap s, cpu = (\<lambda>i. ins_of (hpc s i))\<rparr>"
    by (simp add: inserts_def un)
  then have "race_ok (inserts s)"
    using ok q' by (intro table_ok_race_ok) simp_all
  then show ?thesis
    using un own lists_okD(5) [OF ls(2)] ls(1,3) q' by (simp add: smp_ok_def lock_ok_def)
qed

lemma poisoned_start: "smp_start s \<Longrightarrow> \<not> poisoned s a"
  unfolding smp_start_def poisoned_def hook_start_def by (metis hook_pc.distinct hook_pc.simps)

text \<open>An insertion that has finished is never left in \<open>Inserting\<close>.\<close>

definition inserting :: "smp \<Rightarrow> bool" where
  "inserting s \<longleftrightarrow> (\<forall>i f ends b. hpc s i \<noteq> Inserting f ends (Finished b))"

lemma after_insert_not_finished: "after_insert f ends p \<noteq> Inserting g e (Finished b)"
  by (cases "(f, ends, p)" rule: after_insert.cases) auto

lemma hook_step_inserting: "hook_step kmalloc i s s' \<Longrightarrow> inserting s \<Longrightarrow> inserting s'"
  by (induction rule: hook_step.induct) (auto simp: inserting_def after_insert_not_finished)

lemma hook_steps_inserting: "hook_steps kmalloc s s' \<Longrightarrow> inserting s \<Longrightarrow> inserting s'"
  by (induction rule: hook_steps.induct) (auto dest: hook_step_inserting)

lemma smp_start_inserting: "smp_start s \<Longrightarrow> inserting s"
  unfolding smp_start_def inserting_def hook_start_def by (metis hook_pc.distinct(15) hook_pc.inject(1) hook_pc.simps ins_pc.distinct(7))

text \<open>Only a processor that waits for the lock cannot move.\<close>

lemma ins_step_enabled:
  assumes ok: "smp_ok s" and p: "\<And>b. p \<noteq> Finished b"
  shows "\<exists>r. ins_step kmalloc i \<lparr>rtable = stable s, rheap = sheap s, cpu = (\<lambda>_. p)\<rparr> r"
proof (cases p)
  case (Start f)
  have "at_bucket \<lparr>rtable = stable s, rheap = sheap s, cpu = (\<lambda>_. p)\<rparr> f = bucket_of s f"
    by (simp add: at_bucket_def bucket_of_def)
  then show ?thesis
    using smp_ok_bucket(2) [OF ok, of f] Start
    by (cases "find (\<lambda>a. key_at (sheap s) a = flow_key f) (bucket_of s f)") (fastforce intro: ins_step.found ins_step.not_found)+
next
  case (Checked f)
  then show ?thesis
    by (cases "kmalloc (sheap s)") (fastforce intro: ins_step.memory ins_step.no_memory)+
qed (use p in \<open>fastforce intro: ins_step.link ins_step.count\<close>)+

lemma hook_step_enabled:
  assumes ok: "smp_ok s" and ins: "inserting s" and busy: "\<not> at_rest (hpc s i)"
  shows "lock (stable s) \<or> (\<exists>s'. hook_step kmalloc i s s')"
proof (cases "lock (stable s)")
  case False
  show ?thesis
  proof (cases "hpc s i")
    case (Inserting f ends p)
    then obtain r where "ins_step kmalloc i \<lparr>rtable = stable s, rheap = sheap s, cpu = (\<lambda>_. p)\<rparr> r"
      using ins_step_enabled [OF ok] ins unfolding inserting_def by metis
    then show ?thesis using hook_step.insert [OF Inserting] False by blast
  next
    case (Deleting f)
    then show ?thesis
      using smp_ok_bucket(2) [OF ok, of f] False hook_step.delete_miss [OF Deleting] hook_step.delete_unlink [OF Deleting]
      by (metis not_Some_eq)
  next
    case (Unlinked f a)
    then show ?thesis using ok False unfolding smp_ok_def lock_ok_def by blast
  next
    case (Freed f)
    then show ?thesis using hook_step.delete_count by blast
  next
    case (Searching f)
    then show ?thesis using hook_step.search_first by blast
  next
    case (Walking f a)
    then show ?thesis
      using hook_step.search_end hook_step.search_next hook_step.next_freed by (metis not_Some_eq)
  next
    case (Comparing f a n)
    show ?thesis
    proof (cases "sheap s a")
      case None
      then show ?thesis using hook_step.compare_freed [OF Comparing] by blast
    next
      case (Some e)
      then show ?thesis
        using Comparing hook_step.search_found [OF Comparing Some] hook_step.search_differs hook_step.search_poison
        by (cases n; cases "same_flow e f") blast+
    qed
  next
    case (Updating n a)
    then show ?thesis using hook_step.update_load hook_step.load_freed by (metis not_Some_eq)
  next
    case (Loaded n a v)
    then show ?thesis using hook_step.update_store hook_step.store_freed by (metis not_Some_eq)
  qed (use busy in simp_all)
qed simp

lemma lock_holder_moves:
  assumes "smp_ok s" and "lock (stable s)"
  shows "\<exists>i s'. hook_step kmalloc i s s' \<and> \<not> lock (stable s')"
proof -
  obtain i f a where at: "hpc s i = Unlinked f a" and "sheap s a \<noteq> None"
    using assms unfolding smp_ok_def lock_ok_def by blast
  then obtain e where "sheap s a = Some e" by blast
  then show ?thesis using hook_step.delete_free [OF at] by (intro exI [of _ i] exI conjI) auto
qed

subsection \<open>Without deletions\<close>

text \<open>A processor that does not delete, and whose pointer leads to a linked entry.\<close>

fun safe_pc :: "addr set \<Rightarrow> hook_pc \<Rightarrow> bool" where
  "safe_pc as (Inserting f ends p) = (\<not> ends)"
| "safe_pc as (Walking f (Some a)) = (a \<in> as)"
| "safe_pc as (Comparing f a n) = (a \<in> as \<and> (\<exists>b. n = Inr b \<and> (\<forall>c. b = Some c \<longrightarrow> c \<in> as)))"
| "safe_pc as (Updating n a) = (a \<in> as)"
| "safe_pc as (Loaded n a v) = (a \<in> as)"
| "safe_pc as (Deleting f) = False"
| "safe_pc as (Unlinked f a) = False"
| "safe_pc as (Freed f) = False"
| "safe_pc as (Crashed e) = False"
| "safe_pc as p = True"

definition linked_at :: "smp \<Rightarrow> addr set" where
  "linked_at s = set (concat (buckets s))"

definition undeleted :: "smp \<Rightarrow> bool" where
  "undeleted s \<longleftrightarrow> (\<forall>i. safe_pc (linked_at s) (hpc s i))"

text \<open>Every entry of \<open>s\<close> is still there in \<open>s'\<close>, for the same flow.\<close>

definition keeps :: "smp \<Rightarrow> smp \<Rightarrow> bool" where
  "keeps s s' \<longleftrightarrow> linked_at s \<subseteq> linked_at s' \<and> (\<forall>a \<in> linked_at s. key_at (sheap s') a = key_at (sheap s) a)"

lemma safe_pc_mono: "safe_pc as p \<Longrightarrow> as \<subseteq> bs \<Longrightarrow> safe_pc bs p"
  by (induction as p rule: safe_pc.induct) auto

lemma undeleted_move:
  "undeleted s \<Longrightarrow> linked_at s \<subseteq> linked_at s' \<Longrightarrow> hpc s' = (hpc s)(i := p) \<Longrightarrow> safe_pc (linked_at s') p \<Longrightarrow>
   undeleted s'"
  by (auto simp: undeleted_def intro: safe_pc_mono)

lemma undeletedD: "undeleted s \<Longrightarrow> hpc s i = p \<Longrightarrow> safe_pc (linked_at s) p"
  unfolding undeleted_def by metis

lemma undeleted_pc:
  "undeleted s \<Longrightarrow> safe_pc (linked_at s) p \<Longrightarrow>
   undeleted (s\<lparr>hpc := (hpc s)(i := p)\<rparr>) \<and> keeps s (s\<lparr>hpc := (hpc s)(i := p)\<rparr>)"
  by (auto simp: undeleted_def keeps_def linked_at_def)

lemma hd_opt_mem: "hd_opt l = Some a \<Longrightarrow> a \<in> set l"
  by (cases l) auto

lemma next_node_linked: "next_node s a = Inr (Some b) \<Longrightarrow> b \<in> linked_at s"
proof -
  assume "next_node s a = Inr (Some b)"
  then have "b \<in> set (tl (dropWhile (\<lambda>b. b \<noteq> a) (concat (filter (\<lambda>l. a \<in> set l) (buckets s)))))"
    by (auto simp: next_node_def succ_in_def simp del: set_concat intro: hd_opt_mem split: if_splits)
  then have "b \<in> set (concat (filter (\<lambda>l. a \<in> set l) (buckets s)))"
    by (metis list.set_sel(2) list.sel(2) set_dropWhileD)
  then show ?thesis by (auto simp: linked_at_def)
qed

lemma bucket_of_linked: "smp_ok s \<Longrightarrow> set (bucket_of s f) \<subseteq> linked_at s"
  using smp_ok_bucket(1) [of s f] unfolding bucket_of_def linked_at_def by (auto simp: in_concat_nth simp del: set_concat)

lemma linked_live: "smp_ok s \<Longrightarrow> a \<in> linked_at s \<Longrightarrow> sheap s a \<noteq> None"
  unfolding smp_ok_def linked_at_def by blast

lemma ins_step_keeps:
  assumes k: "kmalloc_ok kmalloc" and ok: "smp_ok s"
    and st: "ins_step kmalloc i \<lparr>rtable = stable s, rheap = sheap s, cpu = (\<lambda>_. p)\<rparr> r"
  shows "keeps s \<lparr>stable = rtable r, sheap = rheap r, hpc = c\<rparr>"
  using st
proof cases
  case (memory g a)
  then have "a \<notin> linked_at s" using k linked_live [OF ok, of a] by (auto simp: kmalloc_ok_def)
  then show ?thesis using memory by (auto simp: keeps_def linked_at_def key_at_def)
next
  case (link g a)
  let ?k = "flow_index (bits (stable s)) g"
  have "mset (concat ((buckets s)[?k := a # buckets s ! ?k])) = add_mset a (mset (concat (buckets s)))"
    using smp_ok_bucket(1) [OF ok, of g] by (rule mset_concat_cons)
  then have "set (concat ((buckets s)[?k := a # buckets s ! ?k])) = insert a (set (concat (buckets s)))"
    by (metis set_mset_add_mset_insert set_mset_mset)
  then show ?thesis
    using link by (auto simp: keeps_def linked_at_def set_bucket_def at_bucket_def simp del: set_concat)
qed (auto simp: keeps_def linked_at_def)

lemma hook_step_undeleted:
  assumes k: "kmalloc_ok kmalloc"
  shows "hook_step kmalloc i s s' \<Longrightarrow> smp_ok s \<Longrightarrow> undeleted s \<Longrightarrow> undeleted s' \<and> keeps s s'"
proof (induction rule: hook_step.induct)
  case (insert s f ends p r)
  let ?s = "\<lparr>stable = rtable r, sheap = rheap r, hpc = (hpc s)(i := after_insert f ends (cpu r i))\<rparr>"
  have keep: "keeps s ?s" using insert by (intro ins_step_keeps [OF k])
  have "\<not> ends" using insert unfolding undeleted_def by (metis safe_pc.simps(1))
  then have "safe_pc as (after_insert f ends (cpu r i))" for as
    by (cases "(f, ends, cpu r i)" rule: after_insert.cases) auto
  then show ?case
    using undeleted_move [OF insert.prems(2), of ?s i] keep by (simp add: keeps_def)
next
  case (search_first s f)
  have "safe_pc (linked_at s) (Walking f (hd_opt (bucket_of s f)))"
    using bucket_of_linked [OF search_first.prems(1), of f] hd_opt_mem [of "bucket_of s f"]
    by (cases "hd_opt (bucket_of s f)") auto
  then show ?case using undeleted_pc [OF search_first.prems(2)] by blast
next
  case (search_next s f a e)
  have "\<not> poisoned s a"
    using undeletedD [OF search_next.prems(2)] unfolding poisoned_def by fastforce
  then have "\<exists>b. next_node s a = Inr b" by (simp add: next_node_def)
  then have "safe_pc (linked_at s) (Comparing f a (next_node s a))"
    using next_node_linked undeletedD [OF search_next.prems(2) search_next.hyps(1)] by auto
  then show ?case using undeleted_pc [OF search_next.prems(2)] by blast
next
  case (search_differs s f a n e)
  have "safe_pc (linked_at s) (Walking f n)"
    using undeletedD [OF search_differs.prems(2) search_differs.hyps(1)] by (cases n) auto
  then show ?case using undeleted_pc [OF search_differs.prems(2)] by blast
next
  case (search_poison s f a x e)
  then show ?case using undeletedD [OF search_poison.prems(2) search_poison.hyps(1)] by simp
next
  case (update_store s n a v e)
  then show ?case
    using undeleted_move [OF update_store.prems(2)] by (auto simp: keeps_def linked_at_def key_at_def flow_key_def)
next
  case (next_freed s f a)
  then show ?case using undeletedD [OF next_freed.prems(2) next_freed.hyps(1)] linked_live by fastforce
next
  case (compare_freed s f a n)
  then show ?case using undeletedD [OF compare_freed.prems(2) compare_freed.hyps(1)] linked_live by fastforce
next
  case (load_freed s n a)
  then show ?case using undeletedD [OF load_freed.prems(2) load_freed.hyps(1)] linked_live by fastforce
next
  case (store_freed s n a v)
  then show ?case using undeletedD [OF store_freed.prems(2) store_freed.hyps(1)] linked_live by fastforce
next
  case (search_found s f a n e)
  then show ?case using undeletedD [OF search_found.prems(2) search_found.hyps(1)] undeleted_pc [OF search_found.prems(2)] by simp
next
  case (update_load s n a e)
  then show ?case using undeletedD [OF update_load.prems(2) update_load.hyps(1)] undeleted_pc [OF update_load.prems(2)] by simp
next
  case (search_end s f)
  then show ?case using undeleted_pc [OF search_end.prems(2)] by simp
qed (use undeletedD in fastforce)+

lemma keeps_trans: "keeps s s' \<Longrightarrow> keeps s' s'' \<Longrightarrow> keeps s s''"
  by (auto simp: keeps_def)

lemma hook_steps_undeleted:
  assumes k: "kmalloc_ok kmalloc"
  shows "hook_steps kmalloc s s' \<Longrightarrow> smp_ok s \<Longrightarrow> undeleted s \<Longrightarrow> undeleted s' \<and> keeps s s'"
proof (induction rule: hook_steps.induct)
  case (stay s)
  then show ?case by (simp add: keeps_def)
next
  case (more s s' i s'')
  then have "smp_ok s'" using hook_steps_smp_ok [OF _ k] by blast
  then show ?case using more hook_step_undeleted [OF k more.hyps(2)] keeps_trans by blast
qed

lemma smp_ok_summary:
  assumes "smp_ok s"
  shows "distinct (concat (buckets s)) \<and>
    (\<forall>a \<in> set (concat (buckets s)). \<exists>e. sheap s a = Some e \<and> a \<in> set (bucket_of s e)) \<and>
    dom (sheap s) = set (concat (buckets s)) \<union> owned s \<and>
    (\<forall>i j f g a b. hpc s i = Unlinked f a \<and> hpc s j = Unlinked g b \<longrightarrow> i = j) \<and>
    (lock (stable s) \<longleftrightarrow> (\<exists>i f a. hpc s i = Unlinked f a)) \<and>
    ((\<forall>i. at_rest (hpc s i)) \<longrightarrow>
       dom (sheap s) = set (concat (buckets s)) \<and>
       num_flows (stable s) = word_of_nat (length (concat (buckets s))))"
proof -
  have r: "race_ok (inserts s)" and lk: "lock_ok s"
    and dom: "dom (sheap s) = set (concat (buckets s)) \<union> owned s"
    using assms by (simp_all only: smp_ok_def)
  obtain ls where ls: "lists (stable s) = Live ls" "distinct (concat ls)"
    "\<And>j a. j < length ls \<Longrightarrow> a \<in> set (ls ! j) \<Longrightarrow> live_in (sheap s) (bits (stable s)) j a"
    using r by (auto simp: race_ok_def inserts_def)
  have "\<exists>e. sheap s a = Some e \<and> a \<in> set (bucket_of s e)" if "a \<in> set (concat ls)" for a
  proof -
    have "\<exists>j < length ls. a \<in> set (ls ! j)" using that unfolding in_concat_nth .
    then obtain j where j: "j < length ls" "a \<in> set (ls ! j)" by blast
    then have "\<exists>e. sheap s a = Some e \<and> flow_index (bits (stable s)) e = j"
      using live_in_Some [OF ls(3)] by blast
    then show ?thesis using j ls(1) by (auto simp: bucket_of_def)
  qed
  moreover have "owned s = {} \<and> num_flows (stable s) = word_of_nat (length (concat ls))"
    if rest: "\<forall>i. at_rest (hpc s i)"
  proof -
    have "hpc s i \<noteq> Inserting f e p" "hpc s i \<noteq> Unlinked f a" "\<not> uncounts (hpc s i)" "ins_of (hpc s i) \<noteq> Linked" for i f e p a
      using rest by (cases "hpc s i"; metis at_rest.simps uncounts.simps ins_of.simps ins_pc.distinct)+
    then have "owned s = {}" "uncounting s = {}" "counting (cpu (inserts s)) = {}"
      by (simp_all add: owned_def poisoned_def uncounting_def counting_def inserts_def)
    then show ?thesis using r ls(1) by (simp add: race_ok_def inserts_def linked_def del: length_concat)
  qed
  ultimately show ?thesis
    using lk dom ls(1,2) unfolding lock_ok_def by (auto simp del: set_concat length_concat)
qed

lemma flows_linked:
  "dom (flows t h) = key_at h ` set (concat (contents (lists t)))"
proof (rule set_eqI)
  fix k
  let ?as = "set (concat (contents (lists t)))"
  have "flows t h k = None \<longleftrightarrow> (\<forall>a \<in> ?as. key_at h a \<noteq> k)" unfolding flows_def by (rule flows_in_None)
  then show "k \<in> dom (flows t h) \<longleftrightarrow> k \<in> key_at h ` ?as" unfolding domIff image_iff by fast
qed

lemma undeleted_run:
  assumes k: "kmalloc_ok kmalloc" and start: "smp_start s" and run: "hook_steps kmalloc s s'"
    and no: "\<forall>i tcph f. hpc s i = hook_start tcph f \<longrightarrow> \<not> fin tcph \<and> \<not> rst tcph"
  shows "(\<forall>i e. hpc s' i \<noteq> Crashed e) \<and> dom (flows (stable s) (sheap s)) \<subseteq> dom (flows (stable s') (sheap s'))"
proof -
  have "safe_pc as (hpc s i)" for as i
  proof -
    consider tcph f where "hpc s i = hook_start tcph f" | n where "hpc s i = Accepted n"
      using start unfolding smp_start_def by blast
    then show ?thesis using no by cases (auto simp: hook_start_def)
  qed
  then have "undeleted s' \<and> keeps s s'"
    using hook_steps_undeleted [OF k run smp_start_ok [OF start]] by (simp add: undeleted_def)
  then have u: "undeleted s'" "keeps s s'" by simp_all
  have "hpc s' i \<noteq> Crashed e" for i e using undeletedD [OF u(1), of i] by fastforce
  moreover have "dom (flows (stable s) (sheap s)) \<subseteq> dom (flows (stable s') (sheap s'))"
    using u(2) unfolding flows_linked keeps_def linked_at_def by (force simp del: set_concat)
  ultimately show ?thesis by blast
qed

subsection \<open>Two processors at the same entry\<close>

lemma delete_found:
  assumes ok: "table_ok t h" and found: "find (\<lambda>a. key_at h a = flow_key f) (concat (contents (lists t))) = Some a"
  shows "\<exists>t'. table_delete f (t, h) = Inr (True, (t', h(a := None)))"
proof -
  obtain ls where ls: "lists t = Live ls" "lists_ok ls (bits t) h" "\<not> lock t"
    using ok by (rule table_okE)
  show ?thesis
    using find_bucket [OF ls(2) refl, of f] found ls(1,3)
    by (simp add: table_delete_def delete_table_def table_index_ok [OF ok] bucket_def spin_lock_irqsave_def
        spin_unlock_irqrestore_def Let_def deref_def del: set_concat)
qed

lemma flow_found:
  assumes "table_ok t h" and "flows t h (flow_key f) = Some v"
  obtains ls a e where "lists t = Live ls" "lists_ok ls (bits t) h" "a \<in> set (concat ls)"
    "find (\<lambda>a. key_at h a = flow_key f) (concat ls) = Some a" "h a = Some e"
    "flow_key e = flow_key f" "bytes_sent e = v"
proof -
  obtain ls where ls: "lists t = Live ls" "lists_ok ls (bits t) h" using assms(1) by (rule table_okE)
  obtain a where a: "find (\<lambda>a. key_at h a = flow_key f) (concat ls) = Some a" "bytes_sent (the (h a)) = v"
    using assms(2) ls(1) by (auto simp: flows_def flows_in_def simp del: set_concat)
  then have in_a: "a \<in> set (concat ls)" "key_at h a = flow_key f"
    using find_SomeD by fastforce+
  then obtain e where "h a = Some e" using in_bucket [OF ls(2)] by blast
  then show thesis using that ls a in_a by (simp add: key_at_def del: set_concat)
qed

lemma free_then_update:
  assumes ok: "table_ok (stable s) (sheap s)" and no: "\<And>a. \<not> poisoned s a"
    and known: "flows (stable s) (sheap s) (flow_key f) = Some v" and same: "flow_key g = flow_key f"
    and ij: "i \<noteq> j" "hpc s i = Searching f" "hpc s j = Deleting g"
  shows "\<exists>s'. hook_steps kmalloc s s' \<and> hpc s' i = Crashed Use_After_Free \<and> hpc s' j = Accepted (Deleted g)"
proof -
  obtain ls a e where a: "lists (stable s) = Live ls"
    "find (\<lambda>a. key_at (sheap s) a = flow_key f) (concat ls) = Some a"
    using ok known by (rule flow_found)
  define s1 where "s1 = s\<lparr>hpc := (hpc s)(i := Updating (bytes_sent f) a)\<rparr>"
  have one: "hook_steps kmalloc s s1"
    using search_steps [OF ok ij(2) no, of kmalloc] a by (simp add: s1_def)
  obtain t' where "table_delete g (stable s1, sheap s1) = Inr (True, (t', (sheap s)(a := None)))"
    using delete_found [OF ok, of g a] a same by (auto simp: s1_def)
  then have two: "hook_steps kmalloc s1 (s1\<lparr>stable := t', sheap := (sheap s)(a := None),
      hpc := (hpc s1)(j := Accepted (Deleted g))\<rparr>)" (is "hook_steps kmalloc s1 ?s2")
    using delete_done [of s1 j g True t' "(sheap s)(a := None)" kmalloc] ok ij by (simp add: s1_def)
  have three: "hook_step kmalloc i ?s2 (?s2\<lparr>hpc := (hpc ?s2)(i := Crashed Use_After_Free)\<rparr>)"
    using ij(1) by (intro hook_step.load_freed [of _ _ "bytes_sent f" a]) (simp_all add: s1_def)
  show ?thesis
    using hook_steps.more [OF hook_steps_trans [OF one two] three] ij(1) by (intro exI conjI) auto
qed

lemma lost_update:
  assumes ok: "table_ok (stable s) (sheap s)" and no: "\<And>a. \<not> poisoned s a"
    and known: "flows (stable s) (sheap s) (flow_key f) = Some v" and same: "flow_key g = flow_key f"
    and ij: "i \<noteq> j" "hpc s i = Searching f" "hpc s j = Searching g"
  shows "\<exists>s'. hook_steps kmalloc s s' \<and> hpc s' i = Accepted Silent \<and> hpc s' j = Accepted Silent \<and>
           flows (stable s') (sheap s') = (flows (stable s) (sheap s))(flow_key f \<mapsto> v + bytes_sent g) \<and>
           (\<forall>k. k \<noteq> i \<and> k \<noteq> j \<longrightarrow> hpc s' k = hpc s k)"
proof -
  obtain ls a e where a: "lists (stable s) = Live ls" "lists_ok ls (bits (stable s)) (sheap s)"
    "a \<in> set (concat ls)" "find (\<lambda>a. key_at (sheap s) a = flow_key f) (concat ls) = Some a"
    "sheap s a = Some e" "flow_key e = flow_key f" "bytes_sent e = v"
    using ok known by (rule flow_found)
  define s1 where "s1 = s\<lparr>hpc := (hpc s)(i := Updating (bytes_sent f) a)\<rparr>"
  define s2 where "s2 = s1\<lparr>hpc := (hpc s1)(j := Updating (bytes_sent g) a)\<rparr>"
  define s3 where "s3 = s2\<lparr>hpc := (hpc s2)(i := Loaded (bytes_sent f) a v)\<rparr>"
  define s4 where "s4 = s3\<lparr>hpc := (hpc s3)(j := Loaded (bytes_sent g) a v)\<rparr>"
  define e5 where "e5 = e\<lparr>bytes_sent := v + bytes_sent f\<rparr>"
  define s5 where "s5 = s4\<lparr>sheap := (sheap s4)(a \<mapsto> e5), hpc := (hpc s4)(i := Accepted Silent)\<rparr>"
  define e6 where "e6 = e\<lparr>bytes_sent := v + bytes_sent g\<rparr>"
  define s6 where "s6 = s5\<lparr>sheap := (sheap s5)(a \<mapsto> e6), hpc := (hpc s5)(j := Accepted Silent)\<rparr>"
  note defs = s1_def s2_def s3_def s4_def s5_def s6_def e5_def e6_def
  have no1: "\<not> poisoned s1 b" for b using no by (auto simp: poisoned_def s1_def split: if_splits)
  have one: "hook_steps kmalloc s s1"
    using search_steps [OF ok ij(2) no, of kmalloc] a by (simp add: s1_def)
  have two: "hook_steps kmalloc s1 s2"
    using search_steps [of s1 j g kmalloc] no1 ok ij a same by (simp add: s1_def s2_def)
  have three: "hook_step kmalloc i s2 s3" "hook_step kmalloc j s3 s4"
    using hook_step.update_load [of s2 i "bytes_sent f" a e] hook_step.update_load [of s3 j "bytes_sent g" a e] a ij
    by (simp_all add: defs(1-4))
  have four: "hook_step kmalloc i s4 s5" "hook_step kmalloc j s5 s6"
    using hook_step.update_store [of s4 i "bytes_sent f" a v e] hook_step.update_store [of s5 j "bytes_sent g" a v e5] a ij
    by (simp_all add: defs)
  have "flow_key e6 = flow_key e" by (simp add: e6_def flow_key_def)
  note upd = lists_ok_update [OF a(2,3,5) this]
  have "sheap s6 = (sheap s)(a \<mapsto> e6)" "stable s6 = stable s" by (simp_all add: defs)
  then have "flows (stable s6) (sheap s6) = (flows (stable s) (sheap s))(flow_key f \<mapsto> v + bytes_sent g)"
    using upd(2) a(1,6) by (simp add: flows_def e6_def)
  moreover have "hook_steps kmalloc s s6"
    using hook_steps_trans [OF one two] three four by (blast intro: hook_steps.more)
  moreover have "hpc s6 i = Accepted Silent" "hpc s6 j = Accepted Silent"
      "\<forall>k. k \<noteq> i \<and> k \<noteq> j \<longrightarrow> hpc s6 k = hpc s k"
    using ij(1) by (simp_all add: defs)
  ultimately show ?thesis by blast
qed

subsection \<open>Properties\<close>

text \<open>For the examples: a table with one flow on record, and two processors with packets of that flow.\<close>

definition data_header :: tcp_hdr where
  "data_header = \<lparr>tcp_source = 5001, tcp_dest = 80, syn = False, fin = False, rst = False\<rparr>"

definition fin_header :: tcp_hdr where
  "fin_header = data_header\<lparr>fin := True\<rparr>"

definition two_packets :: "tcp_hdr \<Rightarrow> table_state \<Rightarrow> smp" where
  "two_packets tcph s = \<lparr>stable = fst s, sheap = snd s,
     hpc = (\<lambda>i. if i = 0 then hook_start data_header sample_flow
               else if i = 1 then hook_start tcph sample_flow else Accepted Silent)\<rparr>"

lemma one_known:
  obtains s where "table_ok (fst s) (snd s)" "flows (fst s) (snd s) (flow_key sample_flow) = Some (bytes_sent sample_flow)"
proof -
  have "\<exists>s'. table_insert (fresh_kmalloc two_slots) sample_flow (empty_table, Map.empty) = Inr (True, s') \<and>
      table_ok (fst s') (snd s') \<and>
      flows (fst s') (snd s') = (flows empty_table Map.empty)(flow_key sample_flow \<mapsto> bytes_sent sample_flow)"
    using ft.insert_new [of "(empty_table, Map.empty)" sample_flow two_slots]
    by (simp add: empty_table_ok empty_table_flows fresh_kmalloc_def two_slots_def)
  then show thesis using that by (metis fun_upd_same)
qed

lemma two_packets_start: "table_ok (fst s) (snd s) \<Longrightarrow> smp_start (two_packets tcph s)"
  by (auto simp: smp_start_def two_packets_def)

text \<open>Two data packets of one flow at once: both searches find the entry, both load its count, and both store.\<close>

lemma two_updates:
  obtains t s' where "smp_start (two_packets data_header t)"
    "hook_steps two_slots (two_packets data_header t) s'" "\<And>i. hpc s' i = Accepted Silent"
    "flows (fst t) (snd t) (flow_key sample_flow) = Some (bytes_sent sample_flow)"
proof -
  obtain t where t: "table_ok (fst t) (snd t)"
      "flows (fst t) (snd t) (flow_key sample_flow) = Some (bytes_sent sample_flow)"
    by (rule one_known)
  let ?s = "two_packets data_header t"
  have start: "smp_start ?s" using t(1) by (rule two_packets_start)
  have at: "hpc ?s 0 = Searching sample_flow" "hpc ?s 1 = Searching sample_flow"
    by (simp_all add: two_packets_def hook_start_def data_header_def)
  have ok: "table_ok (stable ?s) (sheap ?s)" and known: "flows (stable ?s) (sheap ?s) (flow_key sample_flow) = Some (bytes_sent sample_flow)"
    using t by (simp_all add: two_packets_def)
  obtain s' where s': "hook_steps two_slots ?s s'" "hpc s' 0 = Accepted Silent" "hpc s' 1 = Accepted Silent"
      "\<forall>k. k \<noteq> 0 \<and> k \<noteq> 1 \<longrightarrow> hpc s' k = hpc ?s k"
    using lost_update [OF ok poisoned_start [OF start] known refl zero_neq_one at, of two_slots] by blast
  have "hpc s' i = Accepted Silent" for i
    using s'(2-4) by (cases "i = 0"; cases "i = 1") (auto simp: two_packets_def)
  then show thesis using that start s'(1) t(2) by blast
qed

text \<open>C3: whatever packets the processors handle and however their steps interleave, as long as no processor
  has crashed - used an entry that another freed or unlinked, after which nothing can be said - the table's
  structure survives: no entry is linked twice, every linked entry is live and in the list of its hash,
  the only other entries in memory belong to one insertion or deletion under way, the lock is held by one
  deletion at most, and once all processors are at rest the linked entries are all there is and
  \<open>num_flows\<close> is their number.\<close>

theorem concurrent_hooks_keep_table:
  assumes "kmalloc_ok kmalloc" and "smp_start s" and "hook_steps kmalloc s s'"
    and "\<forall>i e. hpc s' i \<noteq> Crashed e"
  shows "distinct (concat (buckets s')) \<and>
    (\<forall>a \<in> set (concat (buckets s')). \<exists>e. sheap s' a = Some e \<and> a \<in> set (bucket_of s' e)) \<and>
    dom (sheap s') = set (concat (buckets s')) \<union> owned s' \<and>
    (\<forall>i j f g a b. hpc s' i = Unlinked f a \<and> hpc s' j = Unlinked g b \<longrightarrow> i = j) \<and>
    (lock (stable s') \<longleftrightarrow> (\<exists>i f a. hpc s' i = Unlinked f a)) \<and>
    ((\<forall>i. at_rest (hpc s' i)) \<longrightarrow>
       dom (sheap s') = set (concat (buckets s')) \<and>
       num_flows (stable s') = word_of_nat (length (concat (buckets s'))))"
  using smp_ok_summary [OF hook_steps_smp_ok [OF assms(3,1) smp_start_ok [OF assms(2)]]] .

text \<open>In the example two processors search the same entry at once, both load its count, and both store.\<close>

theorem concurrent_hooks_keep_table_witness:
  "\<exists>s s'. smp_start s \<and> hpc s 0 = hook_start data_header sample_flow \<and> hpc s 1 = hook_start data_header sample_flow \<and>
     hook_steps two_slots s s' \<and> hpc s' 0 = Accepted Silent \<and> hpc s' 1 = Accepted Silent \<and>
     distinct (concat (buckets s')) \<and> dom (sheap s') = set (concat (buckets s')) \<and>
     num_flows (stable s') = word_of_nat (length (concat (buckets s')))"
proof -
  obtain t s' where s': "smp_start (two_packets data_header t)" "hook_steps two_slots (two_packets data_header t) s'"
      "\<And>i. hpc s' i = Accepted Silent"
    by (rule two_updates) blast
  then have "\<forall>i. at_rest (hpc s' i)" and "\<forall>i e. hpc s' i \<noteq> Crashed e" by simp_all
  with concurrent_hooks_keep_table [OF two_slots_ok s'(1,2)]
  have "distinct (concat (buckets s')) \<and> dom (sheap s') = set (concat (buckets s')) \<and>
      num_flows (stable s') = word_of_nat (length (concat (buckets s')))"
    by blast
  then show ?thesis
    using s' by (intro exI [of _ "two_packets data_header t"] exI [of _ s']) (simp add: two_packets_def)
qed

text \<open>C29: a processor that no other disturbs runs \<open>hook_actions\<close>: from a table in good order its steps
  end, with the log line, the table and the heap that the sequential hook computes.\<close>

theorem hook_alone_is_hook_actions:
  assumes "kmalloc_ok kmalloc" and "smp_start s" and "hpc s i = hook_start tcph f"
  shows "\<exists>n t' h'. hook_actions (table_insert kmalloc) table_delete table_search add_bytes tcph f (bytes_sent f)
           (stable s, sheap s) = Inr (n, (t', h')) \<and>
         hook_steps kmalloc s (s\<lparr>stable := t', sheap := h', hpc := (hpc s)(i := Accepted n)\<rparr>)"
  using hook_alone_run [OF assms(1) _ poisoned_start [OF assms(2)] assms(3)] assms(2)
  by (simp only: smp_start_def simp_thms)

theorem hook_alone_is_hook_actions_witness:
  "\<exists>s n. hpc s 0 = hook_start data_header sample_flow \<and>
     (\<exists>s'. hook_steps two_slots s s' \<and> hpc s' 0 = Accepted n)"
proof -
  obtain t where "table_ok (fst t) (snd t)" using one_known by blast
  then have "smp_start (two_packets fin_header t)" by (rule two_packets_start)
  moreover have "hpc (two_packets fin_header t) 0 = hook_start data_header sample_flow"
    by (simp add: two_packets_def)
  ultimately show ?thesis
    using hook_alone_is_hook_actions [OF two_slots_ok, of "two_packets fin_header t" 0 data_header sample_flow]
    by fastforce
qed

text \<open>C14: a data packet and a FIN or RST of the same flow on two processors can make the hook read freed
  memory: the search takes no lock, so the entry it returns can be unlinked and freed before
  \<open>entry->bytes_sent += skb->len\<close>.\<close>

theorem freed_entry_updated:
  assumes "smp_start s" and "flows (stable s) (sheap s) (flow_key f) \<noteq> None" and "flow_key g = flow_key f"
    and "i \<noteq> j" and "hpc s i = hook_start data f" and "hpc s j = hook_start last_one g"
    and "\<not> syn data \<and> \<not> fin data \<and> \<not> rst data" and "\<not> syn last_one \<and> (fin last_one \<or> rst last_one)"
  shows "\<exists>s'. hook_steps kmalloc s s' \<and> hpc s' i = Crashed Use_After_Free \<and> hpc s' j = Accepted (Deleted g)"
proof -
  have "table_ok (stable s) (sheap s)" using assms(1) by (simp add: smp_start_def)
  moreover obtain v where "flows (stable s) (sheap s) (flow_key f) = Some v" using assms(2) by blast
  moreover have "hpc s i = Searching f" "hpc s j = Deleting g"
    using assms(5-8) by (auto simp: hook_start_def)
  ultimately show ?thesis
    using poisoned_start [OF assms(1)] assms(3,4) by (intro free_then_update)
qed

theorem freed_entry_updated_witness:
  "\<exists>s s'. smp_start s \<and> hook_steps two_slots s s' \<and> hpc s' 0 = Crashed Use_After_Free"
proof -
  obtain t where t: "table_ok (fst t) (snd t)" "flows (fst t) (snd t) (flow_key sample_flow) \<noteq> None"
    using one_known by (metis option.distinct(1))
  let ?s = "two_packets fin_header t"
  have s: "smp_start ?s" using t(1) by (rule two_packets_start)
  have "\<exists>s'. hook_steps two_slots ?s s' \<and> hpc s' 0 = Crashed Use_After_Free \<and> hpc s' 1 = Accepted (Deleted sample_flow)"
    using t(2) by (intro freed_entry_updated [OF s, where data = data_header and last_one = fin_header and f = sample_flow])
      (simp_all add: two_packets_def fin_header_def data_header_def)
  then show ?thesis using s by blast
qed

text \<open>C32: two data packets of one flow on two processors can lose bytes: both load the old count, and the
  later store overwrites the earlier, so the flow is credited with one packet only.\<close>

theorem update_lost:
  assumes "smp_start s" and "flows (stable s) (sheap s) (flow_key f) = Some v" and "flow_key g = flow_key f"
    and "i \<noteq> j" and "hpc s i = hook_start tcph f" and "hpc s j = hook_start tcph g"
    and "\<not> syn tcph \<and> \<not> fin tcph \<and> \<not> rst tcph"
  shows "\<exists>s'. hook_steps kmalloc s s' \<and> hpc s' i = Accepted Silent \<and> hpc s' j = Accepted Silent \<and>
           flows (stable s') (sheap s') = (flows (stable s) (sheap s))(flow_key f \<mapsto> v + bytes_sent g)"
proof -
  have "table_ok (stable s) (sheap s)" using assms(1) by (simp add: smp_start_def)
  moreover have "hpc s i = Searching f" "hpc s j = Searching g"
    using assms(5-7) by (auto simp: hook_start_def)
  ultimately show ?thesis
    using poisoned_start [OF assms(1)] assms(2-4) lost_update [of s f v g i j kmalloc] by blast
qed

theorem update_lost_witness:
  "\<exists>s s'. smp_start s \<and> hook_steps two_slots s s' \<and> hpc s' 0 = Accepted Silent \<and> hpc s' 1 = Accepted Silent \<and>
     flows (stable s') (sheap s') (flow_key sample_flow) = Some (bytes_sent sample_flow + bytes_sent sample_flow)"
proof -
  obtain t where t: "table_ok (fst t) (snd t)"
      "flows (fst t) (snd t) (flow_key sample_flow) = Some (bytes_sent sample_flow)"
    by (rule one_known)
  let ?s = "two_packets data_header t"
  have s: "smp_start ?s" using t(1) by (rule two_packets_start)
  have "\<exists>s'. hook_steps two_slots ?s s' \<and> hpc s' 0 = Accepted Silent \<and> hpc s' 1 = Accepted Silent \<and>
      flows (stable s') (sheap s') = (flows (stable ?s) (sheap ?s))(flow_key sample_flow \<mapsto> bytes_sent sample_flow + bytes_sent sample_flow)"
    using t(2) by (intro update_lost [OF s, where tcph = data_header]) (simp_all add: two_packets_def data_header_def)
  then show ?thesis using s by (metis fun_upd_same)
qed

text \<open>C30: while no processor handles a FIN or a RST, no interleaving of insertions, searches and updates
  touches freed memory, and every flow on record stays on record.\<close>

theorem no_crash_without_deletes:
  assumes "kmalloc_ok kmalloc" and "smp_start s" and "hook_steps kmalloc s s'"
    and "\<forall>i tcph f. hpc s i = hook_start tcph f \<longrightarrow> \<not> fin tcph \<and> \<not> rst tcph"
  shows "(\<forall>i e. hpc s' i \<noteq> Crashed e) \<and> dom (flows (stable s) (sheap s)) \<subseteq> dom (flows (stable s') (sheap s'))"
  using assms by (rule undeleted_run)

theorem no_crash_without_deletes_witness:
  "\<exists>s s'. smp_start s \<and> flows (stable s) (sheap s) (flow_key sample_flow) \<noteq> None \<and> hook_steps two_slots s s' \<and>
     (\<forall>i. hpc s' i = Accepted Silent) \<and> (\<forall>i e. hpc s' i \<noteq> Crashed e) \<and>
     flows (stable s') (sheap s') (flow_key sample_flow) \<noteq> None"
proof -
  obtain t s' where s': "smp_start (two_packets data_header t)" "hook_steps two_slots (two_packets data_header t) s'"
      "\<And>i. hpc s' i = Accepted Silent" "flows (fst t) (snd t) (flow_key sample_flow) = Some (bytes_sent sample_flow)"
    by (rule two_updates) blast
  have "\<forall>i tcph f. hpc (two_packets data_header t) i = hook_start tcph f \<longrightarrow> \<not> fin tcph \<and> \<not> rst tcph"
    by (auto simp: two_packets_def hook_start_def data_header_def split: if_splits)
  from no_crash_without_deletes [OF two_slots_ok s'(1,2) this]
  have "dom (flows (fst t) (snd t)) \<subseteq> dom (flows (stable s') (sheap s'))" by (simp add: two_packets_def)
  moreover have "flow_key sample_flow \<in> dom (flows (fst t) (snd t))" using s'(4) by blast
  ultimately have "flows (stable s') (sheap s') (flow_key sample_flow) \<noteq> None" by blast
  then show ?thesis
    using s' by (intro exI [of _ "two_packets data_header t"] exI [of _ s']) (simp add: two_packets_def)
qed

text \<open>C31: the processors never block each other: in every reachable state a processor that has not finished
  its packet can take a step, or waits for the lock, and then the processor that holds the lock can take
  the step that releases it.\<close>

theorem hooks_never_deadlock:
  assumes "kmalloc_ok kmalloc" and "smp_start s" and "hook_steps kmalloc s s'" and "\<not> at_rest (hpc s' i)"
  shows "(\<exists>s''. hook_step kmalloc i s' s'') \<or> (\<exists>j s''. hook_step kmalloc j s' s'' \<and> \<not> lock (stable s''))"
proof -
  have ok: "smp_ok s'" using hook_steps_smp_ok [OF assms(3,1) smp_start_ok [OF assms(2)]] .
  have "inserting s'" using hook_steps_inserting [OF assms(3) smp_start_inserting [OF assms(2)]] .
  from hook_step_enabled [OF ok this assms(4), of kmalloc] show ?thesis
    using lock_holder_moves [OF ok, of kmalloc] by blast
qed

theorem hooks_never_deadlock_witness:
  "\<exists>s. smp_start s \<and>
     ((\<exists>s'. hook_step two_slots 0 s s') \<or> (\<exists>j s'. hook_step two_slots j s s' \<and> \<not> lock (stable s')))"
proof -
  obtain t where t: "table_ok (fst t) (snd t)" using one_known by blast
  let ?s = "two_packets fin_header t"
  have "\<not> at_rest (hpc ?s 0)" by (simp add: two_packets_def hook_start_def data_header_def)
  from hooks_never_deadlock [OF two_slots_ok two_packets_start [OF t] hook_steps.stay this] show ?thesis
    using two_packets_start [OF t] by blast
qed

end
