(* ===== verification/Posix.thy ===== *)
theory Posix
  imports C_Prelude
begin

text \<open>
  What the socket programs use of the operating system.  The system calls are not code of this
  repository: they are the fields of a record \<open>os\<close>, a parameter of every program, over an arbitrary
  state \<open>'w\<close> of the outside world.  \<open>posix\<close> states what POSIX documents of them and the programs
  rely on, in terms of a view \<open>net\<close> of the world: the open descriptors, the bytes sent on each and the
  bytes each will still deliver.  \<open>kernel\<close> is a concrete system that satisfies it, driven by a plan
  of how much each call transfers and which call fails, for evaluating the programs.

  A program that may loop forever returns an \<open>option\<close>: \<open>None\<close> is a run that does not end.
\<close>

subsection \<open>Runs that may fault or not end\<close>

type_synonym 'a run = "(fault + 'a) option"

definition ret :: "'a \<Rightarrow> 'a run" where
  "ret x = Some (Inr x)"

definition stuck :: "fault \<Rightarrow> 'a run" where
  "stuck e = Some (Inl e)"

definition seq :: "'a run \<Rightarrow> ('a \<Rightarrow> 'b run) \<Rightarrow> 'b run" where
  "seq r k = Option.bind r (case_sum stuck k)"

lemma seq_simps [simp]:
  "seq None k = None"
  "seq (stuck e) k = stuck e"
  "seq (ret x) k = k x"
  by (simp_all add: seq_def ret_def stuck_def)

lemma ret_simps [simp]:
  "ret x = ret y \<longleftrightarrow> x = y" "ret x \<noteq> None" "None \<noteq> ret x"
  "ret x \<noteq> stuck e" "stuck e \<noteq> ret x" "stuck e \<noteq> None" "None \<noteq> stuck e"
  "stuck d = stuck e \<longleftrightarrow> d = e"
  by (auto simp: ret_def stuck_def)

lemma seq_ret_iff: "seq r k = ret y \<longleftrightarrow> (\<exists>x. r = ret x \<and> k x = ret y)"
  by (cases r) (auto simp: seq_def ret_def stuck_def split: sum.splits)

lemma seq_assoc: "seq (seq r g) h = seq r (\<lambda>x. seq (g x) h)"
  by (cases r) (auto simp: seq_def stuck_def split: sum.splits)

lemma seq_mono [partial_function_mono]:
  assumes "mono_option r" and "\<And>x. mono_option (\<lambda>f. k x f)"
  shows "mono_option (\<lambda>f. seq (r f) (\<lambda>x. k x f))"
proof -
  have "mono_option (\<lambda>f. case_sum stuck (\<lambda>x. k x f) y)" for y
    using assms(2) by (cases y) (auto intro: monotoneI simp: flat_ord_def)
  then show ?thesis unfolding seq_def by (intro bind_mono assms(1))
qed

subsection \<open>C integers\<close>

definition INT_MAX :: int where "INT_MAX = 2 ^ 31 - 1"

text \<open>The result of signed arithmetic, which must fit.\<close>

definition c_int :: "int \<Rightarrow> int run" where
  "c_int x = (if - INT_MAX - 1 \<le> x \<and> x \<le> INT_MAX then ret x else stuck Signed_Overflow)"

lemma c_int_fits [simp]: "- INT_MAX - 1 \<le> x \<Longrightarrow> x \<le> INT_MAX \<Longrightarrow> c_int x = ret x"
  by (simp add: c_int_def)

text \<open>Conversion to \<open>int\<close> keeps the low 32 bits; \<open>size_t\<close> arithmetic wraps at \<open>2 ^ 64\<close>.\<close>

definition to_int :: "int \<Rightarrow> int" where
  "to_int x = signed_take_bit 31 x"

definition size_t :: "int \<Rightarrow> int" where
  "size_t x = x mod 2 ^ 64"

lemma to_int_id [simp]: "0 \<le> x \<Longrightarrow> x \<le> INT_MAX \<Longrightarrow> to_int x = x"
  by (simp add: to_int_def INT_MAX_def signed_take_bit_int_eq_self)

lemma to_int_neg [simp]: "- (2 ^ 31) \<le> x \<Longrightarrow> x < 0 \<Longrightarrow> to_int x = x"
  by (simp add: to_int_def signed_take_bit_int_eq_self)

lemma to_int_0 [simp]: "to_int 0 = 0"
  by (simp add: to_int_def)

lemma size_t_id [simp]: "0 \<le> x \<Longrightarrow> x < 2 ^ 64 \<Longrightarrow> size_t x = x"
  by (simp add: size_t_def)

subsection \<open>The system calls\<close>

record 'w os =
  read_call :: "int \<Rightarrow> nat \<Rightarrow> 'w \<Rightarrow> (int \<times> u8 list) \<times> 'w"
  write_call :: "int \<Rightarrow> u8 list \<Rightarrow> 'w \<Rightarrow> int \<times> 'w"
  errno_of :: "'w \<Rightarrow> int"
  set_errno :: "int \<Rightarrow> 'w \<Rightarrow> 'w"
  socket_call :: "'w \<Rightarrow> int \<times> 'w"
  setsockopt_call :: "int \<Rightarrow> 'w \<Rightarrow> int \<times> 'w"
  bind_call :: "int \<Rightarrow> u16 \<Rightarrow> 'w \<Rightarrow> int \<times> 'w"
  listen_call :: "int \<Rightarrow> nat \<Rightarrow> 'w \<Rightarrow> int \<times> 'w"
  accept_call :: "int \<Rightarrow> 'w \<Rightarrow> int \<times> 'w"
  connect_call :: "int \<Rightarrow> u32 \<Rightarrow> u16 \<Rightarrow> 'w \<Rightarrow> int \<times> 'w"
  close_call :: "int \<Rightarrow> 'w \<Rightarrow> 'w"
  gettimeofday_call :: "'w \<Rightarrow> (int \<times> int \<times> int) \<times> 'w"

definition EINTR :: int where "EINTR = 4"
definition ECONNRESET :: int where "ECONNRESET = 104"

subsection \<open>What POSIX promises\<close>

record net =
  fds :: "int set"
  sent_on :: "int \<Rightarrow> u8 list"
  coming_on :: "int \<Rightarrow> u8 list"

definition send :: "int \<Rightarrow> u8 list \<Rightarrow> net \<Rightarrow> net" where
  "send fd bs v = v\<lparr>sent_on := (sent_on v)(fd := sent_on v fd @ bs)\<rparr>"

definition receive :: "int \<Rightarrow> nat \<Rightarrow> net \<Rightarrow> net" where
  "receive fd n v = v\<lparr>coming_on := (coming_on v)(fd := drop n (coming_on v fd))\<rparr>"

text \<open>
  \<open>read\<close> fails, or delivers a non-empty prefix of the bytes to come, at most as many as asked for, or
  returns 0 at the end of the stream; Linux transfers at most \<open>0x7ffff000\<close> bytes per call.
\<close>

definition posix_read :: "'w os \<Rightarrow> ('w \<Rightarrow> net) \<Rightarrow> bool" where
  "posix_read os view \<longleftrightarrow> (\<forall>fd n w r bs w'. read_call os fd n w = ((r, bs), w') \<longrightarrow>
     (r = -1 \<and> bs = [] \<and> view w' = view w) \<or>
     (r = int (length bs) \<and> r \<le> 0x7ffff000 \<and> length bs \<le> n \<and>
      bs = take (length bs) (coming_on (view w) fd) \<and>
      (bs = [] \<and> 0 < n \<longrightarrow> coming_on (view w) fd = []) \<and>
      view w' = receive fd (length bs) (view w)))"

text \<open>\<open>write\<close> fails, or sends a prefix of the data and returns its length.\<close>

definition posix_write :: "'w os \<Rightarrow> ('w \<Rightarrow> net) \<Rightarrow> bool" where
  "posix_write os view \<longleftrightarrow> (\<forall>fd data w r w'. write_call os fd data w = (r, w') \<longrightarrow>
     (r = -1 \<and> view w' = view w) \<or>
     (0 \<le> r \<and> r \<le> 0x7ffff000 \<and> r \<le> int (length data) \<and>
      view w' = send fd (take (nat r) data) (view w)))"

text \<open>A call that makes a descriptor fails or returns one that was not open; the streams of a new
  descriptor are its own.\<close>

definition opens_fd :: "('w \<Rightarrow> net) \<Rightarrow> ('w \<Rightarrow> int \<times> 'w) \<Rightarrow> bool" where
  "opens_fd view call \<longleftrightarrow> (\<forall>w r w'. call w = (r, w') \<longrightarrow>
     (r = -1 \<and> view w' = view w) \<or>
     (0 \<le> r \<and> r \<notin> fds (view w) \<and>
      (\<exists>s c. view w' = \<lparr>fds = fds (view w) \<union> {r}, sent_on = (sent_on (view w))(r := s),
                      coming_on = (coming_on (view w))(r := c)\<rparr>)))"

definition keeps_view :: "('w \<Rightarrow> net) \<Rightarrow> ('w \<Rightarrow> int \<times> 'w) \<Rightarrow> bool" where
  "keeps_view view call \<longleftrightarrow> (\<forall>w. view (snd (call w)) = view w)"

definition posix_fds :: "'w os \<Rightarrow> ('w \<Rightarrow> net) \<Rightarrow> bool" where
  "posix_fds os view \<longleftrightarrow>
     opens_fd view (socket_call os) \<and> (\<forall>fd. opens_fd view (accept_call os fd)) \<and>
     (\<forall>fd. keeps_view view (setsockopt_call os fd)) \<and>
     (\<forall>fd p. keeps_view view (bind_call os fd p)) \<and>
     (\<forall>fd n. keeps_view view (listen_call os fd n)) \<and>
     (\<forall>fd a p. keeps_view view (connect_call os fd a p)) \<and>
     (\<forall>fd w. view (close_call os fd w) = (view w)\<lparr>fds := fds (view w) - {fd}\<rparr>) \<and>
     (\<forall>w. view (snd (gettimeofday_call os w)) = view w)"

definition posix :: "'w os \<Rightarrow> ('w \<Rightarrow> net) \<Rightarrow> bool" where
  "posix os view \<longleftrightarrow> posix_read os view \<and> posix_write os view \<and> posix_fds os view"

text \<open>
  Only finitely many calls are interrupted by a signal: \<open>m\<close> bounds how many are still to come.
\<close>

definition finite_signals :: "'w os \<Rightarrow> ('w \<Rightarrow> nat) \<Rightarrow> bool" where
  "finite_signals os m \<longleftrightarrow>
     (\<forall>fd n w r bs w'. read_call os fd n w = ((r, bs), w') \<longrightarrow>
        m w' \<le> m w \<and> (r = -1 \<and> errno_of os w' = EINTR \<longrightarrow> m w' < m w)) \<and>
     (\<forall>fd data w r w'. write_call os fd data w = (r, w') \<longrightarrow>
        m w' \<le> m w \<and> (r = -1 \<and> errno_of os w' = EINTR \<longrightarrow> m w' < m w))"

text \<open>No call on \<open>fd\<close> fails.\<close>

definition reliable :: "'w os \<Rightarrow> int \<Rightarrow> bool" where
  "reliable os fd \<longleftrightarrow>
     (\<forall>n w. fst (fst (read_call os fd n w)) \<noteq> -1) \<and>
     (\<forall>data w. data \<noteq> [] \<longrightarrow> 0 < fst (write_call os fd data w))"

lemma posixD [dest]:
  "posix os view \<Longrightarrow> posix_read os view"
  "posix os view \<Longrightarrow> posix_write os view"
  "posix os view \<Longrightarrow> posix_fds os view"
  by (simp_all add: posix_def)

lemma posix_readE:
  assumes "posix_read os view" and "read_call os fd n w = ((r, bs), w')"
  obtains (failed) "r = -1" "bs = []" "view w' = view w"
  | (delivered) "r = int (length bs)" "r \<le> 0x7ffff000" "length bs \<le> n"
      "bs = take (length bs) (coming_on (view w) fd)"
      "bs = [] \<Longrightarrow> 0 < n \<Longrightarrow> coming_on (view w) fd = []"
      "view w' = receive fd (length bs) (view w)"
  using assms unfolding posix_read_def by blast

lemma posix_writeE:
  assumes "posix_write os view" and "write_call os fd data w = (r, w')"
  obtains (failed) "r = -1" "view w' = view w"
  | (written) "0 \<le> r" "r \<le> 0x7ffff000" "r \<le> int (length data)"
      "view w' = send fd (take (nat r) data) (view w)"
  using assms unfolding posix_write_def by blast

lemma keeps_viewD: "keeps_view view call \<Longrightarrow> call w = (r, w') \<Longrightarrow> view w' = view w"
  unfolding keeps_view_def by (metis snd_conv)

lemma opens_fdD:
  "opens_fd view call \<Longrightarrow> call w = (r, w') \<Longrightarrow>
   r = -1 \<and> view w' = view w \<or>
   0 \<le> r \<and> r \<notin> fds (view w) \<and> fds (view w') = fds (view w) \<union> {r} \<and>
   (\<forall>fd. fd \<noteq> r \<longrightarrow> sent_on (view w') fd = sent_on (view w) fd \<and> coming_on (view w') fd = coming_on (view w) fd)"
  unfolding opens_fd_def by fastforce

lemma posix_calls:
  assumes "posix os view"
  shows "opens_fd view (socket_call os)" "opens_fd view (accept_call os fd)"
    "keeps_view view (setsockopt_call os fd)" "keeps_view view (bind_call os fd p)"
    "keeps_view view (listen_call os fd n)" "keeps_view view (connect_call os fd a p)"
    "view (close_call os fd w) = (view w)\<lparr>fds := fds (view w) - {fd}\<rparr>"
    "view (snd (gettimeofday_call os w)) = view w"
  using assms by (simp_all add: posix_def posix_fds_def)

lemma send_simps [simp]:
  "fds (send fd bs v) = fds v" "coming_on (send fd bs v) = coming_on v"
  "sent_on (send fd bs v) = (sent_on v)(fd := sent_on v fd @ bs)"
  "send fd bs (send fd cs v) = send fd (cs @ bs) v" "send fd [] v = v"
  by (simp_all add: send_def)

lemma receive_simps [simp]:
  "fds (receive fd n v) = fds v" "sent_on (receive fd n v) = sent_on v"
  "coming_on (receive fd n v) = (coming_on v)(fd := drop n (coming_on v fd))"
  "receive fd n (receive fd k v) = receive fd (k + n) v" "receive fd 0 v = v"
  by (simp_all add: receive_def add.commute)

lemma send_receive: "send fd bs (receive fd' n v) = receive fd' n (send fd bs v)"
  by (simp add: send_def receive_def)

subsection \<open>A kernel to run the programs on\<close>

text \<open>
  Each \<open>read\<close> or \<open>write\<close> takes the next entry of \<open>plan\<close>: \<open>- e\<close> makes the call fail with error \<open>e\<close>, a
  positive \<open>n\<close> lets it transfer at most \<open>n\<close> bytes; without an entry it transfers what it can.  New
  connections deliver the streams of \<open>callers\<close>, in order.
\<close>

record kernel =
  knet :: net
  kerrno :: int
  plan :: "int list"
  next_fd :: int
  callers :: "u8 list list"

definition planned :: "nat \<Rightarrow> int list \<Rightarrow> nat" where
  "planned n p = (case p of [] \<Rightarrow> min n 0x7ffff000 | x # _ \<Rightarrow> min n (min (nat (max 1 x)) 0x7ffff000))"

definition planned_error :: "int list \<Rightarrow> bool" where
  "planned_error p = (case p of [] \<Rightarrow> False | x # _ \<Rightarrow> x < 0)"

definition kernel_read :: "int \<Rightarrow> nat \<Rightarrow> kernel \<Rightarrow> (int \<times> u8 list) \<times> kernel" where
  "kernel_read fd n k =
     (let k' = k\<lparr>plan := tl (plan k)\<rparr> in
      if planned_error (plan k) then ((-1, []), k'\<lparr>kerrno := - hd (plan k)\<rparr>)
      else let bs = take (planned n (plan k)) (coming_on (knet k) fd)
           in ((int (length bs), bs), k'\<lparr>knet := receive fd (length bs) (knet k)\<rparr>))"

definition kernel_write :: "int \<Rightarrow> u8 list \<Rightarrow> kernel \<Rightarrow> int \<times> kernel" where
  "kernel_write fd data k =
     (let k' = k\<lparr>plan := tl (plan k)\<rparr> in
      if planned_error (plan k) then (-1, k'\<lparr>kerrno := - hd (plan k)\<rparr>)
      else let n = planned (length data) (plan k)
           in (int n, k'\<lparr>knet := send fd (take n data) (knet k)\<rparr>))"

definition kernel_new_fd :: "u8 list \<Rightarrow> kernel \<Rightarrow> int \<times> kernel" where
  "kernel_new_fd stream k =
     (if next_fd k < 0 \<or> next_fd k \<in> fds (knet k) then (-1, k)
      else (next_fd k,
        k\<lparr>next_fd := next_fd k + 1,
          knet := \<lparr>fds = fds (knet k) \<union> {next_fd k},
                   sent_on = (sent_on (knet k))(next_fd k := []),
                   coming_on = (coming_on (knet k))(next_fd k := stream)\<rparr>\<rparr>))"

definition kernel_accept :: "int \<Rightarrow> kernel \<Rightarrow> int \<times> kernel" where
  "kernel_accept fd k =
     (case callers k of [] \<Rightarrow> (-1, k) | c # cs \<Rightarrow> kernel_new_fd c (k\<lparr>callers := cs\<rparr>))"

definition kernel_socket :: "kernel \<Rightarrow> int \<times> kernel" where
  "kernel_socket k = kernel_new_fd (case callers k of [] \<Rightarrow> [] | c # _ \<Rightarrow> c) k"

definition kernel_close :: "int \<Rightarrow> kernel \<Rightarrow> kernel" where
  "kernel_close fd k = k\<lparr>knet := (knet k)\<lparr>fds := fds (knet k) - {fd}\<rparr>\<rparr>"

definition linux :: "kernel os" where
  "linux =
     \<lparr>read_call = kernel_read, write_call = kernel_write, errno_of = kerrno,
      set_errno = (\<lambda>e k. k\<lparr>kerrno := e\<rparr>), socket_call = kernel_socket,
      setsockopt_call = (\<lambda>_ k. (0, k)), bind_call = (\<lambda>_ _ k. (0, k)),
      listen_call = (\<lambda>_ _ k. (0, k)), accept_call = kernel_accept,
      connect_call = (\<lambda>_ _ _ k. (0, k)), close_call = kernel_close,
      gettimeofday_call = (\<lambda>k. ((0, 0, 0), k))\<rparr>"

lemma linux_simps [simp]:
  "read_call linux = kernel_read" "write_call linux = kernel_write" "errno_of linux = kerrno"
  "set_errno linux e k = k\<lparr>kerrno := e\<rparr>" "socket_call linux = kernel_socket"
  "setsockopt_call linux fd k = (0, k)" "bind_call linux fd p k = (0, k)"
  "listen_call linux fd n k = (0, k)" "accept_call linux = kernel_accept"
  "connect_call linux fd a p k = (0, k)" "close_call linux = kernel_close"
  "gettimeofday_call linux k = ((0, 0, 0), k)"
  by (simp_all add: linux_def)

lemma planned_le: "planned n p \<le> n" "planned n p \<le> 0x7ffff000" "0 < n \<Longrightarrow> 0 < planned n p"
  by (auto simp: planned_def split: list.split)

lemma linux_posix_read: "posix_read linux knet"
proof -
  have "\<And>n p xs. int (length (take (planned n p) xs)) \<le> 0x7ffff000 \<and> length (take (planned n p) xs) \<le> n"
    using planned_le(1,2) by (auto simp: min_def intro: order_trans)
  moreover have "\<And>n p xs. 0 < n \<Longrightarrow> take (planned n p) xs = [] \<Longrightarrow> xs = []"
    using planned_le(3) by (metis less_nat_zero_code take_eq_Nil)
  ultimately show ?thesis
    by (auto simp: posix_read_def kernel_read_def Let_def take_eq_Nil min.commute simp del: length_take take_eq_Nil
        split: if_splits) (simp add: min_def)+
qed

lemma linux_posix_write: "posix_write linux knet"
  using planned_le by (auto simp: posix_write_def kernel_write_def Let_def split: if_splits)

lemma linux_posix_fds: "posix_fds linux knet"
  by (auto simp: posix_fds_def opens_fd_def keeps_view_def kernel_socket_def kernel_accept_def
      kernel_new_fd_def kernel_close_def split: list.splits if_splits)

lemma linux_posix: "posix linux knet"
  by (simp add: posix_def linux_posix_read linux_posix_write linux_posix_fds)

lemma linux_finite_signals: "finite_signals linux (\<lambda>k. length (plan k))"
  by (auto simp: finite_signals_def kernel_read_def kernel_write_def Let_def planned_error_def
      split: if_splits list.splits)

text \<open>A kernel with five bytes to deliver on every descriptor and a plan that fails the second call.\<close>

definition demo_kernel :: kernel where
  "demo_kernel =
     \<lparr>knet = \<lparr>fds = {}, sent_on = (\<lambda>_. []), coming_on = (\<lambda>_. [1, 2, 3, 4, 5])\<rparr>,
      kerrno = 0, plan = [2, -4, 1], next_fd = 3, callers = []\<rparr>"

text \<open>The same kernel where no transfer fails: it ignores the plan.\<close>

definition steady :: "kernel os" where
  "steady = linux\<lparr>read_call := \<lambda>fd n k. kernel_read fd n (k\<lparr>plan := []\<rparr>),
                  write_call := \<lambda>fd data k. kernel_write fd data (k\<lparr>plan := []\<rparr>)\<rparr>"

lemma steady_simps [simp]:
  "read_call steady fd n k = kernel_read fd n (k\<lparr>plan := []\<rparr>)"
  "write_call steady fd data k = kernel_write fd data (k\<lparr>plan := []\<rparr>)"
  "socket_call steady = kernel_socket" "accept_call steady = kernel_accept"
  "errno_of steady = kerrno" "close_call steady = kernel_close"
  by (simp_all add: steady_def)

lemma steady_posix: "posix steady knet"
proof -
  have "posix_read steady knet"
    unfolding posix_read_def
  proof (intro allI)
    fix fd n w r bs w'
    show "read_call steady fd n w = ((r, bs), w') \<longrightarrow>
       (r = -1 \<and> bs = [] \<and> knet w' = knet w) \<or>
       (r = int (length bs) \<and> r \<le> 0x7ffff000 \<and> length bs \<le> n \<and>
        bs = take (length bs) (coming_on (knet w) fd) \<and>
        (bs = [] \<and> 0 < n \<longrightarrow> coming_on (knet w) fd = []) \<and>
        knet w' = receive fd (length bs) (knet w))"
      using linux_posix_read [unfolded posix_read_def, rule_format, of fd n "w\<lparr>plan := []\<rparr>" r bs w'] by simp
  qed
  moreover have "posix_write steady knet"
    unfolding posix_write_def
  proof (intro allI)
    fix fd data w r w'
    show "write_call steady fd data w = (r, w') \<longrightarrow>
       (r = -1 \<and> knet w' = knet w) \<or>
       (0 \<le> r \<and> r \<le> 0x7ffff000 \<and> r \<le> int (length data) \<and>
        knet w' = send fd (take (nat r) data) (knet w))"
      using linux_posix_write [unfolded posix_write_def, rule_format, of fd data "w\<lparr>plan := []\<rparr>" r w'] by simp
  qed
  moreover have "posix_fds steady knet"
    using linux_posix_fds by (simp add: posix_fds_def steady_def)
  ultimately show ?thesis by (simp add: posix_def)
qed

lemma steady_reliable: "reliable steady fd"
  by (simp add: reliable_def kernel_read_def kernel_write_def planned_error_def Let_def planned_le(3))

lemma steady_finite_signals: "finite_signals steady (\<lambda>k. 0)"
  unfolding finite_signals_def
  by (auto simp: kernel_read_def kernel_write_def planned_error_def Let_def)

definition streaming :: "u8 list \<Rightarrow> kernel" where
  "streaming bs = demo_kernel\<lparr>knet := (knet demo_kernel)\<lparr>coming_on := \<lambda>_. bs\<rparr>\<rparr>"

lemma streaming_coming [simp]: "coming_on (knet (streaming bs)) fd = bs"
  by (simp add: streaming_def)

text \<open>The kernel with a limit: no process has a descriptor from \<open>n\<close> on.\<close>

definition below :: "nat \<Rightarrow> kernel \<Rightarrow> net" where
  "below n k = (knet k)\<lparr>fds := fds (knet k) \<inter> {0..<int n}\<rparr>"

definition limited :: "nat \<Rightarrow> kernel os" where
  "limited n = linux\<lparr>socket_call := \<lambda>k. if next_fd k < int n then kernel_socket k else (-1, k),
                     accept_call := \<lambda>fd k. if next_fd k < int n then kernel_accept fd k else (-1, k)\<rparr>"

lemma below_transfers [simp]:
  "(receive fd i v)\<lparr>fds := X\<rparr> = receive fd i (v\<lparr>fds := X\<rparr>)" "(send fd bs v)\<lparr>fds := X\<rparr> = send fd bs (v\<lparr>fds := X\<rparr>)"
  by (simp_all add: receive_def send_def)

lemma limited_posix: "posix (limited n) (below n)"
proof -
  have "posix_read (limited n) (below n)"
    unfolding posix_read_def
  proof (intro allI impI)
    fix fd k w r bs w'
    assume "read_call (limited n) fd k w = ((r, bs), w')"
    then have "read_call linux fd k w = ((r, bs), w')" by (simp add: limited_def)
    with linux_posix_read show "(r = -1 \<and> bs = [] \<and> below n w' = below n w) \<or>
       (r = int (length bs) \<and> r \<le> 0x7ffff000 \<and> length bs \<le> k \<and>
        bs = take (length bs) (coming_on (below n w) fd) \<and>
        (bs = [] \<and> 0 < k \<longrightarrow> coming_on (below n w) fd = []) \<and>
        below n w' = receive fd (length bs) (below n w))"
      by (cases rule: posix_readE) (simp_all add: below_def)
  qed
  moreover have "posix_write (limited n) (below n)"
    unfolding posix_write_def
  proof (intro allI impI)
    fix fd data w r w'
    assume "write_call (limited n) fd data w = (r, w')"
    then have "write_call linux fd data w = (r, w')" by (simp add: limited_def)
    with linux_posix_write show "(r = -1 \<and> below n w' = below n w) \<or>
       (0 \<le> r \<and> r \<le> 0x7ffff000 \<and> r \<le> int (length data) \<and>
        below n w' = send fd (take (nat r) data) (below n w))"
      by (cases rule: posix_writeE) (simp_all add: below_def)
  qed
  moreover have "posix_fds (limited n) (below n)"
    by (auto simp: posix_fds_def opens_fd_def keeps_view_def limited_def below_def kernel_socket_def
        kernel_accept_def kernel_new_fd_def kernel_close_def Int_commute [of _ "{0..<int n}"] Int_Diff
        split: list.splits if_splits)
  ultimately show ?thesis by (simp add: posix_def)
qed

lemma limited_finite_signals: "finite_signals (limited n) (\<lambda>k. length (plan k))"
  using linux_finite_signals by (simp add: finite_signals_def limited_def)

end
