(* ===== verification/Exact_Io.thy ===== *)
theory Exact_Io
  imports Posix
begin

text \<open>
  The loops that move an exact number of bytes: \<open>write_exact\<close> and \<open>read_exact\<close> of
  \<^verbatim>\<open>simple-traffic-gen/common.c\<close>, and \<open>readn\<close> and \<open>writen\<close> of \<^verbatim>\<open>echo-server/unp.h\<close> (copied
  verbatim into both event-driven servers).  A pointer into a buffer is the buffer and an offset;
  handing the kernel a range that leaves the buffer is the fault \<open>Out_Of_Bounds\<close>.  Two interfaces
  say what their callers rely on: \<open>exact_writer\<close> and \<open>exact_reader\<close>.
\<close>

subsection \<open>The traffic generator's loops\<close>

partial_function (option) write_loop ::
  "'w os \<Rightarrow> int \<Rightarrow> u8 list \<Rightarrow> int \<Rightarrow> bool \<Rightarrow> int \<Rightarrow> int \<Rightarrow> 'w \<Rightarrow> (int \<times> 'w) run" where
  "write_loop os fd buf max_per_write dummy_buf cnt bytes_written w =
     (if cnt > 0 then
        let bytes_to_write = (if cnt > max_per_write then max_per_write else cnt);
            cur_buf = (if dummy_buf then 0 else bytes_written)
        in if cur_buf + bytes_to_write > int (length buf) then stuck Out_Of_Bounds
           else let (r, w) = write_call os fd (take (nat bytes_to_write) (drop (nat cur_buf) buf)) w;
                    n = to_int r
                in if n \<le> 0 then ret (bytes_written, w)
                   else write_loop os fd buf max_per_write dummy_buf
                          (size_t (cnt - n)) (size_t (bytes_written + n)) w
      else ret (bytes_written, w))"

definition write_exact ::
  "'w os \<Rightarrow> int \<Rightarrow> u8 list option \<Rightarrow> int \<Rightarrow> int \<Rightarrow> bool \<Rightarrow> 'w \<Rightarrow> (int \<times> 'w) run" where
  "write_exact os fd buf cnt max_per_write dummy_buf w =
     (case buf of None \<Rightarrow> ret (0, w)
      | Some b \<Rightarrow> write_loop os fd b max_per_write dummy_buf cnt 0 w)"

text \<open>The kernel puts the bytes it delivers into the buffer.\<close>

definition store :: "u8 list \<Rightarrow> nat \<Rightarrow> u8 list \<Rightarrow> u8 list" where
  "store buf pos bs = take pos buf @ bs @ drop (pos + length bs) buf"

partial_function (option) read_loop ::
  "'w os \<Rightarrow> int \<Rightarrow> u8 list \<Rightarrow> int \<Rightarrow> bool \<Rightarrow> int \<Rightarrow> int \<Rightarrow> 'w \<Rightarrow> (int \<times> u8 list \<times> 'w) run" where
  "read_loop os fd buf max_per_read dummy_buf cnt bytes_read w =
     (if cnt > 0 then
        let bytes_to_read = (if cnt > max_per_read then max_per_read else cnt);
            cur_buf = (if dummy_buf then 0 else bytes_read)
        in if cur_buf + bytes_to_read > int (length buf) then stuck Out_Of_Bounds
           else let ((r, bs), w) = read_call os fd (nat bytes_to_read) w;
                    buf = store buf (nat cur_buf) bs;
                    n = to_int r
                in if n \<le> 0 then ret (bytes_read, buf, w)
                   else read_loop os fd buf max_per_read dummy_buf
                          (size_t (cnt - n)) (size_t (bytes_read + n)) w
      else ret (bytes_read, buf, w))"

definition read_exact ::
  "'w os \<Rightarrow> int \<Rightarrow> u8 list option \<Rightarrow> int \<Rightarrow> int \<Rightarrow> bool \<Rightarrow> 'w \<Rightarrow> (int \<times> u8 list option \<times> 'w) run" where
  "read_exact os fd buf cnt max_per_read dummy_buf w =
     (case buf of None \<Rightarrow> ret (0, None, w)
      | Some b \<Rightarrow> seq (read_loop os fd b max_per_read dummy_buf cnt 0 w)
                    (\<lambda>(n, b, w). ret (n, Some b, w)))"

subsection \<open>The echo server's loops\<close>

text \<open>\<open>errno = EINTR\<close> in \<open>readn\<close> is an assignment, and its value decides the branch.\<close>

partial_function (option) readn_loop ::
  "'w os \<Rightarrow> int \<Rightarrow> int \<Rightarrow> u8 list \<Rightarrow> nat \<Rightarrow> int \<Rightarrow> 'w \<Rightarrow> (int \<times> u8 list \<times> 'w) run" where
  "readn_loop os fd n buf ptr nleft w =
     (if nleft > 0 then
        if ptr + nat nleft > length buf then stuck Out_Of_Bounds
        else let ((nread, bs), w) = read_call os fd (nat nleft) w; buf = store buf ptr bs in
          if nread < 0 then
            let w = set_errno os EINTR w in
            if EINTR \<noteq> 0 then
              let nread = 0 in readn_loop os fd n buf (ptr + nat nread) (nleft - nread) w
            else ret (-1, buf, w)
          else if nread = 0 then ret (n - nleft, buf, w)
          else readn_loop os fd n buf (ptr + nat nread) (nleft - nread) w
      else ret (n - nleft, buf, w))"

definition readn :: "'w os \<Rightarrow> int \<Rightarrow> u8 list \<Rightarrow> int \<Rightarrow> 'w \<Rightarrow> (int \<times> u8 list \<times> 'w) run" where
  "readn os fd buf n w = readn_loop os fd n buf 0 n w"

partial_function (option) writen_loop ::
  "'w os \<Rightarrow> int \<Rightarrow> int \<Rightarrow> u8 list \<Rightarrow> nat \<Rightarrow> int \<Rightarrow> 'w \<Rightarrow> (int \<times> 'w) run" where
  "writen_loop os fd n buf ptr nleft w =
     (if nleft > 0 then
        if ptr + nat nleft > length buf then stuck Out_Of_Bounds
        else let (nwritten, w) = write_call os fd (take (nat nleft) (drop ptr buf)) w in
          if nwritten \<le> 0 then
            if nwritten < 0 \<and> errno_of os w = EINTR then
              let nwritten = 0 in writen_loop os fd n buf (ptr + nat nwritten) (nleft - nwritten) w
            else ret (-1, w)
          else writen_loop os fd n buf (ptr + nat nwritten) (nleft - nwritten) w
      else ret (n, w))"

definition writen :: "'w os \<Rightarrow> int \<Rightarrow> u8 list \<Rightarrow> int \<Rightarrow> 'w \<Rightarrow> (int \<times> 'w) run" where
  "writen os fd buf n w = writen_loop os fd n buf 0 n w"

lemmas [loop_eqs] = write_loop.simps read_loop.simps readn_loop.simps writen_loop.simps

subsection \<open>What the loops do\<close>

definition repeats :: "u8 list \<Rightarrow> u8 list \<Rightarrow> bool" where
  "repeats buf data \<longleftrightarrow> (\<exists>ns. data = concat (map (\<lambda>n. take n buf) ns))"

lemma repeats_Nil [simp]: "repeats buf []"
  unfolding repeats_def by (rule exI [of _ "[]"]) simp

lemma repeats_append: "repeats buf data \<Longrightarrow> repeats buf (take n buf @ data)"
  unfolding repeats_def by clarify (rule_tac x = "n # ns" in exI, simp)

lemma repeats_zeros: "repeats (replicate n x) data \<Longrightarrow> data = replicate (length data) x"
proof -
  have "set (concat (map (\<lambda>m. take m (replicate n x)) ns)) \<subseteq> {x}" for ns
    by (induction ns) auto
  then show "repeats (replicate n x) data \<Longrightarrow> data = replicate (length data) x"
    by (auto simp: repeats_def intro!: replicate_eqI)
qed

definition short_write :: "'w os \<Rightarrow> int \<Rightarrow> bool" where
  "short_write os fd \<longleftrightarrow> (\<exists>data w. data \<noteq> [] \<and> fst (write_call os fd data w) \<le> 0)"

text \<open>
  \<open>written_from\<close>: what a run of \<open>write_exact\<close>'s loop has achieved when it has sent \<open>data\<close>, with \<open>cnt\<close> bytes to go and
  \<open>written\<close> behind it.
\<close>

definition written_from ::
  "'w os \<Rightarrow> ('w \<Rightarrow> net) \<Rightarrow> int \<Rightarrow> u8 list \<Rightarrow> bool \<Rightarrow> int \<Rightarrow> int \<Rightarrow> 'w \<Rightarrow> u8 list \<Rightarrow> 'w \<Rightarrow> bool" where
  "written_from os view fd buf dummy cnt written w data w' \<longleftrightarrow>
     int (length data) \<le> cnt \<and> view w' = send fd data (view w) \<and>
     (if dummy then repeats buf data else data = take (length data) (drop (nat written) buf)) \<and>
     (int (length data) < cnt \<longrightarrow> short_write os fd) \<and> (\<forall>m. finite_signals os m \<longrightarrow> m w' \<le> m w)"

lemma written_from_append:
  assumes rest: "written_from os view fd buf dummy (cnt - int n) (written + int n) v data w'"
    and first: "bs = take n (drop (if dummy then 0 else nat written) buf)" "length bs = n" "0 \<le> written"
    and sent: "view v = send fd bs (view w)" "\<forall>m. finite_signals os m \<longrightarrow> m v \<le> m w"
  shows "written_from os view fd buf dummy cnt written w (bs @ data) w'"
proof -
  note r = rest [unfolded written_from_def]
  have "if dummy then repeats buf (bs @ data) else bs @ data = take (length (bs @ data)) (drop (nat written) buf)"
  proof (cases dummy)
    case True
    then show ?thesis using r repeats_append [of buf data n] first(1) by simp
  next
    case False
    have "nat (written + int n) = n + nat written" using first(3) by simp
    then have "drop (nat (written + int n)) buf = drop n (drop (nat written) buf)" by simp
    with False r have "data = take (length data) (drop n (drop (nat written) buf))" by simp
    then show ?thesis using False first by (simp add: take_add)
  qed
  moreover have "\<forall>m. finite_signals os m \<longrightarrow> m w' \<le> m w" using r sent(2) order_trans by blast
  ultimately show ?thesis using r sent(1) first(2) by (simp add: written_from_def)
qed

lemma write_loop_step:
  assumes "0 < cnt" and "(if dummy then 0 else written) + min cnt maxw \<le> int (length buf)"
    and "write_call os fd (take (nat (min cnt maxw)) (drop (nat (if dummy then 0 else written)) buf)) w = (r, w1)"
  shows "write_loop os fd buf maxw dummy cnt written w =
    (if to_int r \<le> 0 then ret (written, w1)
     else write_loop os fd buf maxw dummy (size_t (cnt - to_int r)) (size_t (written + to_int r)) w1)"
proof -
  have bytes: "(if cnt > maxw then maxw else cnt) = min cnt maxw" by simp
  show ?thesis using assms by (subst write_loop.simps, unfold bytes) (simp add: Let_def)
qed

lemma write_loop_result:
  assumes "posix_write os view"
  shows "0 \<le> cnt \<Longrightarrow> 0 \<le> written \<Longrightarrow> written + cnt < 2 ^ 64 \<Longrightarrow> 0 < maxw \<Longrightarrow>
    (if dummy then min cnt maxw else written + cnt) \<le> int (length buf) \<Longrightarrow>
    \<exists>data w'. write_loop os fd buf maxw dummy cnt written w = ret (written + int (length data), w') \<and>
      written_from os view fd buf dummy cnt written w data w'"
proof (induction "nat cnt" arbitrary: cnt written w rule: less_induct)
  case less
  show ?case
  proof (cases "cnt = 0")
    case True
    then show ?thesis
      by (intro exI [of _ "[]"] exI [of _ w]) (simp add: write_loop.simps written_from_def)
  next
    case False
    define len where "len = min cnt maxw"
    define off where "off = (if dummy then 0 else written)"
    define chunk where "chunk = take (nat len) (drop (nat off) buf)"
    have pos: "0 < cnt" "0 < len" "0 \<le> off" "len \<le> cnt" and fits: "off + len \<le> int (length buf)"
      using False less.prems by (auto simp: len_def off_def min_def split: if_splits)
    have chunk: "length chunk = nat len" "chunk \<noteq> []" using pos fits by (auto simp: chunk_def)
    obtain r w1 where call: "write_call os fd chunk w = (r, w1)" by fastforce
    note step = write_loop_step [OF pos(1), of dummy written maxw buf os fd w r w1,
        folded off_def len_def, folded chunk_def, OF fits call]
    have mono: "\<forall>m. finite_signals os m \<longrightarrow> m w1 \<le> m w" using call by (auto simp: finite_signals_def)
    have stops: ?thesis if "r \<le> 0" "view w1 = view w"
    proof -
      have "short_write os fd" using that(1) chunk(2) call unfolding short_write_def by (metis fst_conv)
      moreover have "to_int r \<le> 0" using that(1) assms call by (auto elim!: posix_writeE)
      ultimately show ?thesis using that(2) mono less.prems(1)
        by (intro exI [of _ "[]"] exI [of _ w1]) (simp add: step written_from_def)
    qed
    from assms call show ?thesis
    proof (cases rule: posix_writeE)
      case failed
      then show ?thesis by (intro stops) simp_all
    next
      case written
      show ?thesis
      proof (cases "r = 0")
        case True
        then show ?thesis using written by (intro stops) simp_all
      next
        case False
        then have r: "0 < r" "r \<le> len" "to_int r = r" "int (nat r) = r"
          using written chunk pos(2) by (simp_all add: INT_MAX_def)
        have wrap: "size_t (cnt - r) = cnt - r" "size_t (written + r) = written + r" and less': "nat (cnt - r) < nat cnt"
          using r pos less.prems by auto
        have "(if dummy then min (cnt - r) maxw else written + r + (cnt - r)) \<le> int (length buf)"
          using less.prems r by (auto split: if_splits)
        then obtain data w' where rest:
          "write_loop os fd buf maxw dummy (cnt - r) (written + r) w1 = ret (written + r + int (length data), w')"
          "written_from os view fd buf dummy (cnt - r) (written + r) w1 data w'"
          using less.hyps [OF less', of "written + r" w1] less.prems r pos by auto
        have first: "take (nat r) chunk = take (nat r) (drop (nat off) buf)" "length (take (nat r) chunk) = nat r"
          using r chunk(1) by (simp_all add: chunk_def min_absorb1 nat_mono)
        have "take (nat r) chunk = take (nat r) (drop (if dummy then 0 else nat written) buf)"
          using first(1) by (simp add: off_def)
        then have "written_from os view fd buf dummy cnt written w (take (nat r) chunk @ data) w'"
          using rest(2) r(4) first(2) written(4) mono less.prems(2)
          by (intro written_from_append [where n = "nat r" and v = w1]) simp_all
        moreover have "write_loop os fd buf maxw dummy cnt written w = ret (written + int (length (take (nat r) chunk @ data)), w')"
          using r rest(1) first(2) by (simp add: step wrap)
        ultimately show ?thesis by blast
      qed
    qed
  qed
qed

lemma store_simps [simp]:
  "store buf p [] = buf"
  "p + length bs \<le> length buf \<Longrightarrow> length (store buf p bs) = length buf"
  "p + length as + length bs \<le> length buf \<Longrightarrow> store (store buf p as) (p + length as) bs = store buf p (as @ bs)"
  by (simp_all add: store_def add.assoc add.commute add.left_commute)

definition failed_read :: "'w os \<Rightarrow> int \<Rightarrow> bool" where
  "failed_read os fd \<longleftrightarrow> (\<exists>n w. fst (fst (read_call os fd n w)) = -1)"

lemma reliableD:
  "reliable os fd \<Longrightarrow> \<not> failed_read os fd" "reliable os fd \<Longrightarrow> \<not> short_write os fd"
  unfolding reliable_def failed_read_def short_write_def by (blast, meson not_le)

lemma take_take_drop: "take m xs @ take n (drop m xs) = take (m + n) xs"
  by (simp add: take_add)

text \<open>\<open>read_into\<close>: the same for \<open>read_exact\<close>'s loop and the bytes that it has read.\<close>

definition read_into ::
  "'w os \<Rightarrow> ('w \<Rightarrow> net) \<Rightarrow> int \<Rightarrow> u8 list \<Rightarrow> bool \<Rightarrow> int \<Rightarrow> int \<Rightarrow> 'w \<Rightarrow> u8 list \<Rightarrow> u8 list \<Rightarrow> 'w \<Rightarrow> bool" where
  "read_into os view fd buf dummy cnt got w data buf' w' \<longleftrightarrow>
     int (length data) \<le> cnt \<and> data = take (length data) (coming_on (view w) fd) \<and>
     view w' = receive fd (length data) (view w) \<and> length buf' = length buf \<and>
     (\<not> dummy \<longrightarrow> buf' = store buf (nat got) data) \<and>
     (int (length data) < cnt \<longrightarrow> coming_on (view w') fd = [] \<or> failed_read os fd)"

lemma read_into_append:
  assumes rest: "read_into os view fd (store buf off bs) dummy (cnt - int (length bs)) (got + int (length bs)) w1 data buf' w'"
    and off: "off = (if dummy then 0 else nat got)" "0 \<le> got" "off + length bs \<le> length buf"
      "\<not> dummy \<Longrightarrow> got + cnt \<le> int (length buf)"
    and bs: "bs = take (length bs) (coming_on (view w) fd)" "view w1 = receive fd (length bs) (view w)"
  shows "read_into os view fd buf dummy cnt got w (bs @ data) buf' w'"
proof -
  note r = rest [unfolded read_into_def]
  have all: "bs @ data = take (length bs + length data) (coming_on (view w) fd)"
    unfolding take_add using r bs by simp
  have "buf' = store buf (nat got) (bs @ data)" if "\<not> dummy"
  proof -
    have "nat (got + int (length bs)) = nat got + length bs" "nat got + length bs + length data \<le> length buf"
      using off r that by linarith+
    then show ?thesis using r off(1) that by simp
  qed
  moreover have "view w' = receive fd (length (bs @ data)) (view w)" using r bs(2) by simp
  moreover have "length buf' = length buf" using r off(3) by simp
  moreover have "int (length (bs @ data)) \<le> cnt" using r by simp
  moreover have "int (length (bs @ data)) < cnt \<longrightarrow> coming_on (view w') fd = [] \<or> failed_read os fd"
    using r by auto
  moreover have "bs @ data = take (length (bs @ data)) (coming_on (view w) fd)" unfolding length_append by (rule all)
  ultimately show ?thesis unfolding read_into_def by blast
qed

lemma read_loop_step:
  assumes "0 < cnt" and "(if dummy then 0 else got) + min cnt maxr \<le> int (length buf)"
    and "read_call os fd (nat (min cnt maxr)) w = ((r, bs), w1)"
  shows "read_loop os fd buf maxr dummy cnt got w =
    (let buf' = store buf (nat (if dummy then 0 else got)) bs in
     if to_int r \<le> 0 then ret (got, buf', w1)
     else read_loop os fd buf' maxr dummy (size_t (cnt - to_int r)) (size_t (got + to_int r)) w1)"
proof -
  have bytes: "(if cnt > maxr then maxr else cnt) = min cnt maxr" by simp
  show ?thesis using assms by (subst read_loop.simps, unfold bytes) (simp add: Let_def)
qed

lemma read_loop_result:
  assumes "posix_read os view"
  shows "0 \<le> cnt \<Longrightarrow> 0 \<le> got \<Longrightarrow> got + cnt < 2 ^ 64 \<Longrightarrow> 0 < maxr \<Longrightarrow>
    (if dummy then min cnt maxr else got + cnt) \<le> int (length buf) \<Longrightarrow>
    \<exists>data buf' w'. read_loop os fd buf maxr dummy cnt got w = ret (got + int (length data), buf', w') \<and>
      read_into os view fd buf dummy cnt got w data buf' w'"
proof (induction "nat cnt" arbitrary: cnt got buf w rule: less_induct)
  case less
  show ?case
  proof (cases "cnt = 0")
    case True
    then show ?thesis
      by (intro exI [of _ "[]"] exI [of _ buf] exI [of _ w]) (simp add: read_loop.simps read_into_def)
  next
    case False
    define len where "len = min cnt maxr"
    define off where "off = (if dummy then 0 else got)"
    have pos: "0 < cnt" "0 < len" "0 \<le> off" "len \<le> cnt" and fits: "off + len \<le> int (length buf)"
      using False less.prems by (auto simp: len_def off_def min_def split: if_splits)
    obtain r bs w1 where call: "read_call os fd (nat len) w = ((r, bs), w1)" by (metis prod.collapse)
    note step = read_loop_step [OF pos(1), of dummy got maxr buf os fd w r bs w1, folded off_def len_def, OF fits call]
    have stops: ?thesis if "bs = []" "r \<le> 0" "to_int r \<le> 0" "view w1 = view w" "coming_on (view w) fd = [] \<or> failed_read os fd"
      using that less.prems(1)
      by (intro exI [of _ "[]"] exI [of _ buf] exI [of _ w1]) (simp add: step read_into_def)
    from assms call show ?thesis
    proof (cases rule: posix_readE)
      case failed
      then have "failed_read os fd" using call unfolding failed_read_def by (metis fst_conv)
      then show ?thesis using failed by (intro stops) simp_all
    next
      case delivered
      show ?thesis
      proof (cases "bs = []")
        case True
        then show ?thesis using delivered pos by (intro stops) simp_all
      next
        case False
        then have r: "0 < r" "r \<le> len" "to_int r = r" "r = int (length bs)"
          using delivered(1,2,3) pos(2) by (simp_all add: INT_MAX_def)
        let ?buf = "store buf (nat off) bs"
        have wrap: "size_t (cnt - r) = cnt - r" "size_t (got + r) = got + r" and less': "nat (cnt - r) < nat cnt"
          using r pos less.prems by auto
        have buf: "length ?buf = length buf" using fits r pos by simp
        have "(if dummy then min (cnt - r) maxr else got + r + (cnt - r)) \<le> int (length ?buf)"
          using less.prems r buf by (auto split: if_splits)
        then obtain data buf' w' where rest:
          "read_loop os fd ?buf maxr dummy (cnt - r) (got + r) w1 = ret (got + r + int (length data), buf', w')"
          "read_into os view fd ?buf dummy (cnt - r) (got + r) w1 data buf' w'"
          using less.hyps [OF less', of "got + r" ?buf w1] less.prems r pos by auto
        have "nat off + length bs \<le> length buf" using fits r pos by linarith
        then have "read_into os view fd buf dummy cnt got w (bs @ data) buf' w'"
          using less.prems delivered(4,6)
          by (intro read_into_append [OF rest(2) [unfolded r(4)]]) (simp_all add: off_def)
        moreover have "read_loop os fd buf maxr dummy cnt got w = ret (got + int (length (bs @ data)), buf', w')"
          using rest(1) r(1,3) by (simp add: step wrap) (simp add: r(4))
        ultimately show ?thesis by blast
      qed
    qed
  qed
qed

lemma readn_loop_result:
  assumes "posix_read os view" and "reliable os fd"
  shows "0 \<le> nleft \<Longrightarrow> ptr + nat nleft \<le> length buf \<Longrightarrow>
    \<exists>data w'. readn_loop os fd n buf ptr nleft w
        = ret (n - nleft + int (length data), store buf ptr data, w') \<and>
      data = take (nat nleft) (coming_on (view w) fd) \<and> view w' = receive fd (length data) (view w)"
proof (induction "nat nleft" arbitrary: nleft ptr buf w rule: less_induct)
  case less
  show ?case
  proof (cases "nleft = 0")
    case True
    then show ?thesis by (intro exI [of _ "[]"] exI [of _ w]) (simp add: readn_loop.simps)
  next
    case False
    then have pos: "0 < nleft" using less.prems by simp
    obtain r bs w1 where call: "read_call os fd (nat nleft) w = ((r, bs), w1)" by (metis prod.collapse)
    have "r \<noteq> -1" using assms(2) call unfolding reliable_def by (metis fst_conv)
    with assms(1) call have delivered: "r = int (length bs)" "length bs \<le> nat nleft"
      "bs = take (length bs) (coming_on (view w) fd)" "bs = [] \<Longrightarrow> coming_on (view w) fd = []"
      "view w1 = receive fd (length bs) (view w)"
      using pos by (auto elim!: posix_readE)
    have step: "readn_loop os fd n buf ptr nleft w =
      (if r = 0 then ret (n - nleft, store buf ptr bs, w1)
       else readn_loop os fd n (store buf ptr bs) (ptr + length bs) (nleft - r) w1)"
      using pos less.prems call delivered(1) by (subst readn_loop.simps) (simp add: Let_def)
    show ?thesis
    proof (cases "bs = []")
      case True
      then show ?thesis using delivered by (intro exI [of _ "[]"] exI [of _ w1]) (simp add: step)
    next
      case False
      then have smaller: "nat (nleft - r) < nat nleft" "0 \<le> nleft - r" "r \<noteq> 0"
        using delivered(1,2) pos by simp_all
      have room: "ptr + length bs + nat (nleft - r) \<le> length (store buf ptr bs)"
        using less.prems delivered(1,2) pos by simp
      obtain data w' where rest:
        "readn_loop os fd n (store buf ptr bs) (ptr + length bs) (nleft - r) w1
          = ret (n - (nleft - r) + int (length data), store (store buf ptr bs) (ptr + length bs) data, w')"
        "data = take (nat (nleft - r)) (coming_on (view w1) fd)" "view w' = receive fd (length data) (view w1)"
        using less.hyps [OF smaller(1,2) room, of w1] by blast
      have len: "nat nleft = length bs + nat (nleft - r)" using delivered(1,2) by simp
      have "bs @ data = take (nat nleft) (coming_on (view w) fd)"
        unfolding len take_add rest(2) using delivered(3,5) by simp
      moreover have "readn_loop os fd n buf ptr nleft w
          = ret (n - nleft + int (length (bs @ data)), store buf ptr (bs @ data), w')"
      proof -
        have "length data \<le> nat (nleft - r)" using rest(2) by simp
        then have "store (store buf ptr bs) (ptr + length bs) data = store buf ptr (bs @ data)"
          using room delivered(2) pos less.prems by simp
        then show ?thesis using rest(1) smaller(3) delivered(1) by (simp add: step algebra_simps)
      qed
      moreover have "view w' = receive fd (length (bs @ data)) (view w)"
        using rest(3) delivered(5) by simp
      ultimately show ?thesis by blast
    qed
  qed
qed

lemma writen_loop_step:
  assumes "0 < nleft" "ptr + nat nleft \<le> length buf"
    and "write_call os fd (take (nat nleft) (drop ptr buf)) w = (r, w1)"
  shows "writen_loop os fd n buf ptr nleft w =
    (if r \<le> 0 then if r < 0 \<and> errno_of os w1 = EINTR then writen_loop os fd n buf ptr nleft w1 else ret (-1, w1)
     else writen_loop os fd n buf (ptr + nat r) (nleft - r) w1)"
  using assms by (subst writen_loop.simps) (simp add: Let_def)

lemma writen_loop_result:
  assumes "posix_write os view" and "finite_signals os m"
  shows "0 \<le> nleft \<Longrightarrow> ptr + nat nleft \<le> length buf \<Longrightarrow>
    \<exists>k w'. k \<le> nat nleft \<and> view w' = send fd (take k (drop ptr buf)) (view w) \<and> m w' \<le> m w \<and>
      (if k = nat nleft then writen_loop os fd n buf ptr nleft w = ret (n, w')
       else writen_loop os fd n buf ptr nleft w = ret (-1, w') \<and> short_write os fd)"
proof (induction "nat nleft + m w" arbitrary: nleft ptr w rule: less_induct)
  case less
  show ?case
  proof (cases "nleft = 0")
    case True
    then show ?thesis by (intro exI [of _ 0] exI [of _ w]) (simp add: writen_loop.simps)
  next
    case False
    then have pos: "0 < nleft" using less.prems by simp
    define chunk where "chunk = take (nat nleft) (drop ptr buf)"
    have chunk: "length chunk = nat nleft" "chunk \<noteq> []" using pos less.prems by (auto simp: chunk_def)
    obtain r w1 where call: "write_call os fd chunk w = (r, w1)" by fastforce
    have m: "m w1 \<le> m w" "r = -1 \<Longrightarrow> errno_of os w1 = EINTR \<Longrightarrow> m w1 < m w"
      using assms(2) call by (auto simp: finite_signals_def)
    note step = writen_loop_step [OF pos less.prems(2) call [unfolded chunk_def], of n]
    have short: "short_write os fd" if "r \<le> 0"
      using that call chunk(2) unfolding short_write_def by (metis fst_conv)
    show ?thesis
    proof (cases "r \<le> 0")
      case True
      then have same: "view w1 = view w" "r < 0 \<Longrightarrow> r = -1" using assms(1) call by (auto elim!: posix_writeE)
      show ?thesis
      proof (cases "r < 0 \<and> errno_of os w1 = EINTR")
        case True
        then have "nat nleft + m w1 < nat nleft + m w" using m(2) same by simp
        from less.hyps [OF this less.prems] obtain k w' where
          "k \<le> nat nleft" "view w' = send fd (take k (drop ptr buf)) (view w1)" "m w' \<le> m w1"
          "if k = nat nleft then writen_loop os fd n buf ptr nleft w1 = ret (n, w')
           else writen_loop os fd n buf ptr nleft w1 = ret (-1, w') \<and> short_write os fd"
          by blast
        with same True m(1) show ?thesis
          by (intro exI [of _ k] exI [of _ w']) (simp add: step)
      next
        case False
        then have "writen_loop os fd n buf ptr nleft w = ret (-1, w1)" using True step by (simp only: if_True if_False)
        then show ?thesis using same(1) short True m(1) pos
          by (intro exI [of _ 0] exI [of _ w1]) simp
      qed
    next
      case False
      then have written: "r \<le> nleft" "view w1 = send fd (take (nat r) chunk) (view w)"
        using assms(1) call chunk(1) pos by (auto elim!: posix_writeE)
      then have r: "0 < r" "nat r \<le> nat nleft" using False by auto
      then have smaller: "nat (nleft - r) + m w1 < nat nleft + m w" "0 \<le> nleft - r"
        "ptr + nat r + nat (nleft - r) \<le> length buf"
        using m(1) less.prems written(1) by auto
      then obtain k w' where rest: "k \<le> nat (nleft - r)"
        "view w' = send fd (take k (drop (ptr + nat r) buf)) (view w1)" "m w' \<le> m w1"
        "if k = nat (nleft - r) then writen_loop os fd n buf (ptr + nat r) (nleft - r) w1 = ret (n, w')
         else writen_loop os fd n buf (ptr + nat r) (nleft - r) w1 = ret (-1, w') \<and> short_write os fd"
        using less.hyps [OF smaller] by blast
      have "take (nat r) chunk = take (nat r) (drop ptr buf)"
        using r by (simp add: chunk_def min_absorb1)
      then have "view w' = send fd (take (nat r + k) (drop ptr buf)) (view w)"
        using rest(2) written by (simp add: take_add) (simp add: add.commute)
      moreover have "nat r + k = nat nleft \<longleftrightarrow> k = nat (nleft - r)" "nat r + k \<le> nat nleft"
        using r written(1) rest(1) by auto
      ultimately show ?thesis using rest(3,4) r m(1)
        by (intro exI [of _ "nat r + k"] exI [of _ w']) (simp add: step)
    qed
  qed
qed

lemma failing_readn_diverges:
  assumes "posix_read os view" and "\<forall>n w. fst (fst (read_call os fd n w)) = -1"
    and "0 < nleft" and "ptr + nat nleft \<le> length buf"
  shows "readn_loop os fd n buf ptr nleft w = None"
proof (rule ccontr)
  assume "readn_loop os fd n buf ptr nleft w \<noteq> None"
  then obtain z where "readn_loop os fd n buf ptr nleft w = Some z" by blast
  then have "posix_read os view \<longrightarrow> (\<forall>n w. fst (fst (read_call os fd n w)) = -1) \<longrightarrow>
      0 < nleft \<longrightarrow> ptr + nat nleft \<le> length buf \<longrightarrow> False"
  proof (rule readn_loop.raw_induct [where
        P = "\<lambda>os fd n buf ptr nleft w z. posix_read os view \<longrightarrow>
          (\<forall>n w. fst (fst (read_call os fd n w)) = -1) \<longrightarrow> 0 < nleft \<longrightarrow> ptr + nat nleft \<le> length buf \<longrightarrow> False", rotated],
      intro impI)
    fix self os fd n buf ptr nleft w z
    assume IH: "\<And>os fd n buf ptr nleft w z. self os fd n buf ptr nleft w = Some z \<Longrightarrow>
        posix_read os view \<longrightarrow> (\<forall>n w. fst (fst (read_call os fd n w)) = -1) \<longrightarrow>
        0 < nleft \<longrightarrow> ptr + nat nleft \<le> length buf \<longrightarrow> False"
      and posix: "posix_read os view" and fails: "\<forall>n w. fst (fst (read_call os fd n w)) = -1"
      and pos: "0 < nleft" "ptr + nat nleft \<le> length buf"
      and body: "(if 0 < nleft then
          if length buf < ptr + nat nleft then stuck Out_Of_Bounds
          else let ((nread, bs), w) = read_call os fd (nat nleft) w; buf = store buf ptr bs in
            if nread < 0 then
              let w = set_errno os EINTR w in
              if EINTR \<noteq> 0 then let nread = 0 in self os fd n buf (ptr + nat nread) (nleft - nread) w
              else ret (-1, buf, w)
            else if nread = 0 then ret (n - nleft, buf, w)
            else self os fd n buf (ptr + nat nread) (nleft - nread) w
        else ret (n - nleft, buf, w)) = Some z"
    obtain bs w1 where call: "read_call os fd (nat nleft) w = ((-1, bs), w1)"
      using fails by (metis prod.collapse)
    with posix have "bs = []" by (auto elim: posix_readE)
    with body call pos have "self os fd n buf ptr nleft (set_errno os EINTR w1) = Some z"
      by (simp add: EINTR_def)
    from IH [OF this] posix fails pos show False by blast
  qed
  with assms show False by blast
qed

lemma writen_result:
  assumes "posix_write os view" and "finite_signals os m"
  shows "\<exists>k r w'. writen os fd data (int (length data)) w = ret (r, w') \<and> k \<le> length data \<and>
      view w' = send fd (take k data) (view w) \<and> m w' \<le> m w \<and>
      (if k = length data then r = int (length data) else r = -1 \<and> short_write os fd)"
proof -
  obtain k w' where res: "k \<le> length data" "view w' = send fd (take k data) (view w)" "m w' \<le> m w"
    "if k = length data then writen_loop os fd (int (length data)) data 0 (int (length data)) w
        = ret (int (length data), w')
     else writen_loop os fd (int (length data)) data 0 (int (length data)) w = ret (-1, w') \<and>
       short_write os fd"
    using writen_loop_result [OF assms, where nleft = "int (length data)" and ptr = 0 and buf = data
        and n = "int (length data)"]
    by (simp split del: if_split) blast
  show ?thesis
    by (intro exI [of _ k] exI [of _ "if k = length data then int (length data) else -1"] exI [of _ w'])
      (use res in \<open>simp add: writen_def split: if_splits\<close>)
qed

subsection \<open>What the callers rely on\<close>

text \<open>
  A writer sends a prefix of the data, and its result is the length of the data exactly when all of it
  was sent; a reader fills its buffer from the stream.  Both always return.
\<close>

locale exact_writer =
  fixes wr :: "'w os \<Rightarrow> int \<Rightarrow> u8 list \<Rightarrow> 'w \<Rightarrow> (int \<times> 'w) run"
  assumes writes: "posix os view \<Longrightarrow> finite_signals os m \<Longrightarrow> length data < 2 ^ 63 \<Longrightarrow>
    \<exists>k r w'. wr os fd data w = ret (r, w') \<and> k \<le> length data \<and>
      view w' = send fd (take k data) (view w) \<and> m w' \<le> m w \<and>
      (if k = length data then r = int (length data)
       else r \<noteq> int (length data) \<and> short_write os fd)"
begin

lemma writes_all:
  assumes "posix os view" "finite_signals os m" "reliable os fd" "length data < 2 ^ 63"
  shows "\<exists>w'. wr os fd data w = ret (int (length data), w') \<and> view w' = send fd data (view w)"
  using writes [OF assms(1,2,4), of fd w] reliableD(2) [OF assms(3)] by (auto split: if_splits)

lemma success_means_sent:
  assumes "posix os view" "finite_signals os m" "length data < 2 ^ 63"
    and "wr os fd data w = ret (int (length data), w')"
  shows "view w' = send fd data (view w)"
  using writes [OF assms(1-3), of fd w] assms(4) by (auto split: if_splits)

lemma never_faults:
  assumes "posix os view" "finite_signals os m" "length data < 2 ^ 63"
  shows "\<exists>r w'. wr os fd data w = ret (r, w')"
  using writes [OF assms, of fd w] by auto

end

locale exact_reader =
  fixes rd :: "'w os \<Rightarrow> int \<Rightarrow> u8 list \<Rightarrow> 'w \<Rightarrow> (int \<times> u8 list \<times> 'w) run"
  assumes reads: "posix os view \<Longrightarrow> reliable os fd \<Longrightarrow> length buf < 2 ^ 63 \<Longrightarrow>
    \<exists>w'. let data = take (length buf) (coming_on (view w) fd)
         in rd os fd buf w = ret (int (length data), store buf 0 data, w') \<and>
            view w' = receive fd (length data) (view w)"
begin

lemma reads_message:
  assumes "posix os view" "reliable os fd" "length buf < 2 ^ 63"
    and "coming_on (view w) fd = msg @ rest" and "length msg = length buf"
  shows "\<exists>w'. rd os fd buf w = ret (int (length buf), msg, w') \<and>
    view w' = receive fd (length msg) (view w) \<and> coming_on (view w') fd = rest"
  using reads [OF assms(1-3), of w] assms(4,5) by (auto simp: Let_def store_def)

lemma reads_eof:
  assumes "posix os view" "reliable os fd" "length buf < 2 ^ 63"
    and "length (coming_on (view w) fd) < length buf"
  shows "\<exists>r buf' w'. rd os fd buf w = ret (r, buf', w') \<and> r < int (length buf)"
  using reads [OF assms(1-3), of w] assms(4) by (auto simp: Let_def)

end

definition write_all :: "'w os \<Rightarrow> int \<Rightarrow> u8 list \<Rightarrow> 'w \<Rightarrow> (int \<times> 'w) run" where
  "write_all os fd data w = write_exact os fd (Some data) (int (length data)) (int (length data)) False w"

definition read_all :: "'w os \<Rightarrow> int \<Rightarrow> u8 list \<Rightarrow> 'w \<Rightarrow> (int \<times> u8 list \<times> 'w) run" where
  "read_all os fd buf w =
     seq (read_exact os fd (Some buf) (int (length buf)) (int (length buf)) False w)
       (\<lambda>(n, b, w). ret (n, the b, w))"

lemma write_loop_zero: "write_loop os fd buf maxw dummy 0 n w = ret (n, w)"
  by (simp add: write_loop.simps)

lemma read_loop_zero: "read_loop os fd buf maxw dummy 0 n w = ret (n, buf, w)"
  by (simp add: read_loop.simps)

interpretation wr_exact: exact_writer write_all
proof
  fix os :: "'w os" and view m fd w and data :: "u8 list"
  assume "posix os view" and signals: "finite_signals os m" and len: "length data < 2 ^ 63"
  then have posix: "posix_write os view" by auto
  show "\<exists>k r w'. write_all os fd data w = ret (r, w') \<and> k \<le> length data \<and>
      view w' = send fd (take k data) (view w) \<and> m w' \<le> m w \<and>
      (if k = length data then r = int (length data) else r \<noteq> int (length data) \<and> short_write os fd)"
  proof (cases "data = []")
    case True
    then show ?thesis by (simp add: write_all_def write_exact_def write_loop_zero)
  next
    case False
    from len have "int (length data) < 2 ^ 64" by simp
    with False obtain sent w' where res:
      "write_loop os fd data (int (length data)) False (int (length data)) 0 w = ret (int (length sent), w')"
      "length sent \<le> length data" "view w' = send fd sent (view w)" "sent = take (length sent) data"
      "length sent < length data \<Longrightarrow> short_write os fd" "m w' \<le> m w"
      using write_loop_result [OF posix, of "int (length data)" 0 "int (length data)" False data fd w] signals
      by (auto simp: written_from_def)
    show ?thesis
      by (intro exI [of _ "length sent"] exI [of _ "int (length sent)"] exI [of _ w'])
        (use res in \<open>simp add: write_all_def write_exact_def flip: res(4)\<close>)
  qed
qed

interpretation wr_n: exact_writer "\<lambda>os fd data w. writen os fd data (int (length data)) w"
proof
  fix os :: "'w os" and view m fd w and data :: "u8 list"
  assume "posix os view" "finite_signals os m" and "length data < 2 ^ 63"
  then obtain k r w' where res: "writen os fd data (int (length data)) w = ret (r, w')" "k \<le> length data"
      "view w' = send fd (take k data) (view w)" "m w' \<le> m w"
      "if k = length data then r = int (length data) else r = -1 \<and> short_write os fd"
    using writen_result [OF posixD(2)] by metis
  show "\<exists>k r w'. writen os fd data (int (length data)) w = ret (r, w') \<and> k \<le> length data \<and>
      view w' = send fd (take k data) (view w) \<and> m w' \<le> m w \<and>
      (if k = length data then r = int (length data) else r \<noteq> int (length data) \<and> short_write os fd)"
    by (intro exI [of _ k] exI [of _ r] exI [of _ w']) (use res in \<open>simp split: if_splits\<close>)
qed

interpretation rd_exact: exact_reader read_all
proof
  fix os :: "'w os" and view fd w and buf :: "u8 list"
  assume "posix os view" and rel: "reliable os fd" and len: "length buf < 2 ^ 63"
  then have posix: "posix_read os view" by auto
  show "\<exists>w'. let data = take (length buf) (coming_on (view w) fd)
      in read_all os fd buf w = ret (int (length data), store buf 0 data, w') \<and>
         view w' = receive fd (length data) (view w)"
  proof (cases "buf = []")
    case True
    then show ?thesis by (simp add: read_all_def read_exact_def read_loop_zero)
  next
    case False
    from len have "int (length buf) < 2 ^ 64" by simp
    with False obtain data buf' w' where res:
      "read_loop os fd buf (int (length buf)) False (int (length buf)) 0 w = ret (int (length data), buf', w')"
      "length data \<le> length buf" "data = take (length data) (coming_on (view w) fd)"
      "view w' = receive fd (length data) (view w)" "buf' = store buf 0 data"
      "length data < length buf \<Longrightarrow> coming_on (view w') fd = []"
      using read_loop_result [OF posix, of "int (length buf)" 0 "int (length buf)" False buf fd w]
        reliableD(1) [OF rel] by (auto simp: read_into_def)
    have "data = take (length buf) (coming_on (view w) fd)"
    proof (cases "length data < length buf")
      case True
      then have "drop (length data) (coming_on (view w) fd) = []" using res(4,6) by simp
      then have "length (coming_on (view w) fd) \<le> length buf" "coming_on (view w) fd = data"
        using res(2,3) by (simp, metis append_Nil2 append_take_drop_id)
      then show ?thesis by simp
    next
      case False
      then show ?thesis using res(2,3) by simp
    qed
    then show ?thesis using res by (auto simp: read_all_def read_exact_def Let_def)
  qed
qed

interpretation rd_n: exact_reader "\<lambda>os fd buf w. readn os fd buf (int (length buf)) w"
proof
  fix os :: "'w os" and view fd w and buf :: "u8 list"
  assume "posix os view" and rel: "reliable os fd" and len: "length buf < 2 ^ 63"
  then show "\<exists>w'. let data = take (length buf) (coming_on (view w) fd)
      in readn os fd buf (int (length buf)) w = ret (int (length data), store buf 0 data, w') \<and>
         view w' = receive fd (length data) (view w)"
    using readn_loop_result [where os = os and view = view and nleft = "int (length buf)" and ptr = 0
        and buf = buf and fd = fd and w = w and n = "int (length buf)"]
    by (auto simp: readn_def Let_def)
qed

text \<open>Whatever every call keeps, the loops keep.\<close>

lemma write_loop_keeps:
  assumes "\<And>data w. I w \<Longrightarrow> I (snd (write_call os fd data w))" and "I w"
    and "write_loop os fd buf maxw dummy cnt written w = ret (n, w')"
  shows "I w'"
proof -
  have "\<forall>n w'. z = Inr (n, w') \<longrightarrow> (\<forall>data w. I w \<longrightarrow> I (snd (write_call os fd data w))) \<longrightarrow> I w \<longrightarrow> I w'"
    if "write_loop os fd buf maxw dummy cnt written w = Some z" for z
    using that
  proof (rule write_loop.raw_induct [where
        P = "\<lambda>os fd buf maxw dummy cnt written w z. \<forall>n w'. z = Inr (n, w') \<longrightarrow>
          (\<forall>data w. I w \<longrightarrow> I (snd (write_call os fd data w))) \<longrightarrow> I w \<longrightarrow> I w'", rotated], intro allI impI)
    fix self os fd buf maxw dummy cnt written w z n w'
    assume IH: "\<And>os fd buf maxw dummy cnt written w z. self os fd buf maxw dummy cnt written w = Some z \<Longrightarrow>
        \<forall>n w'. z = Inr (n, w') \<longrightarrow> (\<forall>data w. I w \<longrightarrow> I (snd (write_call os fd data w))) \<longrightarrow> I w \<longrightarrow> I w'"
      and z: "z = Inr (n, w')" and I: "\<forall>data w. I w \<longrightarrow> I (snd (write_call os fd data w))" "I w"
      and body: "(if cnt > 0 then
        let bytes_to_write = (if cnt > maxw then maxw else cnt);
            cur_buf = (if dummy then 0 else written)
        in if cur_buf + bytes_to_write > int (length buf) then stuck Out_Of_Bounds
           else let (r, w) = write_call os fd (take (nat bytes_to_write) (drop (nat cur_buf) buf)) w;
                    n = to_int r
                in if n \<le> 0 then ret (written, w)
                   else self os fd buf maxw dummy (size_t (cnt - n)) (size_t (written + n)) w
      else ret (written, w)) = Some z"
    let ?data = "take (nat (if cnt > maxw then maxw else cnt)) (drop (nat (if dummy then 0 else written)) buf)"
    obtain r w1 where call: "write_call os fd ?data w = (r, w1)" by fastforce
    with I have w1: "I w1" by (metis snd_conv)
    consider "I w'" | "self os fd buf maxw dummy (size_t (cnt - to_int r)) (size_t (written + to_int r)) w1 = Some z"
      using body call z I(2) w1 by (auto simp: Let_def ret_def stuck_def simp del: take_drop drop_take split: if_splits)
    then show "I w'" using IH z I(1) w1 by cases blast+
  qed
  then show ?thesis using assms unfolding ret_def by blast
qed

lemma read_loop_keeps:
  assumes "\<And>n w. I w \<Longrightarrow> I (snd (read_call os fd n w))" and "I w"
    and "read_loop os fd buf maxr dummy cnt got w = ret (n, buf', w')"
  shows "I w'"
proof -
  have "\<forall>n buf' w'. z = Inr (n, buf', w') \<longrightarrow> (\<forall>n w. I w \<longrightarrow> I (snd (read_call os fd n w))) \<longrightarrow> I w \<longrightarrow> I w'"
    if "read_loop os fd buf maxr dummy cnt got w = Some z" for z
    using that
  proof (rule read_loop.raw_induct [where
        P = "\<lambda>os fd buf maxr dummy cnt got w z. \<forall>n buf' w'. z = Inr (n, buf', w') \<longrightarrow>
          (\<forall>n w. I w \<longrightarrow> I (snd (read_call os fd n w))) \<longrightarrow> I w \<longrightarrow> I w'", rotated], intro allI impI)
    fix self os fd buf maxr dummy cnt got w z n buf' w'
    assume IH: "\<And>os fd buf maxr dummy cnt got w z. self os fd buf maxr dummy cnt got w = Some z \<Longrightarrow>
        \<forall>n buf' w'. z = Inr (n, buf', w') \<longrightarrow> (\<forall>n w. I w \<longrightarrow> I (snd (read_call os fd n w))) \<longrightarrow> I w \<longrightarrow> I w'"
      and z: "z = Inr (n, buf', w')" and I: "\<forall>n w. I w \<longrightarrow> I (snd (read_call os fd n w))" "I w"
      and body: "(if cnt > 0 then
        let bytes_to_read = (if cnt > maxr then maxr else cnt);
            cur_buf = (if dummy then 0 else got)
        in if cur_buf + bytes_to_read > int (length buf) then stuck Out_Of_Bounds
           else let ((r, bs), w) = read_call os fd (nat bytes_to_read) w;
                    buf = store buf (nat cur_buf) bs;
                    n = to_int r
                in if n \<le> 0 then ret (got, buf, w)
                   else self os fd buf maxr dummy (size_t (cnt - n)) (size_t (got + n)) w
      else ret (got, buf, w)) = Some z"
    obtain r bs w1 where call: "read_call os fd (nat (if cnt > maxr then maxr else cnt)) w = ((r, bs), w1)" by (metis surj_pair)
    with I have w1: "I w1" by (metis snd_conv)
    consider "I w'" | "self os fd (store buf (nat (if dummy then 0 else got)) bs) maxr dummy
        (size_t (cnt - to_int r)) (size_t (got + to_int r)) w1 = Some z"
      using body call z I(2) w1 by (auto simp: Let_def ret_def stuck_def split: if_splits)
    then show "I w'" using IH z I(1) w1 by cases blast+
  qed
  then show ?thesis using assms unfolding ret_def by blast
qed

lemma write_exact_result:
  assumes "posix_write os view" and "0 \<le> cnt" and "cnt < 2 ^ 64" and "0 < maxw"
    and "(if dummy then min cnt maxw else cnt) \<le> int (length buf)"
  shows "\<exists>data w'. write_exact os fd (Some buf) cnt maxw dummy w = ret (int (length data), w') \<and>
    int (length data) \<le> cnt \<and> view w' = send fd data (view w) \<and>
    (if dummy then repeats buf data else data = take (length data) buf) \<and>
    (int (length data) < cnt \<longrightarrow> short_write os fd)"
proof -
  have fits: "(if dummy then min cnt maxw else 0 + cnt) \<le> int (length buf)" using assms(5) by (cases dummy) simp_all
  have "0 + cnt < 2 ^ 64" using assms(3) by simp
  from write_loop_result [OF assms(1,2) _ this assms(4) fits, of fd w, unfolded written_from_def] show ?thesis
    by (cases dummy) (simp_all add: write_exact_def, blast+)
qed

lemma read_exact_result:
  assumes "posix_read os view" and "0 \<le> cnt" and "cnt < 2 ^ 64" and "0 < maxr"
    and "(if dummy then min cnt maxr else cnt) \<le> int (length buf)"
  shows "\<exists>data buf' w'. read_exact os fd (Some buf) cnt maxr dummy w = ret (int (length data), Some buf', w') \<and>
    int (length data) \<le> cnt \<and> data = take (length data) (coming_on (view w) fd) \<and>
    view w' = receive fd (length data) (view w) \<and> length buf' = length buf \<and>
    (\<not> dummy \<longrightarrow> buf' = data @ drop (length data) buf) \<and>
    (int (length data) < cnt \<longrightarrow> coming_on (view w') fd = [] \<or> failed_read os fd)"
proof -
  have fits: "(if dummy then min cnt maxr else 0 + cnt) \<le> int (length buf)" using assms(5) by (cases dummy) simp_all
  have "0 + cnt < 2 ^ 64" using assms(3) by simp
  then obtain data buf' w' where res:
    "read_loop os fd buf maxr dummy cnt 0 w = ret (0 + int (length data), buf', w')"
    "int (length data) \<le> cnt" "data = take (length data) (coming_on (view w) fd)"
    "view w' = receive fd (length data) (view w)" "length buf' = length buf"
    "\<not> dummy \<longrightarrow> buf' = store buf (nat 0) data"
    "int (length data) < cnt \<longrightarrow> coming_on (view w') fd = [] \<or> failed_read os fd"
    using read_loop_result [OF assms(1,2) _ _ assms(4) fits, of fd w, unfolded read_into_def] by blast
  from res(6) have "\<not> dummy \<longrightarrow> buf' = data @ drop (length data) buf" by (simp add: store_def)
  moreover from res(1) have "read_exact os fd (Some buf) cnt maxr dummy w = ret (int (length data), Some buf', w')"
    by (simp add: read_exact_def)
  ultimately show ?thesis using res(2-5,7) by blast
qed

subsection \<open>Properties\<close>

text \<open>C24: \<open>write_exact\<close> always returns, and its result is the number of bytes it sent: the first bytes of
  the buffer or, with \<open>dummy_buf\<close>, repetitions of its beginning; it sends less than asked for only when
  a \<open>write\<close> has failed, and it never leaves a buffer of the size its documentation asks for.\<close>

theorem write_exact_correct:
  assumes "posix_write os view" and "0 \<le> cnt" and "cnt < 2 ^ 64" and "0 < maxw"
    and "(if dummy then min cnt maxw else cnt) \<le> int (length buf)"
  shows "\<exists>data w'. write_exact os fd (Some buf) cnt maxw dummy w = ret (int (length data), w') \<and>
    int (length data) \<le> cnt \<and> view w' = send fd data (view w) \<and>
    (if dummy then repeats buf data else data = take (length data) buf) \<and>
    (int (length data) < cnt \<longrightarrow> short_write os fd)"
  by (rule write_exact_result [OF assms])

theorem write_exact_correct_witness:
  "\<exists>data w'. write_exact linux 1 (Some [7, 8, 9]) 3 2 False demo_kernel = ret (int (length data), w') \<and>
    int (length data) \<le> 3 \<and> knet w' = send 1 data (knet demo_kernel) \<and>
    (if False then repeats [7, 8, 9] data else data = take (length data) [7, 8, 9]) \<and>
    (int (length data) < 3 \<longrightarrow> short_write linux 1)"
  by (rule write_exact_correct [OF linux_posix_write]) simp_all

text \<open>C25: \<open>read_exact\<close> always returns, and its result is the number of bytes it took from the stream; without
  \<open>dummy_buf\<close> they are in the buffer, in order; it takes less than asked for only at the end of the stream
  or when a \<open>read\<close> has failed, and it never leaves a buffer of the documented size.\<close>

theorem read_exact_correct:
  assumes "posix_read os view" and "0 \<le> cnt" and "cnt < 2 ^ 64" and "0 < maxr"
    and "(if dummy then min cnt maxr else cnt) \<le> int (length buf)"
  shows "\<exists>data buf' w'. read_exact os fd (Some buf) cnt maxr dummy w = ret (int (length data), Some buf', w') \<and>
    int (length data) \<le> cnt \<and> data = take (length data) (coming_on (view w) fd) \<and>
    view w' = receive fd (length data) (view w) \<and> length buf' = length buf \<and>
    (\<not> dummy \<longrightarrow> buf' = data @ drop (length data) buf) \<and>
    (int (length data) < cnt \<longrightarrow> coming_on (view w') fd = [] \<or> failed_read os fd)"
  by (rule read_exact_result [OF assms])

theorem read_exact_correct_witness:
  "\<exists>data buf' w'. read_exact linux 1 (Some [0, 0, 0]) 3 3 False demo_kernel = ret (int (length data), Some buf', w') \<and>
    int (length data) \<le> 3 \<and> data = take (length data) (coming_on (knet demo_kernel) 1) \<and>
    knet w' = receive 1 (length data) (knet demo_kernel) \<and> length buf' = length [0 :: u8, 0, 0] \<and>
    (\<not> False \<longrightarrow> buf' = data @ drop (length data) [0, 0, 0]) \<and>
    (int (length data) < 3 \<longrightarrow> coming_on (knet w') 1 = [] \<or> failed_read linux 1)"
  by (rule read_exact_correct [OF linux_posix_read]) simp_all

text \<open>When signals are finite in number, \<open>writen\<close> always returns: \<open>n\<close> when it has sent the whole
  buffer in order, restarting interrupted and partial writes, and -1, with a prefix sent, only when a \<open>write\<close>
  has failed or accepted nothing.\<close>

theorem writen_correct:
  assumes "posix_write os view" and "finite_signals os m"
  shows "\<exists>k r w'. writen os fd data (int (length data)) w = ret (r, w') \<and> k \<le> length data \<and>
      view w' = send fd (take k data) (view w) \<and>
      (if k = length data then r = int (length data) else r = -1 \<and> short_write os fd)"
  using writen_result [OF assms, of fd data w] by blast

theorem writen_correct_witness:
  "\<exists>k r w'. writen linux 1 [7, 8, 9] (int (length [7 :: u8, 8, 9])) demo_kernel = ret (r, w') \<and>
      k \<le> length [7 :: u8, 8, 9] \<and> knet w' = send 1 (take k [7, 8, 9]) (knet demo_kernel) \<and>
      (if k = length [7 :: u8, 8, 9] then r = int (length [7 :: u8, 8, 9]) else r = -1 \<and> short_write linux 1)"
  by (rule writen_correct [OF linux_posix_write linux_finite_signals])

text \<open>Because \<open>errno = EINTR\<close> assigns instead of comparing, \<open>readn\<close> takes every error for an
  interruption: on a descriptor whose reads all fail it never returns, where the code means to return -1.\<close>

theorem readn_never_reports_errors:
  assumes "posix_read os view" and "\<forall>n w. fst (fst (read_call os fd n w)) = -1"
    and "0 < n" and "nat n \<le> length buf"
  shows "readn os fd buf n w = None"
  unfolding readn_def using assms by (intro failing_readn_diverges) auto

theorem readn_never_reports_errors_witness:
  "readn (linux\<lparr>read_call := \<lambda>fd n k. ((-1, []), k\<lparr>kerrno := ECONNRESET\<rparr>)\<rparr>) 1 [0, 0] 2 demo_kernel = None"
  by (rule readn_never_reports_errors [where view = knet]) (auto simp: posix_read_def)

end
