(* ===== verification/Traffic_Gen.thy ===== *)
theory Traffic_Gen
  imports Exact_Io Netfilter
begin

text \<open>
  The traffic generator \<^verbatim>\<open>simple-traffic-gen\<close>: the client asks for messages by sending their size as a
  four-byte integer and reads each message; the server answers each request with that many bytes until it
  reads a size of zero.  The option scanner \<open>getopt_long\<close>, \<open>strtoul\<close> and \<open>inet_pton\<close> are parameters:
  \<open>getopt argv\<close> is the sequence of options found, with their arguments, and the operands left.
  The value \<open>junk\<close> is what the uninitialised variable \<open>msg_size\<close> of the server happens to hold.
\<close>

definition DEFAULT_MSG_SIZE :: u32 where "DEFAULT_MSG_SIZE = 32000"
definition DEFAULT_BUF_SIZE :: nat where "DEFAULT_BUF_SIZE = 1048576"
definition DEFAULT_ITERS :: u32 where "DEFAULT_ITERS = 100"
definition DEFAULT_SERVER_PORT :: u16 where "DEFAULT_SERVER_PORT = 5001"

subsection \<open>The server\<close>

fun server_parse_args :: "(string \<Rightarrow> u64) \<Rightarrow> (char \<times> string) list \<Rightarrow> u16 \<Rightarrow> bool \<times> u16" where
  "server_parse_args strtoul [] port = (True, port)"
| "server_parse_args strtoul ((c, optarg) # opts) port =
     (if c = CHR ''p'' then server_parse_args strtoul opts (ucast (strtoul optarg))
      else (False, port))"

partial_function (option) server_loop ::
  "'w os \<Rightarrow> u32 \<Rightarrow> int \<Rightarrow> u32 \<Rightarrow> 'w \<Rightarrow> (u32 option \<times> 'w) run" where
  "server_loop os junk connection iters w =
     seq (read_exact os connection (Some (u32_bytes junk)) 4 4 False w) (\<lambda>(n, buf, w).
       if n \<noteq> 4 then ret (None, w)
       else let msg_size = u32_of_bytes (the buf) in
         if msg_size = 0 then ret (Some iters, w)
         else seq (write_exact os connection (Some (replicate DEFAULT_BUF_SIZE 0)) (uint msg_size)
                     (int DEFAULT_BUF_SIZE) True w) (\<lambda>(n, w).
           if n \<noteq> uint msg_size then ret (None, w)
           else server_loop os junk connection (iters + 1) w))"

definition server_err :: "'w os \<Rightarrow> int \<Rightarrow> int \<Rightarrow> 'w \<Rightarrow> (int \<times> u32 option \<times> 'w) run" where
  "server_err os sockfd connection w =
     (let w = (if connection \<ge> 0 then close_call os connection w else w);
          w = (if sockfd \<ge> 0 then close_call os sockfd w else w)
      in ret (1, None, w))"

text \<open>The result is the exit status, the number of messages printed, and the world.\<close>

definition server_main ::
  "'w os \<Rightarrow> (string list \<Rightarrow> (char \<times> string) list \<times> string list) \<Rightarrow> (string \<Rightarrow> u64) \<Rightarrow> u32
   \<Rightarrow> string list \<Rightarrow> 'w \<Rightarrow> (int \<times> u32 option \<times> 'w) run" where
  "server_main os getopt strtoul junk argv w =
     (let (ok, server_port) = server_parse_args strtoul (fst (getopt argv)) DEFAULT_SERVER_PORT in
      if \<not> ok then ret (1, None, w)
      else let (sockfd, w) = socket_call os w in
        if sockfd < 0 then server_err os sockfd (-1) w
        else let (r, w) = setsockopt_call os sockfd w in
          if r \<noteq> 0 then server_err os sockfd (-1) w
          else let (r, w) = bind_call os sockfd (htons server_port) w in
            if r < 0 then server_err os sockfd (-1) w
            else let (r, w) = listen_call os sockfd 5 w in
              if r < 0 then server_err os sockfd (-1) w
              else let (connection, w) = accept_call os sockfd w in
                if connection < 0 then server_err os sockfd connection w
                else seq (server_loop os junk connection 0 w) (\<lambda>(res, w).
                  case res of
                    None \<Rightarrow> server_err os sockfd connection w
                  | Some iters \<Rightarrow> ret (0, Some iters, close_call os sockfd (close_call os connection w))))"

subsection \<open>The client\<close>

record client_opts =
  server_port :: u16
  iters :: u32
  msg_size :: u32
  server_ip :: "string option"

definition client_defaults :: client_opts where
  "client_defaults = \<lparr>server_port = DEFAULT_SERVER_PORT, iters = DEFAULT_ITERS,
                      msg_size = DEFAULT_MSG_SIZE, server_ip = None\<rparr>"

fun client_options :: "(string \<Rightarrow> u64) \<Rightarrow> (char \<times> string) list \<Rightarrow> client_opts \<Rightarrow> bool \<times> client_opts" where
  "client_options strtoul [] st = (True, st)"
| "client_options strtoul ((c, optarg) # opts) st =
     (if c = CHR ''p'' then client_options strtoul opts (st\<lparr>server_port := ucast (strtoul optarg)\<rparr>)
      else if c = CHR ''n'' then
        let st = st\<lparr>iters := ucast (strtoul optarg)\<rparr> in
        if iters st = 0 then (False, st) else client_options strtoul opts st
      else if c = CHR ''s'' then
        let st = st\<lparr>msg_size := ucast (strtoul optarg)\<rparr> in
        if msg_size st = 0 then (False, st) else client_options strtoul opts st
      else (False, st))"

text \<open>\<open>optind == argc - 1\<close>: exactly one operand is left.\<close>

definition client_parse_args ::
  "(string list \<Rightarrow> (char \<times> string) list \<times> string list) \<Rightarrow> (string \<Rightarrow> u64) \<Rightarrow> string list \<Rightarrow> bool \<times> client_opts" where
  "client_parse_args getopt strtoul argv =
     (let (opts, operands) = getopt argv;
          (ok, st) = client_options strtoul opts client_defaults
      in if \<not> ok then (False, st)
         else let st = (if length operands = 1 then st\<lparr>server_ip := Some (hd operands)\<rparr> else st)
              in (server_ip st \<noteq> None, st))"

text \<open>The loop of requests; the result says whether it ended normally.\<close>

fun client_loop :: "'w os \<Rightarrow> int \<Rightarrow> u32 \<Rightarrow> nat \<Rightarrow> u8 list \<Rightarrow> 'w \<Rightarrow> (bool \<times> 'w) run" where
  "client_loop os sockfd msg 0 read_buf w = ret (True, w)"
| "client_loop os sockfd msg (Suc left) read_buf w =
     seq (write_exact os sockfd (Some (u32_bytes msg)) 4 4 False w) (\<lambda>(n, w).
       if n \<noteq> 4 then ret (False, w)
       else seq (read_exact os sockfd (Some read_buf) (uint msg) (int (length read_buf)) True w)
         (\<lambda>(n, buf, w).
           if n \<noteq> uint msg then ret (False, w)
           else client_loop os sockfd msg left (the buf) w))"

text \<open>The result is the exit status, the elapsed microseconds when they are printed, and the world.\<close>

definition client_err :: "'w os \<Rightarrow> int \<Rightarrow> 'w \<Rightarrow> (int \<times> int option \<times> 'w) run" where
  "client_err os sockfd w = ret (1, None, if sockfd \<ge> 0 then close_call os sockfd w else w)"

definition client_main ::
  "'w os \<Rightarrow> (string list \<Rightarrow> (char \<times> string) list \<times> string list) \<Rightarrow> (string \<Rightarrow> u64) \<Rightarrow> (string \<Rightarrow> int \<times> u32)
   \<Rightarrow> u8 list \<Rightarrow> string list \<Rightarrow> 'w \<Rightarrow> (int \<times> int option \<times> 'w) run" where
  "client_main os getopt strtoul inet_pton read_buf argv w =
     (let (ok, st) = client_parse_args getopt strtoul argv in
      if \<not> ok then ret (1, None, w)
      else let (sockfd, w) = socket_call os w in
        if sockfd < 0 then client_err os sockfd w
        else let (r, address) = inet_pton (the (server_ip st)) in
          if r \<le> 0 then client_err os sockfd w
          else let (r, w) = connect_call os sockfd address (htons (server_port st)) w in
            if r < 0 then client_err os sockfd w
            else let ((r, sec0, usec0), w) = gettimeofday_call os w in
              if r \<noteq> 0 then client_err os sockfd w
              else seq (client_loop os sockfd (msg_size st) (unat (iters st)) read_buf w) (\<lambda>(ok, w).
                if \<not> ok then client_err os sockfd w
                else let ((r, sec1, usec1), w) = gettimeofday_call os w in
                  if r \<noteq> 0 then client_err os sockfd w
                  else seq (write_exact os sockfd (Some (u32_bytes 0)) 4 4 False w) (\<lambda>(n, w).
                    if n \<noteq> 4 then client_err os sockfd w
                    else ret (0, Some ((sec1 - sec0) * 1000000 + (usec1 - usec0)), close_call os sockfd w))))"

subsection \<open>What one request does\<close>

lemma uint_u32_less: "uint (m :: u32) < 2 ^ 64"
proof -
  have "uint m < 2 ^ 32" using uint_lt2p [of m] by (simp only: len_num1 len_bit0) simp
  then show ?thesis by simp
qed

lemma read_request:
  assumes "posix os view" "reliable os fd" and "4 \<le> length (coming_on (view w) fd)"
  shows "\<exists>buf w'. read_exact os fd (Some (u32_bytes junk)) 4 4 False w = ret (4, buf, w') \<and>
    the buf = take 4 (coming_on (view w) fd) \<and> view w' = receive fd 4 (view w)"
proof -
  obtain data buf' w' where res: "read_exact os fd (Some (u32_bytes junk)) 4 4 False w = ret (int (length data), Some buf', w')"
    "int (length data) \<le> 4" "data = take (length data) (coming_on (view w) fd)" "view w' = receive fd (length data) (view w)"
    "buf' = data @ drop (length data) (u32_bytes junk)" "int (length data) < 4 \<longrightarrow> coming_on (view w') fd = [] \<or> failed_read os fd"
    using read_exact_result [OF posixD(1) [OF assms(1)], of 4 4 False "u32_bytes junk" fd w] by auto
  have "length data = 4"
  proof (rule ccontr)
    assume "length data \<noteq> 4"
    then have "coming_on (view w') fd = []" "length data < 4" using res(2,6) reliableD(1) [OF assms(2)] by auto
    then show False using res(4) assms(3) by simp
  qed
  then show ?thesis using res by auto
qed

lemma write_request:
  assumes "posix_write os view" "\<not> short_write os fd"
  shows "\<exists>w'. write_exact os fd (Some (u32_bytes m)) 4 4 False w = ret (4, w') \<and>
    view w' = send fd (u32_bytes m) (view w)"
proof -
  obtain data w' where res: "write_exact os fd (Some (u32_bytes m)) 4 4 False w = ret (int (length data), w')"
    "int (length data) \<le> 4" "view w' = send fd data (view w)" "data = take (length data) (u32_bytes m)"
    "int (length data) < 4 \<longrightarrow> short_write os fd"
    using write_exact_result [OF assms(1), of 4 4 False "u32_bytes m" fd w] by auto
  with assms(2) have "length data = 4" by auto
  with res show ?thesis by simp
qed

lemma buf_size_pos: "0 < int DEFAULT_BUF_SIZE"
  by (simp add: DEFAULT_BUF_SIZE_def)

lemma write_message:
  fixes m :: u32
  assumes "posix os view" "reliable os fd"
  shows "\<exists>w'. write_exact os fd (Some (replicate DEFAULT_BUF_SIZE 0)) (uint m) (int DEFAULT_BUF_SIZE) True w
      = ret (uint m, w') \<and> view w' = send fd (replicate (unat m) 0) (view w)"
proof -
  have "(if True then min (uint m) (int DEFAULT_BUF_SIZE) else uint m) \<le> int (length (replicate DEFAULT_BUF_SIZE (0 :: u8)))"
    by simp
  from write_exact_result [OF posixD(2) [OF assms(1)] _ uint_u32_less buf_size_pos this, of fd w]
  obtain data w' where res: "write_exact os fd (Some (replicate DEFAULT_BUF_SIZE 0)) (uint m) (int DEFAULT_BUF_SIZE) True w
      = ret (int (length data), w')" "int (length data) \<le> uint m" "view w' = send fd data (view w)"
    "repeats (replicate DEFAULT_BUF_SIZE 0) data" "int (length data) < uint m \<longrightarrow> short_write os fd"
    by auto
  have len: "int (length data) = uint m" using res(2,5) reliableD(2) [OF assms(2)] by auto
  then have "length data = unat m" by (metis nat_int unat_eq_nat_uint)
  then have "data = replicate (unat m) 0" using repeats_zeros [OF res(4)] by simp
  with res(1,3) len show ?thesis by metis
qed

lemma read_message:
  fixes m :: u32
  assumes "posix_read os view" "\<not> failed_read os fd" and "unat m \<le> length (coming_on (view w) fd)"
    and "0 < length buf"
  shows "\<exists>buf' w'. read_exact os fd (Some buf) (uint m) (int (length buf)) True w
      = ret (uint m, Some buf', w') \<and> length buf' = length buf \<and> view w' = receive fd (unat m) (view w)"
proof -
  have fits: "(if True then min (uint m) (int (length buf)) else uint m) \<le> int (length buf)" by simp
  have pos: "0 < int (length buf)" using assms(4) by simp
  obtain data :: "u8 list" and buf' w' where res: "read_exact os fd (Some buf) (uint m) (int (length buf)) True w
      = ret (int (length data), Some buf', w')" "int (length data) \<le> uint m"
    "view w' = receive fd (length data) (view w)" "length buf' = length buf"
    "int (length data) < uint m \<longrightarrow> coming_on (view w') fd = [] \<or> failed_read os fd"
    using read_exact_result [OF assms(1) uint_ge_0 uint_u32_less pos fits, of fd w]
    by blast
  have len: "int (length data) = uint m"
  proof (rule ccontr)
    assume "int (length data) \<noteq> uint m"
    with res(2,5) assms(2) have "coming_on (view w') fd = []" by linarith
    with res(3) have "length (coming_on (view w) fd) \<le> length data" by simp
    with assms(3) have "unat m \<le> length data" by (rule le_trans)
    then have "uint m \<le> int (length data)" by (metis of_nat_le_iff uint_nat)
    with res(2) \<open>int (length data) \<noteq> uint m\<close> show False by simp
  qed
  then have "length data = unat m" by (metis nat_int unat_eq_nat_uint)
  with res len show ?thesis by simp
qed

subsection \<open>The rounds of the server\<close>

text \<open>One round of the server's loop: \<open>Inl\<close> when it goes on, \<open>Inr\<close> when it ends.\<close>

definition traffic_round ::
  "'w os \<Rightarrow> u32 \<Rightarrow> int \<Rightarrow> u32 \<Rightarrow> 'w \<Rightarrow> (u32 \<times> 'w + u32 option \<times> 'w) run" where
  "traffic_round os junk connection k w =
     seq (read_exact os connection (Some (u32_bytes junk)) 4 4 False w) (\<lambda>(n, buf, w).
       if n \<noteq> 4 then ret (Inr (None, w))
       else let msg_size = u32_of_bytes (the buf) in
         if msg_size = 0 then ret (Inr (Some k, w))
         else seq (write_exact os connection (Some (replicate DEFAULT_BUF_SIZE 0)) (uint msg_size)
                     (int DEFAULT_BUF_SIZE) True w) (\<lambda>(n, w).
           if n \<noteq> uint msg_size then ret (Inr (None, w)) else ret (Inl (k + 1, w))))"

lemma server_loop_rounds:
  "server_loop os junk fd k w =
     seq (traffic_round os junk fd k w) (case_sum (\<lambda>(k, w). server_loop os junk fd k w) ret)"
  unfolding traffic_round_def seq_assoc
  by (subst server_loop.simps)
    (intro arg_cong [where f = "seq _"] ext, auto simp: Let_def seq_assoc intro!: arg_cong [where f = "seq _"] simp: fun_eq_iff)

text \<open>A round that finds a request answers it, or ends when the request is for nothing.\<close>

lemma traffic_round_result:
  assumes "posix os view" "reliable os fd" and "4 \<le> length (coming_on (view w) fd)"
  defines "m \<equiv> u32_of_bytes (take 4 (coming_on (view w) fd))"
  shows "\<exists>w'. traffic_round os junk fd k w = ret (if m = 0 then Inr (Some k, w') else Inl (k + 1, w')) \<and>
    view w' = send fd (replicate (unat m) 0) (receive fd 4 (view w))"
proof -
  obtain buf w1 where red: "read_exact os fd (Some (u32_bytes junk)) 4 4 False w = ret (4, buf, w1)"
      "the buf = take 4 (coming_on (view w) fd)" "view w1 = receive fd 4 (view w)"
    using read_request [OF assms(1-3), of junk] by blast
  obtain w2 where wrt: "write_exact os fd (Some (replicate DEFAULT_BUF_SIZE 0)) (uint m) (int DEFAULT_BUF_SIZE) True w1
      = ret (uint m, w2)" "view w2 = send fd (replicate (unat m) 0) (view w1)"
    using write_message [OF assms(1,2), of m w1] by blast
  show ?thesis
  proof (cases "m = 0")
    case True
    then show ?thesis using red by (simp add: traffic_round_def m_def send_def)
  next
    case False
    then show ?thesis using red wrt by (simp add: traffic_round_def m_def)
  qed
qed

subsection \<open>Descriptors on every path\<close>

lemma write_exact_returns:
  fixes m :: u32
  assumes "posix os view"
  shows "\<exists>r w'. write_exact os fd (Some (replicate DEFAULT_BUF_SIZE 0)) (uint m) (int DEFAULT_BUF_SIZE) True w
      = ret (r, w') \<and> fds (view w') = fds (view w) \<and> coming_on (view w') = coming_on (view w)"
proof -
  have "(if True then min (uint m) (int DEFAULT_BUF_SIZE) else uint m) \<le> int (length (replicate DEFAULT_BUF_SIZE (0 :: u8)))"
    by simp
  from write_exact_result [OF posixD(2) [OF assms] uint_ge_0 uint_u32_less buf_size_pos this, of fd w]
  show ?thesis by auto
qed

lemma server_loop_returns:
  assumes "posix os view"
  shows "\<exists>res w'. server_loop os junk fd n w = ret (res, w') \<and> fds (view w') = fds (view w)"
proof (induction "length (coming_on (view w) fd)" arbitrary: n w rule: less_induct)
  case less
  obtain data buf w1 where red:
    "read_exact os fd (Some (u32_bytes junk)) 4 4 False w = ret (int (length data), Some buf, w1)"
    "int (length data) \<le> 4" "data = take (length data) (coming_on (view w) fd)"
    "view w1 = receive fd (length data) (view w)"
    using read_exact_result [OF posixD(1) [OF assms], of 4 4 False "u32_bytes junk" fd w] by auto
  obtain r w2 where wrt: "write_exact os fd (Some (replicate DEFAULT_BUF_SIZE 0)) (uint (u32_of_bytes buf))
      (int DEFAULT_BUF_SIZE) True w1 = ret (r, w2)"
    "fds (view w2) = fds (view w1)" "coming_on (view w2) = coming_on (view w1)"
    using write_exact_returns [OF assms, of fd "u32_of_bytes buf" w1] by blast
  have same: "fds (view w1) = fds (view w)" using red(4) by simp
  show ?case
  proof (cases "length data = 4")
    case False
    then show ?thesis using red(1) same by (subst server_loop.simps) simp
  next
    case True
    have "length (coming_on (view w2) fd) < length (coming_on (view w) fd)"
      using True red(3,4) wrt(3) by (cases "coming_on (view w) fd") auto
    from less.hyps [OF this, of "n + 1"] obtain res w' where
      "server_loop os junk fd (n + 1) w2 = ret (res, w')" "fds (view w') = fds (view w2)" by blast
    then show ?thesis using True red(1) wrt(1,2) same by (subst server_loop.simps) (auto simp: Let_def)
  qed
qed

lemma client_loop_returns:
  assumes "posix os view"
  shows "0 < length buf \<Longrightarrow> \<exists>ok w'. client_loop os fd m n buf w = ret (ok, w') \<and> fds (view w') = fds (view w)"
proof (induction n arbitrary: buf w)
  case 0
  then show ?case by (intro exI [of _ True]) simp
next
  case (Suc n)
  obtain data w1 where wrt: "write_exact os fd (Some (u32_bytes m)) 4 4 False w = ret (int (length data), w1)"
    "view w1 = send fd data (view w)"
    using write_exact_result [OF posixD(2) [OF assms], of 4 4 False "u32_bytes m" fd w] by auto
  have fits: "(if True then min (uint m) (int (length buf)) else uint m) \<le> int (length buf)" by simp
  have pos: "0 < int (length buf)" using Suc.prems by simp
  obtain data' :: "u8 list" and buf' w2 where red:
    "read_exact os fd (Some buf) (uint m) (int (length buf)) True w1 = ret (int (length data'), Some buf', w2)"
    "view w2 = receive fd (length data') (view w1)" "length buf' = length buf"
    using read_exact_result [OF posixD(1) [OF assms] uint_ge_0 uint_u32_less pos fits, of fd w1] by blast
  obtain ok w' where "client_loop os fd m n buf' w2 = ret (ok, w')" "fds (view w') = fds (view w2)"
    using Suc.IH [of buf' w2] Suc.prems red(3) by auto
  then show ?case using wrt red by auto
qed


lemma server_err_fds:
  assumes "posix os view"
  shows "\<exists>w'. server_err os sockfd connection w = ret (1, None, w') \<and>
    fds (view w') = fds (view w) - {fd \<in> {sockfd, connection}. 0 \<le> fd}"
  by (auto simp: server_err_def Let_def posix_calls(7) [OF assms])

lemma client_err_fds:
  assumes "posix os view"
  shows "\<exists>w'. client_err os sockfd w = ret (1, None, w') \<and> fds (view w') = fds (view w) - {fd \<in> {sockfd}. 0 \<le> fd}"
  by (auto simp: client_err_def posix_calls(7) [OF assms])

lemma server_main_closes:
  assumes posix: "posix os view"
  shows "\<exists>code out w'. server_main os getopt strtoul junk argv w = ret (code, out, w') \<and>
    fds (view w') = fds (view w) \<and> (code = 0 \<longleftrightarrow> out \<noteq> None) \<and> code \<in> {0, 1}"
proof -
  obtain ok port where args: "server_parse_args strtoul (fst (getopt argv)) DEFAULT_SERVER_PORT = (ok, port)"
    by fastforce
  obtain sockfd w1 where c1: "socket_call os w = (sockfd, w1)" by fastforce
  obtain r2 w2 where c2: "setsockopt_call os sockfd w1 = (r2, w2)" by fastforce
  obtain r3 w3 where c3: "bind_call os sockfd (htons port) w2 = (r3, w3)" by fastforce
  obtain r4 w4 where c4: "listen_call os sockfd 5 w3 = (r4, w4)" by fastforce
  obtain connection w5 where c5: "accept_call os sockfd w4 = (connection, w5)" by fastforce
  obtain res w6 where c6: "server_loop os junk connection 0 w5 = ret (res, w6)" "fds (view w6) = fds (view w5)"
    using server_loop_returns [OF posix] by blast
  have views: "view w2 = view w1" "view w3 = view w2" "view w4 = view w3"
    using c2 c3 c4 posix_calls [OF posix] by (blast intro: keeps_viewD)+
  have new: "sockfd = -1 \<and> view w1 = view w \<or> 0 \<le> sockfd \<and> sockfd \<notin> fds (view w) \<and> fds (view w1) = fds (view w) \<union> {sockfd}"
    using opens_fdD [OF posix_calls(1) [OF posix] c1] by blast
  have new5: "connection = -1 \<and> view w5 = view w4 \<or>
      0 \<le> connection \<and> connection \<notin> fds (view w4) \<and> fds (view w5) = fds (view w4) \<union> {connection}"
    using opens_fdD [OF posix_calls(2) [OF posix] c5] by blast
  let ?good = "\<lambda>run. \<exists>code out w'. run = ret (code, out, w') \<and> fds (view w') = fds (view w) \<and>
      (code = 0 \<longleftrightarrow> out \<noteq> None) \<and> code \<in> {0, 1 :: int}"
  have err: "?good (server_err os a b v)" if "fds (view v) - {fd \<in> {a, b}. 0 \<le> fd} = fds (view w)" for a b v
    using server_err_fds [OF posix, of a b v] that by auto
  have opened: "?good (server_err os sockfd (-1) v)" if "view v = view w1" for v
    by (rule err) (use new that in auto)
  have accepted: "0 \<le> connection \<Longrightarrow> 0 \<le> sockfd \<Longrightarrow> fds (view w6) - {fd \<in> {sockfd, connection}. 0 \<le> fd} = fds (view w)"
    using new new5 views c6(2) by auto
  note main = server_main_def args c1 c2 c3 c4 c5 c6(1) Let_def
  consider (usage) "\<not> ok" | (socket) "ok" "sockfd < 0" | (opt) "ok" "0 \<le> sockfd" "r2 \<noteq> 0"
    | (bind) "ok" "0 \<le> sockfd" "r2 = 0" "r3 < 0" | (listen) "ok" "0 \<le> sockfd" "r2 = 0" "0 \<le> r3" "r4 < 0"
    | (accept) "ok" "0 \<le> sockfd" "r2 = 0" "0 \<le> r3" "0 \<le> r4" "connection < 0"
    | (serve) "ok" "0 \<le> sockfd" "r2 = 0" "0 \<le> r3" "0 \<le> r4" "0 \<le> connection" by linarith
  then show ?thesis
  proof cases
    case usage
    then show ?thesis by (simp add: main)
  next
    case socket
    then have "server_main os getopt strtoul junk argv w = server_err os sockfd (-1) w1" by (simp add: main)
    then show ?thesis using opened by simp
  next
    case opt
    then have "server_main os getopt strtoul junk argv w = server_err os sockfd (-1) w2" by (simp add: main)
    then show ?thesis using opened views by simp
  next
    case bind
    then have "server_main os getopt strtoul junk argv w = server_err os sockfd (-1) w3" by (simp add: main)
    then show ?thesis using opened views by simp
  next
    case listen
    then have "server_main os getopt strtoul junk argv w = server_err os sockfd (-1) w4" by (simp add: main)
    then show ?thesis using opened views by simp
  next
    case accept
    then have "server_main os getopt strtoul junk argv w = server_err os sockfd connection w5" by (simp add: main)
    moreover have "connection = -1" "view w5 = view w1" using accept new5 views by auto
    ultimately show ?thesis using opened [of w5] by simp
  next
    case serve
    show ?thesis
    proof (cases res)
      case None
      with serve have "server_main os getopt strtoul junk argv w = server_err os sockfd connection w6"
        by (simp add: main)
      then show ?thesis using err [OF accepted] serve by simp
    next
      case (Some n)
      with serve have "server_main os getopt strtoul junk argv w
          = ret (0, Some n, close_call os sockfd (close_call os connection w6))"
        by (simp add: main)
      moreover have "fds (view (close_call os sockfd (close_call os connection w6))) = fds (view w)"
        using accepted serve by (auto simp: posix_calls(7) [OF posix])
      ultimately show ?thesis by simp
    qed
  qed
qed

lemma client_main_closes:
  assumes posix: "posix os view" and buf: "length read_buf = DEFAULT_BUF_SIZE"
  shows "\<exists>code out w'. client_main os getopt strtoul inet_pton read_buf argv w = ret (code, out, w') \<and>
    fds (view w') = fds (view w) \<and> (code = 0 \<longleftrightarrow> out \<noteq> None) \<and> code \<in> {0, 1}"
proof -
  have buf0: "0 < length read_buf" using buf by (simp add: DEFAULT_BUF_SIZE_def)
  obtain ok st where args: "client_parse_args getopt strtoul argv = (ok, st)" by fastforce
  obtain sockfd w1 where c1: "socket_call os w = (sockfd, w1)" by fastforce
  obtain r2 address where c2: "inet_pton (the (server_ip st)) = (r2, address)" by fastforce
  obtain r3 w3 where c3: "connect_call os sockfd address (htons (server_port st)) w1 = (r3, w3)" by fastforce
  obtain r4 s0 u0 w4 where c4: "gettimeofday_call os w3 = ((r4, s0, u0), w4)" by (metis prod.collapse)
  obtain fin w5 where c5: "client_loop os sockfd (msg_size st) (unat (iters st)) read_buf w4 = ret (fin, w5)"
    "fds (view w5) = fds (view w4)"
    using client_loop_returns [OF posix buf0] by blast
  obtain r6 s1 u1 w6 where c6: "gettimeofday_call os w5 = ((r6, s1, u1), w6)" by (metis prod.collapse)
  obtain data w7 where c7: "write_exact os sockfd (Some (u32_bytes 0)) 4 4 False w6 = ret (int (length data), w7)"
    "view w7 = send sockfd data (view w6)"
    using write_exact_result [OF posixD(2) [OF posix], of 4 4 False "u32_bytes 0" sockfd w6] by auto
  have views: "view w3 = view w1" "view w4 = view w3" "view w6 = view w5"
    using c3 c4 c6 posix_calls(6,8) [OF posix] by (blast intro: keeps_viewD, metis snd_conv, metis snd_conv)
  have new: "sockfd = -1 \<and> view w1 = view w \<or> 0 \<le> sockfd \<and> sockfd \<notin> fds (view w) \<and> fds (view w1) = fds (view w) \<union> {sockfd}"
    using opens_fdD [OF posix_calls(1) [OF posix] c1] by blast
  let ?good = "\<lambda>run. \<exists>code out w'. run = ret (code, out, w') \<and> fds (view w') = fds (view w) \<and>
      (code = 0 \<longleftrightarrow> out \<noteq> None) \<and> code \<in> {0, 1 :: int}"
  have err: "?good (client_err os sockfd v)" if "fds (view v) = fds (view w1)" for v
    using client_err_fds [OF posix, of sockfd v] new that by auto
  have fds: "fds (view w3) = fds (view w1)" "fds (view w4) = fds (view w1)" "fds (view w5) = fds (view w1)"
    "fds (view w6) = fds (view w1)" "fds (view w7) = fds (view w1)"
    using views c5(2) c7(2) by simp_all
  note main = client_main_def args c1 c2 c3 c4 c5(1) c6 c7(1) Let_def
  consider (usage) "\<not> ok" | (socket) "ok" "sockfd < 0" | (address) "ok" "\<not> sockfd < 0" "r2 \<le> 0"
    | (connect) "ok" "\<not> sockfd < 0" "\<not> r2 \<le> 0" "r3 < 0"
    | (clock) "ok" "\<not> sockfd < 0" "\<not> r2 \<le> 0" "\<not> r3 < 0" "r4 \<noteq> 0"
    | (loop) "ok" "\<not> sockfd < 0" "\<not> r2 \<le> 0" "\<not> r3 < 0" "r4 = 0" "\<not> fin"
    | (clock') "ok" "\<not> sockfd < 0" "\<not> r2 \<le> 0" "\<not> r3 < 0" "r4 = 0" "fin" "r6 \<noteq> 0"
    | (final) "ok" "\<not> sockfd < 0" "\<not> r2 \<le> 0" "\<not> r3 < 0" "r4 = 0" "fin" "r6 = 0" "length data \<noteq> 4"
    | (finished) "ok" "\<not> sockfd < 0" "\<not> r2 \<le> 0" "\<not> r3 < 0" "r4 = 0" "fin" "r6 = 0" "length data = 4"
    by blast
  then show ?thesis
  proof cases
    case usage
    then show ?thesis by (simp add: main)
  next
    case socket
    then show ?thesis using err [of w1] by (simp add: main)
  next
    case address
    then show ?thesis using err [of w1] by (simp add: main)
  next
    case connect
    then show ?thesis using err [of w3] fds by (simp add: main)
  next
    case clock
    then show ?thesis using err [of w4] fds by (simp add: main)
  next
    case loop
    then show ?thesis using err [of w5] fds by (simp add: main)
  next
    case clock'
    then show ?thesis using err [of w6] fds by (simp add: main)
  next
    case final
    then show ?thesis using err [of w7] fds by (simp add: main)
  next
    case finished
    then show ?thesis using new fds by (auto simp: main posix_calls(7) [OF posix])
  qed
qed

lemma client_options_ok:
  "client_options strtoul opts st = (True, st') \<Longrightarrow> iters st \<noteq> 0 \<Longrightarrow> msg_size st \<noteq> 0 \<Longrightarrow>
   iters st' \<noteq> 0 \<and> msg_size st' \<noteq> 0 \<and> server_ip st' = server_ip st"
  by (induction strtoul opts st rule: client_options.induct) (auto simp: Let_def split: if_splits)

lemma arguments_ok:
  assumes "client_parse_args getopt strtoul argv = (True, st)"
  shows "iters st \<noteq> 0 \<and> msg_size st \<noteq> 0 \<and> server_ip st = Some (hd (snd (getopt argv))) \<and>
    length (snd (getopt argv)) = 1"
proof -
  obtain opts operands where args: "getopt argv = (opts, operands)" by fastforce
  obtain ok st1 where opts: "client_options strtoul opts client_defaults = (ok, st1)" by fastforce
  with assms args have "ok" by (auto simp: client_parse_args_def Let_def split: if_splits)
  with opts have "iters st1 \<noteq> 0 \<and> msg_size st1 \<noteq> 0 \<and> server_ip st1 = None"
    using client_options_ok [of strtoul opts client_defaults st1]
    by (simp add: client_defaults_def DEFAULT_ITERS_def DEFAULT_MSG_SIZE_def)
  with assms args opts \<open>ok\<close> show ?thesis
    by (auto simp: client_parse_args_def Let_def split: if_splits)
qed

subsection \<open>Properties\<close>

text \<open>C39: whatever the system calls do, the server always returns, with status 0 exactly when it prints its
  count of messages, and closes every descriptor it opened, on every path through \<open>err\<close>.\<close>

theorem server_closes_descriptors:
  assumes "posix os view"
  shows "\<exists>code out w'. server_main os getopt strtoul junk argv w = ret (code, out, w') \<and>
    fds (view w') = fds (view w) \<and> (code = 0 \<longleftrightarrow> out \<noteq> None) \<and> code \<in> {0, 1}"
  by (rule server_main_closes [OF assms])

theorem server_closes_descriptors_witness:
  "\<exists>code out w'. server_main linux (\<lambda>_. ([], [])) (\<lambda>_. 0) 9 [''server''] demo_kernel = ret (code, out, w') \<and>
    fds (knet w') = fds (knet demo_kernel) \<and> (code = 0 \<longleftrightarrow> out \<noteq> None) \<and> code \<in> {0, 1}"
  by (rule server_closes_descriptors [OF linux_posix])

text \<open>Whatever the system calls do, the client always returns, with status 0 exactly when it prints its
  measurement, and closes the socket it opened.\<close>

theorem client_closes_descriptors:
  assumes "posix os view" and "length read_buf = DEFAULT_BUF_SIZE"
  shows "\<exists>code out w'. client_main os getopt strtoul inet_pton read_buf argv w = ret (code, out, w') \<and>
    fds (view w') = fds (view w) \<and> (code = 0 \<longleftrightarrow> out \<noteq> None) \<and> code \<in> {0, 1}"
  by (rule client_main_closes [OF assms])

theorem client_closes_descriptors_witness:
  "\<exists>code out w'. client_main linux (\<lambda>_. ([], [''10.0.0.1''])) (\<lambda>_. 0) (\<lambda>_. (1, 0x0a000001))
      (replicate DEFAULT_BUF_SIZE 0) [''client'', ''10.0.0.1''] demo_kernel = ret (code, out, w') \<and>
    fds (knet w') = fds (knet demo_kernel) \<and> (code = 0 \<longleftrightarrow> out \<noteq> None) \<and> code \<in> {0, 1}"
  by (rule client_closes_descriptors [OF linux_posix length_replicate])

text \<open>The client runs only with a positive number of iterations, a positive message size and a host: a
  request can never be mistaken for the final zero.\<close>

theorem client_arguments_checked:
  assumes "client_parse_args getopt strtoul argv = (True, st)"
  shows "iters st \<noteq> 0 \<and> msg_size st \<noteq> 0 \<and> server_ip st = Some (hd (snd (getopt argv))) \<and>
    length (snd (getopt argv)) = 1"
  by (rule arguments_ok [OF assms])

theorem client_arguments_checked_witness:
  "iters (client_defaults\<lparr>iters := 5, server_ip := Some ''h''\<rparr>) \<noteq> 0"
  using client_arguments_checked [of "\<lambda>_. ([(CHR ''n'', ''5'')], [''h''])" "\<lambda>_. 5" "[]"
      "client_defaults\<lparr>iters := 5, server_ip := Some ''h''\<rparr>"]
  by (simp add: client_parse_args_def client_defaults_def)

end
