(* ===== verification/Echo_Server.thy ===== *)
theory Echo_Server
  imports Exact_Io Netfilter "HOL-Library.Sublist"
begin

text \<open>
  The forking echo server and its client, \<^verbatim>\<open>echo-server\<close>: \<open>readline\<close> of \<^verbatim>\<open>unp.h\<close>, \<open>str_echo\<close>,
  \<open>sig_chld\<close> and the accept loop of \<^verbatim>\<open>tcpserv.c\<close>, and \<open>str_cli\<close> of \<^verbatim>\<open>tcpcli.c\<close>.  \<open>fork\<close> is a parameter: its
  result says which of the two processes goes on.  \<open>relay\<close> is the step all three echo servers share, one
  \<open>read\<close> whose bytes are written back; what it does follows from the contract of the writer.
\<close>

definition SERV_PORT :: u16 where "SERV_PORT = 12345"
definition LISTENQ :: nat where "LISTENQ = 5"
definition MAXLINE :: nat where "MAXLINE = 1024"

definition newline :: u8 where "newline = 10"

subsection \<open>Reading lines\<close>

definition end_line :: "u8 list \<Rightarrow> nat \<Rightarrow> int \<Rightarrow> 'w \<Rightarrow> (int \<times> u8 list \<times> 'w) run" where
  "end_line buf ptr n w = (if ptr < length buf then ret (n, buf[ptr := 0], w) else stuck Out_Of_Bounds)"

partial_function (option) readline_loop ::
  "'w os \<Rightarrow> int \<Rightarrow> int \<Rightarrow> u8 list \<Rightarrow> nat \<Rightarrow> int \<Rightarrow> 'w \<Rightarrow> (int \<times> u8 list \<times> 'w) run" where
  "readline_loop os fd maxlen buf ptr n w =
     (if size_t n < size_t (maxlen - 1) then
        let room = nat (size_t (maxlen - n - 1)) in
        if ptr + room > length buf then stuck Out_Of_Bounds
        else let ((rc, bs), w) = read_call os fd room w; buf = store buf ptr bs in
          if rc > 0 then
            let ptr = ptr + nat rc; n = n + rc in
            if buf ! (ptr - 1) = newline then end_line buf ptr n w
            else readline_loop os fd maxlen buf ptr n w
          else if rc = 0 then end_line buf ptr n w
          else if errno_of os w \<noteq> EINTR then ret (-1, buf, w)
          else readline_loop os fd maxlen buf ptr n w
      else end_line buf ptr n w)"

definition readline :: "'w os \<Rightarrow> int \<Rightarrow> u8 list \<Rightarrow> int \<Rightarrow> 'w \<Rightarrow> (int \<times> u8 list \<times> 'w) run" where
  "readline os fd buf maxlen w = readline_loop os fd maxlen buf 0 0 w"

subsection \<open>The server\<close>

definition relay ::
  "('w os \<Rightarrow> int \<Rightarrow> u8 list \<Rightarrow> 'w \<Rightarrow> (int \<times> 'w) run) \<Rightarrow> 'w os \<Rightarrow> int \<Rightarrow> nat \<Rightarrow> 'w \<Rightarrow> (int \<times> 'w) run" where
  "relay wr os fd sz w =
     (let ((n, bs), w) = read_call os fd sz w in
      if n > 0 then seq (wr os fd bs w) (\<lambda>(_, w). ret (n, w)) else ret (n, w))"

definition writen_all :: "'w os \<Rightarrow> int \<Rightarrow> u8 list \<Rightarrow> 'w \<Rightarrow> (int \<times> 'w) run" where
  "writen_all os fd data w = writen os fd data (int (length data)) w"

partial_function (option) str_echo :: "'w os \<Rightarrow> int \<Rightarrow> 'w \<Rightarrow> 'w run" where
  "str_echo os sockfd w =
     seq (relay writen_all os sockfd MAXLINE w) (\<lambda>(n, w).
       if n = 0 \<or> (n < 0 \<and> errno_of os w \<noteq> EINTR) then ret w
       else str_echo os sockfd w)"

text \<open>\<open>waitpid(-1, &stat, WNOHANG)\<close> returns the number of a terminated child it has collected.\<close>

partial_function (option) sig_chld :: "('w \<Rightarrow> int \<times> 'w) \<Rightarrow> int list \<Rightarrow> 'w \<Rightarrow> (int list \<times> 'w) run" where
  "sig_chld waitpid printed w =
     (let (pid, w) = waitpid w in
      if pid > 0 then sig_chld waitpid (printed @ [pid]) w else ret (printed, w))"

text \<open>One round of the accept loop; a process goes on, or it ends.\<close>

datatype 'w progress = Goes_On 'w | Ends 'w

definition tcpserv_round :: "'w os \<Rightarrow> ('w \<Rightarrow> int \<times> 'w) \<Rightarrow> int \<Rightarrow> 'w \<Rightarrow> 'w progress run" where
  "tcpserv_round os fork listenfd w =
     (let (connfd, w) = accept_call os listenfd w in
      if connfd < 0 then (if errno_of os w = EINTR then ret (Goes_On w) else ret (Ends w))
      else let (childpid, w) = fork w in
        if childpid = 0 then
          let w = close_call os listenfd w in
          seq (str_echo os connfd w) (\<lambda>w. ret (Ends (close_call os connfd w)))
        else ret (Goes_On (close_call os connfd w)))"

partial_function (option) tcpserv_loop :: "'w os \<Rightarrow> ('w \<Rightarrow> int \<times> 'w) \<Rightarrow> int \<Rightarrow> 'w \<Rightarrow> 'w run" where
  "tcpserv_loop os fork listenfd w =
     seq (tcpserv_round os fork listenfd w) (\<lambda>p.
       case p of Goes_On w \<Rightarrow> tcpserv_loop os fork listenfd w | Ends w \<Rightarrow> ret w)"

text \<open>\<open>signal(SIGCHLD, sig_chld)\<close> is the parameter \<open>signal\<close>; every exit returns 0.\<close>

definition tcpserv_main :: "'w os \<Rightarrow> ('w \<Rightarrow> bool \<times> 'w) \<Rightarrow> ('w \<Rightarrow> int \<times> 'w) \<Rightarrow> 'w \<Rightarrow> 'w run" where
  "tcpserv_main os signal fork w =
     (let (listenfd, w) = socket_call os w in
      if listenfd < 0 then ret w
      else let (r, w) = bind_call os listenfd (htons SERV_PORT) w in
        if r < 0 then ret w
        else let (r, w) = listen_call os listenfd LISTENQ w in
          if r < 0 then ret w
          else let (ok, w) = signal w in
            if \<not> ok then ret w
            else tcpserv_loop os fork listenfd w)"

subsection \<open>The client\<close>

text \<open>\<open>fgets\<close> takes the next line, newline included, but at most \<open>n - 1\<close> bytes; \<open>strlen\<close>, \<open>fputs\<close> stop at NUL.\<close>

definition fgets :: "nat \<Rightarrow> u8 list \<Rightarrow> (u8 list \<times> u8 list) option" where
  "fgets n inp =
     (let len = min (n - 1) (Suc (length (takeWhile (\<lambda>c. c \<noteq> newline) inp)))
      in if inp = [] then None else Some (take len inp, drop len inp))"

definition c_str :: "u8 list \<Rightarrow> u8 list" where
  "c_str bs = takeWhile (\<lambda>c. c \<noteq> 0) bs"

partial_function (option) str_cli ::
  "'w os \<Rightarrow> int \<Rightarrow> u8 list \<Rightarrow> u8 list \<Rightarrow> u8 list \<Rightarrow> 'w \<Rightarrow> (u8 list \<times> 'w) run" where
  "str_cli os sockfd recvline inp out w =
     (case fgets MAXLINE inp of
        None \<Rightarrow> ret (out, w)
      | Some (sendline, inp) \<Rightarrow>
          seq (writen_all os sockfd (c_str sendline) w) (\<lambda>(_, w).
            seq (readline os sockfd recvline (int MAXLINE) w) (\<lambda>(n, recvline, w).
              if n > 0 then str_cli os sockfd recvline inp (out @ c_str recvline) w
              else ret (out, w))))"

definition tcpcli_main ::
  "'w os \<Rightarrow> (string \<Rightarrow> int \<times> u32) \<Rightarrow> u8 list \<Rightarrow> u8 list \<Rightarrow> string list \<Rightarrow> 'w \<Rightarrow> (u8 list \<times> 'w) run" where
  "tcpcli_main os inet_pton recvline stdin argv w =
     (if length argv \<noteq> 2 then ret ([], w)
      else let (sockfd, w) = socket_call os w in
        if sockfd < 0 then ret ([], w)
        else let (r, address) = inet_pton (argv ! 1) in
          if r \<le> 0 then ret ([], w)
          else let (r, w) = connect_call os sockfd address (htons SERV_PORT) w in
            if r \<noteq> 0 then ret ([], w)
            else str_cli os sockfd recvline stdin [] w)"

lemmas [loop_eqs] = readline_loop.simps str_echo.simps sig_chld.simps tcpserv_loop.simps str_cli.simps

subsection \<open>What a relay does\<close>

context exact_writer
begin

lemma relay_returns:
  assumes posix: "posix os view" and signals: "finite_signals os m" and sz: "sz < 2 ^ 63" "0 < sz"
  shows "\<exists>n w' k j. relay wr os fd sz w = ret (n, w') \<and>
    view w' = send fd (take j (take k (coming_on (view w) fd))) (receive fd k (view w)) \<and>
    j \<le> k \<and> m w' \<le> m w \<and> k \<le> length (coming_on (view w) fd) \<and>
    (n = int k \<and> (k = 0 \<longrightarrow> coming_on (view w) fd = []) \<or>
     n = -1 \<and> k = 0 \<and> failed_read os fd \<and> (errno_of os w' = EINTR \<longrightarrow> m w' < m w)) \<and>
    (j < k \<longrightarrow> short_write os fd)"
proof -
  obtain n bs w1 where call: "read_call os fd sz w = ((n, bs), w1)" by (metis prod.collapse)
  have m: "m w1 \<le> m w" "n = -1 \<Longrightarrow> errno_of os w1 = EINTR \<Longrightarrow> m w1 < m w"
    using signals call by (auto simp: finite_signals_def)
  from posixD(1) [OF posix] call show ?thesis
  proof (cases rule: posix_readE)
    case failed
    then have "failed_read os fd" using call unfolding failed_read_def by (metis fst_conv)
    with failed m show ?thesis
      by (intro exI [of _ "-1"] exI [of _ w1] exI [of _ 0] exI [of _ 0]) (simp add: relay_def call)
  next
    case delivered
    have k: "length bs \<le> length (coming_on (view w) fd)"
      using delivered(4) by (metis length_take min.cobounded1)
    show ?thesis
    proof (cases "bs = []")
      case True
      then show ?thesis using delivered m sz
        by (intro exI [of _ 0] exI [of _ w1] exI [of _ 0] exI [of _ 0]) (simp add: relay_def call)
    next
      case False
      have "length bs < 2 ^ 63" using delivered(3) sz by simp
      from writes [OF posix signals this, of fd w1] obtain j r w2 where wrt:
        "wr os fd bs w1 = ret (r, w2)" "j \<le> length bs" "view w2 = send fd (take j bs) (view w1)"
        "m w2 \<le> m w1" "j < length bs \<longrightarrow> short_write os fd"
        by (metis nat_less_le)
      have "relay wr os fd sz w = ret (n, w2)"
        using False delivered(1) wrt(1) by (simp add: relay_def call)
      then show ?thesis using wrt delivered m k False
        by (intro exI [of _ n] exI [of _ w2] exI [of _ "length bs"] exI [of _ j]) auto
    qed
  qed
qed

end

lemma writen_all_writer: "exact_writer writen_all"
  using wr_n.exact_writer_axioms unfolding writen_all_def .

interpretation echo: exact_writer writen_all
  by (rule writen_all_writer)

lemma take_drop_split: "k \<le> length xs \<Longrightarrow> take (k + n) xs = take k xs @ take n (drop k xs)"
  by (simp add: take_add)

lemma str_echo_result:
  assumes posix: "posix os view" and signals: "finite_signals os m"
  shows "\<exists>data n w'. str_echo os fd w = ret w' \<and> view w' = send fd data (receive fd n (view w)) \<and>
    n \<le> length (coming_on (view w) fd) \<and> subseq data (take n (coming_on (view w) fd)) \<and>
    (\<not> short_write os fd \<longrightarrow> data = take n (coming_on (view w) fd)) \<and>
    (\<not> failed_read os fd \<longrightarrow> n = length (coming_on (view w) fd))"
proof (induction "length (coming_on (view w) fd) + m w" arbitrary: w rule: less_induct)
  case less
  let ?coming = "coming_on (view w) fd"
  obtain n w1 k j where step: "relay writen_all os fd MAXLINE w = ret (n, w1)"
    "view w1 = send fd (take j (take k ?coming)) (receive fd k (view w))" "j \<le> k" "m w1 \<le> m w"
    "k \<le> length ?coming"
    "n = int k \<and> (k = 0 \<longrightarrow> ?coming = []) \<or>
     n = -1 \<and> k = 0 \<and> failed_read os fd \<and> (errno_of os w1 = EINTR \<longrightarrow> m w1 < m w)"
    "j < k \<longrightarrow> short_write os fd"
    using echo.relay_returns [OF posix signals, of MAXLINE fd w] by (auto simp: MAXLINE_def)
  show ?case
  proof (cases "n = 0 \<or> n < 0 \<and> errno_of os w1 \<noteq> EINTR")
    case True
    then have "k = 0" using step(6) by auto
    with True step show ?thesis
      by (intro exI [of _ "[]"] exI [of _ 0] exI [of _ w1]) (auto simp: str_echo.simps [of os fd w])
  next
    case False
    then have decr: "length (coming_on (view w1) fd) + m w1 < length ?coming + m w"
      using step(2,4,5,6) by auto
    from less.hyps [OF this] obtain data n' w' where rest: "str_echo os fd w1 = ret w'"
      "view w' = send fd data (receive fd n' (view w1))"
      "n' \<le> length (coming_on (view w1) fd)" "subseq data (take n' (coming_on (view w1) fd))"
      "\<not> short_write os fd \<longrightarrow> data = take n' (coming_on (view w1) fd)"
      "\<not> failed_read os fd \<longrightarrow> n' = length (coming_on (view w1) fd)" by blast
    have coming: "coming_on (view w1) fd = drop k ?coming" using step(2) by simp
    let ?data = "take j (take k ?coming) @ data"
    have all: "take (k + n') ?coming = take k ?coming @ take n' (drop k ?coming)"
      using step(5) by (rule take_drop_split)
    have "subseq ?data (take (k + n') ?coming)"
      unfolding all using rest(4) coming
      by (intro list_emb_append_mono prefix_imp_subseq [OF take_is_prefix]) simp
    moreover have "\<not> short_write os fd \<longrightarrow> ?data = take (k + n') ?coming"
      unfolding all using rest(5) step(3,7) coming by (auto simp: nat_less_le)
    moreover have "view w' = send fd ?data (receive fd (k + n') (view w))"
      using rest(2) step(2) by (simp add: send_receive)
    moreover have "str_echo os fd w = ret w'"
      using False step(1) rest(1) by (subst str_echo.simps) auto
    ultimately show ?thesis using rest(3,6) step(5) coming
      by (intro exI [of _ ?data] exI [of _ "k + n'"] exI [of _ w']) auto
  qed
qed

text \<open>
  \<open>line_read\<close> is what a run of the loop from \<open>ptr\<close> has to achieve: \<open>data\<close> comes off the stream into the buffer, ends with
  a zero, and stops at a newline, at the end of the room or of the stream, unless a read failed.
\<close>

definition line_read :: "'w os \<Rightarrow> ('w \<Rightarrow> net) \<Rightarrow> int \<Rightarrow> int \<Rightarrow> u8 list \<Rightarrow> nat \<Rightarrow> 'w \<Rightarrow> u8 list \<Rightarrow> int \<Rightarrow> u8 list \<Rightarrow> 'w \<Rightarrow> bool" where
  "line_read os view fd maxlen buf ptr w data r buf' w' \<longleftrightarrow>
     data = take (length data) (coming_on (view w) fd) \<and> view w' = receive fd (length data) (view w) \<and>
     int (ptr + length data) < maxlen \<and> length buf' = length buf \<and>
     (r = int (ptr + length data) \<and> buf' = store buf ptr (data @ [0]) \<and>
        (r = maxlen - 1 \<or> data \<noteq> [] \<and> last data = newline \<or> coming_on (view w') fd = []) \<or>
      r = -1 \<and> failed_read os fd)"

lemma line_read_later:
  assumes "line_read os view fd maxlen buf ptr w1 data r buf' w'" and "view w1 = view w"
  shows "line_read os view fd maxlen buf ptr w data r buf' w'"
  using assms(1) unfolding line_read_def assms(2) .

lemma line_read_append:
  assumes rest: "line_read os view fd maxlen (store buf ptr bs) (ptr + length bs) w1 data r buf' w'"
    and buf: "int (length buf) = maxlen" "ptr + length bs < length buf"
    and bs: "bs = take (length bs) (coming_on (view w) fd)" "view w1 = receive fd (length bs) (view w)"
  shows "line_read os view fd maxlen buf ptr w (bs @ data) r buf' w'"
proof -
  note r = rest [unfolded line_read_def]
  define D where "D = bs @ data"
  have len_D: "length D = length bs + length data" by (simp add: D_def)
  have fits: "ptr + length bs + length data < length buf" using r buf(1) by linarith
  then have stored: "store (store buf ptr bs) (ptr + length bs) (data @ [0]) = store buf ptr (D @ [0])" by (simp add: D_def)
  have same: "length (store buf ptr bs) = length buf" using buf(2) by simp
  have "coming_on (view w1) fd = drop (length bs) (coming_on (view w) fd)" using bs(2) by simp
  then have "D = take (length D) (coming_on (view w) fd)"
    unfolding len_D take_add using r bs(1) by (simp only: D_def)
  moreover have "view w' = receive fd (length D) (view w)" using r bs(2) by (simp add: len_D)
  moreover have "data \<noteq> [] \<and> last data = newline \<Longrightarrow> D \<noteq> [] \<and> last D = newline" by (simp add: D_def)
  ultimately have "line_read os view fd maxlen buf ptr w D r buf' w'"
    unfolding line_read_def len_D using r [unfolded stored same add.assoc] by blast
  then show ?thesis by (simp only: D_def)
qed

text \<open>The end of the loop, and the step it makes otherwise.\<close>

lemma end_line_store:
  "ptr + length bs < length buf \<Longrightarrow>
   end_line (store buf ptr bs) (ptr + length bs) n w = ret (n, store buf ptr (bs @ [0]), w)"
  by (simp add: end_line_def store_def upd_conv_take_nth_drop add.assoc)

lemma readline_loop_step:
  assumes "0 < maxlen" "maxlen < 2 ^ 63" "int ptr < maxlen - 1" "int (length buf) = maxlen"
    and "read_call os fd (nat (maxlen - int ptr - 1)) w = ((rc, bs), w1)"
  shows "readline_loop os fd maxlen buf ptr (int ptr) w =
    (if rc > 0 then
       if store buf ptr bs ! (ptr + nat rc - 1) = newline then end_line (store buf ptr bs) (ptr + nat rc) (int ptr + rc) w1
       else readline_loop os fd maxlen (store buf ptr bs) (ptr + nat rc) (int ptr + rc) w1
     else if rc = 0 then end_line (store buf ptr bs) ptr (int ptr) w1
     else if errno_of os w1 \<noteq> EINTR then ret (-1, store buf ptr bs, w1)
     else readline_loop os fd maxlen (store buf ptr bs) ptr (int ptr) w1)"
proof -
  have "size_t (int ptr) = int ptr" "size_t (maxlen - 1) = maxlen - 1" "size_t (maxlen - int ptr - 1) = maxlen - int ptr - 1"
    using assms(1-3) by auto
  moreover have "\<not> length buf < ptr + nat (maxlen - int ptr - 1)" using assms(3,4) by linarith
  ultimately show ?thesis using assms(3,5) by (subst readline_loop.simps) (simp add: Let_def)
qed

lemma last_stored:
  assumes "bs \<noteq> []" "ptr + length bs < length buf"
  shows "store buf ptr bs ! (ptr + length bs - 1) = last bs"
  using assms by (cases "length bs") (auto simp: store_def nth_append last_conv_nth)

lemma readline_loop_result:
  assumes posix: "posix_read os view" and signals: "finite_signals os m"
    and buf: "0 < maxlen" "maxlen < 2 ^ 63"
  shows "int ptr < maxlen \<Longrightarrow> int (length buf) = maxlen \<Longrightarrow>
    \<exists>data r buf' w'. readline_loop os fd maxlen buf ptr (int ptr) w = ret (r, buf', w') \<and>
      line_read os view fd maxlen buf ptr w data r buf' w'"
proof (induction "length buf - ptr + m w" arbitrary: buf ptr w rule: less_induct)
  case less
  have finish: "end_line buf ptr (int ptr) w = ret (int ptr, store buf ptr [0], w)" for w
    using end_line_store [of ptr "[]" buf] less.prems by simp
  show ?case
  proof (cases "int ptr < maxlen - 1")
    case False
    then have "size_t (int ptr) = int ptr" "size_t (maxlen - 1) = maxlen - 1" using less.prems buf by auto
    then have "readline_loop os fd maxlen buf ptr (int ptr) w = ret (int ptr, store buf ptr [0], w)"
      using False by (simp add: readline_loop.simps [of os fd maxlen buf ptr] finish)
    moreover have "line_read os view fd maxlen buf ptr w [] (int ptr) (store buf ptr [0]) w"
      using False less.prems by (simp add: line_read_def)
    ultimately show ?thesis by blast
  next
    case True
    obtain rc bs w1 where call: "read_call os fd (nat (maxlen - int ptr - 1)) w = ((rc, bs), w1)" by (metis prod.collapse)
    note step = readline_loop_step [OF buf True less.prems(2) call]
    have m: "m w1 \<le> m w" "rc = -1 \<Longrightarrow> errno_of os w1 = EINTR \<Longrightarrow> m w1 < m w"
      using signals call by (auto simp: finite_signals_def)
    from posix call show ?thesis
    proof (cases rule: posix_readE)
      case failed
      have bad: "failed_read os fd" using failed(1) call unfolding failed_read_def by (metis fst_conv)
      show ?thesis
      proof (cases "errno_of os w1 = EINTR")
        case False
        then have "readline_loop os fd maxlen buf ptr (int ptr) w = ret (-1, buf, w1)" using failed by (simp add: step)
        moreover have "line_read os view fd maxlen buf ptr w [] (-1) buf w1"
          using failed bad less.prems by (simp add: line_read_def)
        ultimately show ?thesis by blast
      next
        case EINTR: True
        then have decr: "length buf - ptr + m w1 < length buf - ptr + m w" using m failed by simp
        have "readline_loop os fd maxlen buf ptr (int ptr) w = readline_loop os fd maxlen buf ptr (int ptr) w1"
          using EINTR failed by (simp add: step)
        with less.hyps [OF decr less.prems] show ?thesis using line_read_later [of os view fd maxlen buf ptr w1 _ _ _ _ w, OF _ failed(3)] by metis
      qed
    next
      case delivered
      have len: "ptr + length bs < length buf" using delivered(3) True less.prems by linarith
      show ?thesis
      proof (cases "bs = [] \<or> last bs = newline")
        case True
        have "readline_loop os fd maxlen buf ptr (int ptr) w = ret (int (ptr + length bs), store buf ptr (bs @ [0]), w1)"
          using True delivered(1) last_stored [OF _ len] finish [of w1] end_line_store [OF len]
          by (auto simp: step)
        moreover have "line_read os view fd maxlen buf ptr w bs (int (ptr + length bs)) (store buf ptr (bs @ [0])) w1"
          using delivered(4-6) len less.prems True \<open>int ptr < maxlen - 1\<close> by (auto simp: line_read_def)
        ultimately show ?thesis by blast
      next
        case False
        have "length (store buf ptr bs) - (ptr + length bs) + m w1 < length buf - ptr + m w"
          using len m(1) False by (cases bs) auto
        moreover have "int (ptr + length bs) < maxlen" "int (length (store buf ptr bs)) = maxlen"
          using len less.prems by auto
        ultimately obtain data r buf' w' where
          rest: "readline_loop os fd maxlen (store buf ptr bs) (ptr + length bs) (int (ptr + length bs)) w1 = ret (r, buf', w')"
            "line_read os view fd maxlen (store buf ptr bs) (ptr + length bs) w1 data r buf' w'"
          using less.hyps by blast
        have "readline_loop os fd maxlen buf ptr (int ptr) w = ret (r, buf', w')"
          using rest(1) False delivered(1) last_stored [OF _ len] by (simp add: step)
        then show ?thesis using line_read_append [OF rest(2) less.prems(2) len delivered(4,6)] by blast
      qed
    qed
  qed
qed

subsection \<open>The client and an echoing server\<close>

text \<open>
  What the client's system calls do when the server echoes: a \<open>write\<close> accepts some of the data, which then
  waits to be read; a \<open>read\<close> delivers some of what is waiting.  This holds in the worlds that are \<open>alive\<close>, and they stay so.
\<close>

definition echo_peer :: "'w os \<Rightarrow> int \<Rightarrow> ('w \<Rightarrow> bool) \<Rightarrow> ('w \<Rightarrow> u8 list) \<Rightarrow> bool" where
  "echo_peer os fd alive waiting \<longleftrightarrow>
     (\<forall>data w. data \<noteq> [] \<longrightarrow> alive w \<longrightarrow> (\<exists>r w'. write_call os fd data w = (int r, w') \<and> 0 < r \<and> r \<le> length data \<and>
        alive w' \<and> waiting w' = waiting w @ take r data)) \<and>
     (\<forall>n w. 0 < n \<longrightarrow> waiting w \<noteq> [] \<longrightarrow> alive w \<longrightarrow> (\<exists>k w'. read_call os fd n w = ((int k, take k (waiting w)), w') \<and>
        0 < k \<and> k \<le> n \<and> k \<le> length (waiting w) \<and> alive w' \<and> waiting w' = drop k (waiting w)))"

lemma writen_echo:
  assumes "echo_peer os fd alive waiting"
  shows "0 \<le> nleft \<Longrightarrow> ptr + nat nleft = length buf \<Longrightarrow> alive w \<Longrightarrow>
    \<exists>w'. writen_loop os fd n buf ptr nleft w = ret (n, w') \<and> alive w' \<and> waiting w' = waiting w @ drop ptr buf"
proof (induction "nat nleft" arbitrary: nleft ptr w rule: less_induct)
  case less
  show ?case
  proof (cases "nleft = 0")
    case True
    then show ?thesis using less.prems by (simp add: writen_loop.simps)
  next
    case False
    then have chunk: "take (nat nleft) (drop ptr buf) = drop ptr buf" "drop ptr buf \<noteq> []"
      using less.prems by auto
    with assms obtain r w1 where call: "write_call os fd (drop ptr buf) w = (int r, w1)" "0 < r"
      "r \<le> length (drop ptr buf)" "alive w1" "waiting w1 = waiting w @ take r (drop ptr buf)"
      using less.prems(3) unfolding echo_peer_def by blast
    have "nat (nleft - int r) < nat nleft" "0 \<le> nleft - int r" "ptr + r + nat (nleft - int r) = length buf"
      using call(2,3) less.prems by auto
    from less.hyps [OF this call(4)] obtain w' where
      "writen_loop os fd n buf (ptr + r) (nleft - int r) w1 = ret (n, w')" "alive w'"
      "waiting w' = waiting w1 @ drop (ptr + r) buf" by blast
    moreover have "take r (drop ptr buf) @ drop (ptr + r) buf = drop ptr buf"
      by (metis add.commute append_take_drop_id drop_drop)
    ultimately show ?thesis using False less.prems chunk(1) call
      by (subst writen_loop.simps) (simp add: Let_def)
  qed
qed

lemma writen_all_echo:
  assumes "echo_peer os fd alive waiting"
  shows "alive w \<Longrightarrow> \<exists>w'. writen_all os fd data w = ret (int (length data), w') \<and> alive w' \<and> waiting w' = waiting w @ data"
  using writen_echo [OF assms, of "int (length data)" 0 data w "int (length data)"]
  by (simp add: writen_all_def writen_def)

lemma readline_echo:
  assumes "echo_peer os fd alive waiting" and "0 < maxlen" "maxlen < 2 ^ 63"
  shows "waiting w = rest @ [newline] \<Longrightarrow> newline \<notin> set rest \<Longrightarrow> int (ptr + length rest + 1) < maxlen \<Longrightarrow>
    int (length buf) = maxlen \<Longrightarrow> alive w \<Longrightarrow>
    \<exists>w'. readline_loop os fd maxlen buf ptr (int ptr) w
        = ret (int (ptr + length rest + 1), store buf ptr (rest @ [newline, 0]), w') \<and> alive w' \<and> waiting w' = []"
proof (induction "length rest" arbitrary: rest buf ptr w rule: less_induct)
  case less
  define room where "room = nat (maxlen - int ptr - 1)"
  have n: "size_t (int ptr) = int ptr" "size_t (maxlen - 1) = maxlen - 1"
    "size_t (maxlen - int ptr - 1) = int room" and room: "0 < room" "ptr + room < length buf" "int ptr < maxlen - 1"
    using less.prems assms(2,3) by (auto simp: room_def)
  have waits: "waiting w \<noteq> []" using less.prems(1) by simp
  obtain k w1 where call: "read_call os fd room w = ((int k, take k (waiting w)), w1)" "0 < k" "k \<le> room"
    "k \<le> length (waiting w)" "alive w1" "waiting w1 = drop k (waiting w)"
    using assms(1) room(1) less.prems(5) waits unfolding echo_peer_def by blast
  let ?bs = "take k (waiting w)" let ?buf = "store buf ptr ?bs"
  have len: "length ?bs = k" using call(4) by simp
  have "last ?bs = ?bs ! (k - 1)"
    using call(2) len by (metis last_conv_nth less_numeral_extra(3) list.size(3))
  then have lastb: "?buf ! (ptr + k - 1) = last ?bs"
    using call(2) len room(2) call(3) by (cases k) (auto simp: store_def nth_append)
  have step: "readline_loop os fd maxlen buf ptr (int ptr) w =
      (if last ?bs = newline then end_line ?buf (ptr + k) (int ptr + int k) w1
       else readline_loop os fd maxlen ?buf (ptr + k) (int ptr + int k) w1)"
    using room call lastb n by (subst readline_loop.simps) (simp add: Let_def)
  show ?case
  proof (cases "k = length rest + 1")
    case True
    then have "?bs = rest @ [newline]" "waiting w1 = []" using less.prems(1) call(6) by simp_all
    moreover have "end_line (store buf ptr (rest @ [newline])) (ptr + k) (int ptr + int k) w1
        = ret (int (ptr + length rest + 1), store buf ptr (rest @ [newline, 0]), w1)"
      using True less.prems(3,4) by (simp add: end_line_def store_def upd_conv_take_nth_drop)
    ultimately show ?thesis using call(5) by (simp add: step)
  next
    case False
    then have k: "k \<le> length rest" using call(4) less.prems(1) by simp
    then have bs: "?bs = take k rest" "waiting w1 = drop k rest @ [newline]" using less.prems(1) call(6) by simp_all
    then have "last ?bs \<in> set rest" using call(2) k
      by (metis in_set_takeD last_in_set length_take length_0_conv less_numeral_extra(3) min_absorb2)
    then have "last ?bs \<noteq> newline" using less.prems(2) by metis
    moreover have "length (drop k rest) < length rest" "newline \<notin> set (drop k rest)"
      using call(2) k less.prems(2) by (auto dest: in_set_dropD)
    moreover have "int (ptr + k + length (drop k rest) + 1) < maxlen" "int (length ?buf) = maxlen"
      using k less.prems(3,4) len room(2) call(3) by auto
    ultimately obtain w' where "readline_loop os fd maxlen ?buf (ptr + k) (int (ptr + k)) w1
        = ret (int (ptr + k + length (drop k rest) + 1), store ?buf (ptr + k) (drop k rest @ [newline, 0]), w')"
      "alive w'" "waiting w' = []"
      using less.hyps [of "drop k rest" w1 "ptr + k" ?buf] bs(2) call(5) by blast
    moreover have "store ?buf (ptr + k) (drop k rest @ [newline, 0]) = store buf ptr (rest @ [newline, 0])"
    proof -
      have "store (store buf ptr (take k rest)) (ptr + length (take k rest)) (drop k rest @ [newline, 0])
          = store buf ptr (take k rest @ drop k rest @ [newline, 0])"
        using k less.prems(3,4) by (intro store_simps) simp
      moreover have "take k rest @ drop k rest @ [newline, 0] = rest @ [newline, 0]"
        by (metis append.assoc append_take_drop_id)
      ultimately show ?thesis using bs(1) k by (simp add: min_absorb2 del: store_simps)
    qed
    ultimately show ?thesis using \<open>last ?bs \<noteq> newline\<close> k by (simp add: step)
  qed
qed

lemma c_str_line: "0 \<notin> set xs \<Longrightarrow> c_str (xs @ 0 # ys) = xs" "0 \<notin> set xs \<Longrightarrow> c_str xs = xs"
  by (auto simp: c_str_def takeWhile_append takeWhile_eq_all_conv)

lemma fgets_line:
  assumes "newline \<notin> set l" "length l + 1 < n"
  shows "fgets n (l @ newline # rest) = Some (l @ [newline], rest)"
proof -
  have "takeWhile (\<lambda>c. c \<noteq> newline) (l @ newline # rest) = l"
    using assms(1) by (auto simp: takeWhile_append takeWhile_eq_all_conv)
  then show ?thesis using assms(2) by (simp add: fgets_def Let_def min_absorb2)
qed

definition text_lines :: "u8 list list \<Rightarrow> bool" where
  "text_lines ls \<longleftrightarrow> (\<forall>l \<in> set ls. newline \<notin> set l \<and> 0 \<notin> set l \<and> length l + 2 \<le> MAXLINE)"

lemma str_cli_echoes:
  assumes "echo_peer os fd alive waiting"
  shows "text_lines ls \<Longrightarrow> length recvline = MAXLINE \<Longrightarrow> alive w \<Longrightarrow> waiting w = [] \<Longrightarrow>
    \<exists>w'. str_cli os fd recvline (concat (map (\<lambda>l. l @ [newline]) ls)) out w
      = ret (out @ concat (map (\<lambda>l. l @ [newline]) ls), w') \<and> alive w' \<and> waiting w' = []"
proof (induction ls arbitrary: recvline out w)
  case Nil
  then show ?case by (simp add: str_cli.simps fgets_def)
next
  case (Cons l ls)
  let ?rest = "concat (map (\<lambda>l. l @ [newline]) ls)"
  have l: "newline \<notin> set l" "0 \<notin> set (l @ [newline])" "length l + 2 \<le> MAXLINE" "text_lines ls"
    using Cons.prems(1) by (auto simp: text_lines_def newline_def)
  have line: "fgets MAXLINE (l @ newline # ?rest) = Some (l @ [newline], ?rest)"
    using l by (intro fgets_line) auto
  obtain w1 r where w1: "writen_all os fd (l @ [newline]) w = ret (r, w1)" "alive w1" "waiting w1 = l @ [newline]"
    using writen_all_echo [OF assms Cons.prems(3), of "l @ [newline]"] Cons.prems(4) by auto
  obtain w2 where w2: "readline_loop os fd (int MAXLINE) recvline 0 (int 0) w1
      = ret (int (0 + length l + 1), store recvline 0 (l @ [newline, 0]), w2)" "alive w2" "waiting w2 = []"
    using readline_echo [OF assms _ _ w1(3) l(1), of "int MAXLINE" 0 recvline] l(3) Cons.prems(2) w1(2)
    by (auto simp: MAXLINE_def)
  let ?recv = "store recvline 0 (l @ [newline, 0])"
  have len: "length ?recv = MAXLINE" using l(3) Cons.prems(2) by simp
  have shown: "c_str ?recv = l @ [newline]"
    using c_str_line(1) [OF l(2)] by (simp add: store_def)
  obtain w' where "str_cli os fd ?recv ?rest (out @ l @ [newline]) w2
      = ret ((out @ l @ [newline]) @ ?rest, w')" "alive w'" "waiting w' = []"
    using Cons.IH [OF l(4) len w2(2,3)] by blast
  then show ?case
    using line w1(1) w2(1) shown c_str_line(2) [OF l(2)]
    by (subst str_cli.simps) (simp add: readline_def)
qed

subsection \<open>Children and descriptors\<close>

definition reaps :: "('w \<Rightarrow> int \<times> 'w) \<Rightarrow> ('w \<Rightarrow> int list) \<Rightarrow> bool" where
  "reaps waitpid zombies \<longleftrightarrow> (\<forall>w pid w'. waitpid w = (pid, w') \<longrightarrow>
     (if zombies w = [] then pid \<le> 0 \<and> zombies w' = []
      else 0 < pid \<and> pid \<in> set (zombies w) \<and> zombies w' = remove1 pid (zombies w)))"

lemma sig_chld_reaps:
  assumes "reaps waitpid zombies"
  shows "\<exists>pids w'. sig_chld waitpid printed w = ret (printed @ pids, w') \<and>
    mset pids = mset (zombies w) \<and> zombies w' = []"
proof (induction "length (zombies w)" arbitrary: printed w rule: less_induct)
  case less
  obtain pid w1 where call: "waitpid w = (pid, w1)" by fastforce
  show ?case
  proof (cases "zombies w = []")
    case True
    then have "pid \<le> 0" "zombies w1 = []" using call assms unfolding reaps_def by presburger+
    then show ?thesis using call True
      by (intro exI [of _ "[]"] exI [of _ w1]) (simp add: sig_chld.simps [of _ _ w])
  next
    case False
    with call assms have pid: "0 < pid" "pid \<in> set (zombies w)" "zombies w1 = remove1 pid (zombies w)"
      by (auto simp: reaps_def)
    then have "length (zombies w1) < length (zombies w)" by (metis One_nat_def diff_less length_pos_if_in_set length_remove1 zero_less_one)
    from less.hyps [OF this, of "printed @ [pid]"] obtain pids w' where
      "sig_chld waitpid (printed @ [pid]) w1 = ret ((printed @ [pid]) @ pids, w')"
      "mset pids = mset (zombies w1)" "zombies w' = []" by blast
    then show ?thesis using pid call
      by (intro exI [of _ "pid # pids"] exI [of _ w']) (simp add: sig_chld.simps [of _ _ w])
  qed
qed

lemma tcpserv_round_result:
  assumes posix: "posix os view" and signals: "finite_signals os m" and fork: "keeps_view view fork"
  shows "\<exists>p. tcpserv_round os fork listenfd w = ret p \<and>
    (case p of Goes_On w' \<Rightarrow> fds (view w') = fds (view w)
     | Ends w' \<Rightarrow> fds (view w') = fds (view w) \<or> fds (view w') = fds (view w) - {listenfd})"
proof -
  obtain connfd w1 where c1: "accept_call os listenfd w = (connfd, w1)" by fastforce
  have new: "connfd = -1 \<and> view w1 = view w \<or>
      0 \<le> connfd \<and> connfd \<notin> fds (view w) \<and> fds (view w1) = fds (view w) \<union> {connfd}"
    using opens_fdD [OF posix_calls(2) [OF posix] c1] by blast
  obtain childpid w2 where c2: "fork w1 = (childpid, w2)" "view w2 = view w1"
    using keeps_viewD [OF fork] by (metis prod.collapse)
  let ?child = "close_call os listenfd w2"
  obtain data n w3 where c3: "str_echo os connfd ?child = ret w3"
    "view w3 = send connfd data (receive connfd n (view ?child))"
    using str_echo_result [OF posix signals, of connfd ?child] by blast
  show ?thesis
  proof (cases "connfd < 0")
    case True
    then show ?thesis using new c1 by (auto simp: tcpserv_round_def)
  next
    case False
    then show ?thesis using new c1 c2 c3
      by (cases "childpid = 0") (auto simp: tcpserv_round_def Let_def posix_calls(7) [OF posix])
  qed
qed

subsection \<open>Systems to run the programs on\<close>

text \<open>A peer that echoes at once; the state is what waits to be read.\<close>

definition loopback :: "u8 list os" where
  "loopback =
     \<lparr>read_call = \<lambda>fd n w. ((int (min n (length w)), take n w), drop n w),
      write_call = \<lambda>fd data w. (int (length data), w @ data), errno_of = \<lambda>_. 0, set_errno = \<lambda>_ w. w,
      socket_call = \<lambda>w. (3, w), setsockopt_call = \<lambda>_ w. (0, w), bind_call = \<lambda>_ _ w. (0, w),
      listen_call = \<lambda>_ _ w. (0, w), accept_call = \<lambda>_ w. (4, w), connect_call = \<lambda>_ _ _ w. (0, w),
      close_call = \<lambda>_ w. w, gettimeofday_call = \<lambda>w. ((0, 0, 0), w)\<rparr>"

lemma loopback_echoes: "echo_peer loopback fd (\<lambda>_. True) (\<lambda>w. w)"
  by (auto simp: echo_peer_def loopback_def min_def)

lemma readline_takes_two_lines:
  "\<exists>w'. readline loopback 3 (replicate 8 0) 8 [97, newline, 98, newline]
    = ret (4, [97, newline, 98, newline, 0, 0, 0, 0], w')"
  by (simp add: readline_def readline_loop.simps loopback_def store_def end_line_def numeral_eq_Suc)

subsection \<open>Properties\<close>

text \<open>C23: a child of the echo server always finishes, and sends back, in order, bytes the client sent: all of
  them up to the end of the stream, unless a \<open>read\<close> fails or a \<open>write\<close> loses some.\<close>

theorem str_echo_correct:
  assumes "posix os view" and "finite_signals os m"
  shows "\<exists>data n w'. str_echo os fd w = ret w' \<and> view w' = send fd data (receive fd n (view w)) \<and>
    n \<le> length (coming_on (view w) fd) \<and> subseq data (take n (coming_on (view w) fd)) \<and>
    (\<not> short_write os fd \<longrightarrow> data = take n (coming_on (view w) fd)) \<and>
    (\<not> failed_read os fd \<longrightarrow> n = length (coming_on (view w) fd))"
  by (rule str_echo_result [OF assms])

theorem str_echo_correct_witness:
  "\<exists>w'. str_echo steady 3 (streaming [1, 2, 3]) = ret w' \<and> sent_on (knet w') 3 = [1, 2, 3]"
  using str_echo_correct [OF steady_posix steady_finite_signals, of 3 "streaming [1, 2, 3]"]
    reliableD [OF steady_reliable, of 3]
  by (auto simp: streaming_def demo_kernel_def)

text \<open>One round of the forking server never faults and leaks no descriptor: the parent goes on with the
  descriptors it had, and the child, having echoed, ends with these but for the listening one.\<close>

theorem tcpserv_round_correct:
  assumes "posix os view" and "finite_signals os m" and "keeps_view view fork"
  shows "\<exists>p. tcpserv_round os fork listenfd w = ret p \<and>
    (case p of Goes_On w' \<Rightarrow> fds (view w') = fds (view w)
     | Ends w' \<Rightarrow> fds (view w') = fds (view w) \<or> fds (view w') = fds (view w) - {listenfd})"
  by (rule tcpserv_round_result [OF assms])

theorem tcpserv_round_correct_witness:
  "\<exists>p. tcpserv_round linux (\<lambda>k. (0, k)) 3 (demo_kernel\<lparr>callers := [[1, 2]]\<rparr>) = ret p \<and>
    (case p of Goes_On w' \<Rightarrow> fds (knet w') = fds (knet (demo_kernel\<lparr>callers := [[1, 2]]\<rparr>))
     | Ends w' \<Rightarrow> fds (knet w') = fds (knet (demo_kernel\<lparr>callers := [[1, 2]]\<rparr>)) \<or>
         fds (knet w') = fds (knet (demo_kernel\<lparr>callers := [[1, 2]]\<rparr>)) - {3})"
  by (rule tcpserv_round_correct [OF linux_posix linux_finite_signals]) (simp add: keeps_view_def)

text \<open>C37: \<open>readline\<close> stays inside its buffer and returns: with fewer than \<open>maxlen\<close> bytes of the stream, in
  order and followed by NUL, that fill the buffer, end in a newline or end the stream; or with -1 after a
  failed \<open>read\<close>.\<close>

theorem readline_correct:
  assumes "posix_read os view" and "finite_signals os m" and "0 < maxlen" and "maxlen < 2 ^ 63"
    and "int (length buf) = maxlen"
  shows "\<exists>data r buf' w'. readline os fd buf maxlen w = ret (r, buf', w') \<and>
      data = take (length data) (coming_on (view w) fd) \<and> view w' = receive fd (length data) (view w) \<and>
      int (length data) < maxlen \<and> length buf' = length buf \<and>
      (r = int (length data) \<and> buf' = data @ 0 # drop (Suc (length data)) buf \<and>
         (r = maxlen - 1 \<or> data \<noteq> [] \<and> last data = newline \<or> coming_on (view w') fd = []) \<or>
       r = -1 \<and> failed_read os fd)"
proof -
  have stored: "store buf 0 (data @ [0]) = data @ 0 # drop (Suc (length data)) buf" for data
    by (simp add: store_def)
  have "int 0 < maxlen" using assms(3) by simp
  moreover have "readline_loop os fd maxlen buf 0 (int 0) w = readline os fd buf maxlen w"
    by (simp add: readline_def)
  ultimately show ?thesis
    using readline_loop_result [OF assms(1-4) _ assms(5), of 0 fd w] by (simp only: stored add_0 line_read_def)
qed

theorem readline_correct_witness:
  "\<exists>data r buf' w'. readline linux 3 (replicate 4 0) 4 demo_kernel = ret (r, buf', w') \<and>
      data = take (length data) (coming_on (knet demo_kernel) 3) \<and>
      knet w' = receive 3 (length data) (knet demo_kernel) \<and>
      int (length data) < 4 \<and> length buf' = length (replicate 4 (0 :: u8)) \<and>
      (r = int (length data) \<and> buf' = data @ 0 # drop (Suc (length data)) (replicate 4 0) \<and>
         (r = 4 - 1 \<or> data \<noteq> [] \<and> last data = newline \<or> coming_on (knet w') 3 = []) \<or>
       r = -1 \<and> failed_read linux 3)"
  by (rule readline_correct [OF linux_posix_read linux_finite_signals]) simp_all

text \<open>The client against an echoing server, however the connection cuts the stream: it sends its input line
  by line and prints exactly its input, when every line ends with a newline, fits the buffer and has no NUL.\<close>

theorem client_prints_its_input:
  assumes "echo_peer os fd alive waiting" and "text_lines ls" and "length recvline = MAXLINE" and "alive w" and "waiting w = []"
  shows "\<exists>w'. str_cli os fd recvline (concat (map (\<lambda>l. l @ [newline]) ls)) [] w
      = ret (concat (map (\<lambda>l. l @ [newline]) ls), w') \<and> waiting w' = []"
  using str_cli_echoes [OF assms, of "[]"] by auto

theorem client_prints_its_input_witness:
  "\<exists>w'. str_cli loopback 3 (replicate MAXLINE 0) (concat (map (\<lambda>l. l @ [newline]) [[104, 105], []])) [] []
      = ret (concat (map (\<lambda>l. l @ [newline]) [[104, 105], []]), w') \<and> w' = []"
  by (rule client_prints_its_input [OF loopback_echoes]) (auto simp: text_lines_def newline_def MAXLINE_def)

end
