(* ===== verification/Event_Servers.thy ===== *)
theory Event_Servers
  imports Echo_Server
begin

text \<open>
  The event-driven echo servers \<^verbatim>\<open>poll-echo-server\<close> and \<^verbatim>\<open>select-echo-server\<close>.  Both keep an array of
  connections with -1 in the free places; what they share, the array and the service of one ready
  connection, comes first.  One round of either main loop is a function from state to state: it
  goes on, or the process ends.  \<open>poll\<close> and \<open>select\<close> are parameters.
\<close>

definition BUF_SIZE :: nat where "BUF_SIZE = 1024"

subsection \<open>The array of connections\<close>

text \<open>\<open>for (i = 0; i < N; i++) if (clients[i] < 0) break;\<close>: the first free place, or \<open>N\<close>.\<close>

definition first_free :: "int list \<Rightarrow> nat" where
  "first_free fs = length (takeWhile (\<lambda>f. 0 \<le> f) fs)"

definition live :: "int list \<Rightarrow> int set" where
  "live fs = {f \<in> set fs. 0 \<le> f}"

definition slots_ok :: "int list \<Rightarrow> int set \<Rightarrow> net \<Rightarrow> bool" where
  "slots_ok fs base v \<longleftrightarrow>
     (\<forall>i < length fs. \<forall>j < length fs. 0 \<le> fs ! i \<longrightarrow> fs ! i = fs ! j \<longrightarrow> i = j) \<and>
     fds v = base \<union> live fs \<and> base \<inter> live fs = {}"

lemma live_update:
  assumes "i < length fs" and "\<forall>j < length fs. 0 \<le> fs ! i \<longrightarrow> fs ! i = fs ! j \<longrightarrow> i = j"
  shows "live (fs[i := c]) = (live fs - {fs ! i}) \<union> (if 0 \<le> c then {c} else {})"
proof -
  have "x \<in> set (fs[i := c]) \<longleftrightarrow> x = c \<or> (\<exists>j < length fs. j \<noteq> i \<and> x = fs ! j)" for x
    using assms(1) by (auto simp: in_set_conv_nth nth_list_update)
  then show ?thesis using assms by (auto simp: live_def in_set_conv_nth)
qed

lemma slots_ok_add:
  assumes "slots_ok fs base v" "i < length fs" "fs ! i < 0" "0 \<le> c" "c \<notin> fds v" "fds v' = fds v \<union> {c}"
  shows "slots_ok (fs[i := c]) base v'"
proof -
  have "live (fs[i := c]) = live fs \<union> {c}"
    using assms(3,4) by (subst live_update [OF assms(2)]) (auto simp: live_def)
  moreover have "\<forall>j < length fs. fs ! j \<noteq> c"
    using assms(1,4,5) unfolding slots_ok_def live_def by (metis (mono_tags, lifting) UnCI mem_Collect_eq nth_mem)
  ultimately show ?thesis
    using assms by (auto simp: slots_ok_def nth_list_update)
qed

lemma slots_ok_remove:
  assumes "slots_ok fs base v" "i < length fs" "0 \<le> fs ! i" "fds v' = fds v - {fs ! i}"
  shows "slots_ok (fs[i := -1]) base v'"
proof -
  have "live (fs[i := -1]) = live fs - {fs ! i}"
    using assms(1,2) by (subst live_update) (auto simp: slots_ok_def)
  moreover have "fs ! i \<in> live fs" using assms(2,3) by (simp add: live_def)
  ultimately show ?thesis
    using assms by (auto simp: slots_ok_def nth_list_update)
qed

lemma slots_ok_view: "fds v' = fds v \<Longrightarrow> slots_ok fs base v' = slots_ok fs base v"
  by (simp add: slots_ok_def)

lemma first_free_le: "first_free fs \<le> length fs"
  by (simp add: first_free_def length_takeWhile_le)

lemma first_free_neg: "first_free fs < length fs \<Longrightarrow> fs ! first_free fs < 0"
  unfolding first_free_def using nth_length_takeWhile by fastforce

lemma first_free_full: "first_free fs = length fs \<Longrightarrow> \<forall>f \<in> set fs. 0 \<le> f"
  by (metis first_free_def takeWhile_eq_all_conv takeWhile_eq_take take_all_iff le_refl)

text \<open>When descriptors stay below the size of the array, a new one always finds a place.\<close>

lemma room_for_new_fd:
  assumes "slots_ok fs base v" and "fds v \<subseteq> {0..<int (length fs)}"
    and "0 \<le> c" "c < int (length fs)" "c \<notin> fds v"
  shows "first_free fs < length fs"
proof (rule ccontr)
  assume "\<not> ?thesis"
  then have full: "\<forall>f \<in> set fs. 0 \<le> f" using first_free_le [of fs] first_free_full [of fs] by simp
  have "distinct fs" using assms(1) full
    unfolding slots_ok_def distinct_conv_nth by (metis nth_mem)
  then have "card (set fs) = length fs" by (rule distinct_card)
  moreover have "set fs \<subseteq> {0..<int (length fs)} - {c}"
    using assms full by (auto simp: slots_ok_def live_def)
  then have "card (set fs) \<le> card ({0..<int (length fs)} - {c})" by (intro card_mono) auto
  moreover have "card ({0..<int (length fs)} - {c}) < length fs"
    using assms(3,4) by simp
  ultimately show False by simp
qed

text \<open>The limit on the number of descriptors of a process, as a fact about every state.\<close>

definition fd_limit :: "('w \<Rightarrow> net) \<Rightarrow> nat \<Rightarrow> bool" where
  "fd_limit view N \<longleftrightarrow> (\<forall>w. fds (view w) \<subseteq> {0..<int N})"

subsection \<open>Serving one connection\<close>

text \<open>
  \<open>read\<close> and the server's \<open>writen\<close>, \<open>wr\<close>, on a ready connection; on an error or at the end of the stream it is closed.  The
  result says whether it was.
\<close>

definition serve_client ::
  "('w os \<Rightarrow> int \<Rightarrow> u8 list \<Rightarrow> 'w \<Rightarrow> (int \<times> 'w) run) \<Rightarrow> 'w os \<Rightarrow> int \<Rightarrow> 'w \<Rightarrow> (bool \<times> 'w) run" where
  "serve_client wr os sockfd w =
     seq (relay wr os sockfd BUF_SIZE w) (\<lambda>(n, w).
       if n < 0 then ret (True, close_call os sockfd w)
       else if n = 0 then ret (True, close_call os sockfd w)
       else ret (False, w))"

text \<open>
  What serving the connections in \<open>S\<close>, each once, does to all connections: \<open>n\<close> bytes are read and all of them are written
  back, unless a write fails; nothing is read at the end of the stream or after a failure only, and exactly then
  the connection is closed.
\<close>

definition relayed :: "'w os \<Rightarrow> int \<Rightarrow> nat \<Rightarrow> net \<Rightarrow> net \<Rightarrow> bool" where
  "relayed os fd n v v' \<longleftrightarrow> n \<le> length (coming_on v fd) \<and> coming_on v' fd = drop n (coming_on v fd) \<and>
     (\<exists>j \<le> n. sent_on v' fd = sent_on v fd @ take j (coming_on v fd) \<and> (j < n \<longrightarrow> short_write os fd))"

definition serves :: "'w os \<Rightarrow> int set \<Rightarrow> net \<Rightarrow> net \<Rightarrow> bool" where
  "serves os S v v' \<longleftrightarrow>
     (\<forall>fd. \<exists>n. relayed os fd n v v' \<and> (fd \<notin> S \<longrightarrow> n = 0) \<and>
        (fd \<in> S \<and> n = 0 \<longrightarrow> coming_on v fd = [] \<or> failed_read os fd)) \<and>
     fds v' = fds v - {fd \<in> S. coming_on v' fd = coming_on v fd}"

lemma relayed_same: "coming_on v' fd = coming_on v fd \<Longrightarrow> sent_on v' fd = sent_on v fd \<Longrightarrow> relayed os fd 0 v v'"
  by (simp add: relayed_def)

lemma relayed_same_iff:
  "relayed os fd 0 v v' \<longleftrightarrow> coming_on v' fd = coming_on v fd \<and> sent_on v' fd = sent_on v fd"
  by (auto simp: relayed_def)

lemma serves_nothing: "serves os {} v v' \<longleftrightarrow> v' = v"
proof
  assume "serves os {} v v'"
  then have "relayed os fd 0 v v'" for fd unfolding serves_def by (metis empty_iff)
  then have "coming_on v' = coming_on v" "sent_on v' = sent_on v" by (simp_all add: relayed_same_iff fun_eq_iff)
  then show "v' = v" using \<open>serves os {} v v'\<close> by (cases v; cases v') (simp add: serves_def)
qed (auto simp: serves_def relayed_same)

lemma serves_other:
  assumes "serves os S v v'" and "fd \<notin> S"
  shows "coming_on v' fd = coming_on v fd" "sent_on v' fd = sent_on v fd"
  using assms unfolding serves_def by (metis relayed_same_iff)+

lemma relayed_cong:
  assumes "coming_on u fd = coming_on v fd" "sent_on u fd = sent_on v fd"
    and "coming_on u' fd = coming_on v' fd" "sent_on u' fd = sent_on v' fd"
  shows "relayed os fd n u u' \<longleftrightarrow> relayed os fd n v v'"
  using assms by (simp add: relayed_def)

lemma serves_before:
  assumes one: "serves os {c} v v'" and S: "serves os S v' v''" and new: "c \<notin> S"
  shows "serves os (insert c S) v v''"
proof -
  have c: "coming_on v'' c = coming_on v' c" "sent_on v'' c = sent_on v' c" using serves_other [OF S new] by simp_all
  have rest: "coming_on v' fd = coming_on v fd" "sent_on v' fd = sent_on v fd" if "fd \<noteq> c" for fd
    using serves_other [OF one, of fd] that by simp_all
  have "\<exists>n. relayed os fd n v v'' \<and> (fd \<notin> insert c S \<longrightarrow> n = 0) \<and>
      (fd \<in> insert c S \<and> n = 0 \<longrightarrow> coming_on v fd = [] \<or> failed_read os fd)" for fd
  proof (cases "fd = c")
    case True
    obtain n where "relayed os c n v v'" "n = 0 \<longrightarrow> coming_on v c = [] \<or> failed_read os c"
      using one unfolding serves_def by blast
    then show ?thesis using c relayed_cong [of v c v v' v''] True by auto
  next
    case False
    obtain n where "relayed os fd n v' v''" "fd \<notin> S \<longrightarrow> n = 0" "fd \<in> S \<and> n = 0 \<longrightarrow> coming_on v' fd = [] \<or> failed_read os fd"
      using S unfolding serves_def by blast
    then show ?thesis using rest [OF False] relayed_cong [of v' fd v v'' v''] False by auto
  qed
  moreover have "fds v'' = fds v - {fd \<in> insert c S. coming_on v'' fd = coming_on v fd}"
  proof -
    have "fds v' = fds v - {fd \<in> {c}. coming_on v' fd = coming_on v fd}"
      "fds v'' = fds v' - {fd \<in> S. coming_on v'' fd = coming_on v' fd}" using S one by (simp_all add: serves_def)
    moreover have "{fd \<in> S. coming_on v'' fd = coming_on v' fd} = {fd \<in> S. coming_on v'' fd = coming_on v fd}"
      using rest(1) new by (metis (mono_tags, lifting))
    moreover have "{fd \<in> insert c S. coming_on v'' fd = coming_on v fd} =
        {fd \<in> S. coming_on v'' fd = coming_on v fd} \<union> {fd \<in> {c}. coming_on v' fd = coming_on v fd}"
      using c(1) by auto
    ultimately show ?thesis by blast
  qed
  ultimately show ?thesis by (simp add: serves_def)
qed

text \<open>A connection that has just been accepted: the others are as before.\<close>

definition accepted :: "int \<Rightarrow> net \<Rightarrow> net \<Rightarrow> bool" where
  "accepted c v v' \<longleftrightarrow> 0 \<le> c \<and> c \<notin> fds v \<and> fds v' = insert c (fds v) \<and>
     (\<forall>fd. fd \<noteq> c \<longrightarrow> sent_on v' fd = sent_on v fd \<and> coming_on v' fd = coming_on v fd)"

definition failed_accept :: "'w os \<Rightarrow> int \<Rightarrow> bool" where
  "failed_accept os fd \<longleftrightarrow> (\<exists>w. fst (accept_call os fd w) = -1)"

lemma posix_acceptE:
  assumes "posix os view" and "accept_call os listenfd w = (c, w')"
  obtains (failed) "c = -1" "view w' = view w" "failed_accept os listenfd"
  | (new) "0 \<le> c" "accepted c (view w) (view w')"
  using opens_fdD [OF posix_calls(2) [OF assms(1)] assms(2)] assms(2) that
  unfolding accepted_def failed_accept_def by (metis Un_insert_right fst_conv sup_bot_right)

context exact_writer
begin

lemma serve_client_result:
  assumes posix: "posix os view" and signals: "finite_signals os m"
  shows "\<exists>closed w'. serve_client wr os fd w = ret (closed, w') \<and> serves os {fd} (view w) (view w') \<and>
    (closed \<longleftrightarrow> coming_on (view w') fd = coming_on (view w) fd) \<and>
    fds (view w') = (if closed then fds (view w) - {fd} else fds (view w))"
proof -
  obtain n w1 k j where step: "relay wr os fd BUF_SIZE w = ret (n, w1)"
    "view w1 = send fd (take j (take k (coming_on (view w) fd))) (receive fd k (view w))"
    "j \<le> k" "k \<le> length (coming_on (view w) fd)"
    "n = int k \<and> (k = 0 \<longrightarrow> coming_on (view w) fd = []) \<or> n = -1 \<and> k = 0 \<and> failed_read os fd"
    "j < k \<longrightarrow> short_write os fd"
    using relay_returns [OF posix signals, of BUF_SIZE fd w] by (auto simp: BUF_SIZE_def)
  define w' where "w' = (if k = 0 then close_call os fd w1 else w1)"
  have run: "serve_client wr os fd w = ret (k = 0, w')"
    using step(1,5) by (auto simp: serve_client_def w'_def)
  have view: "view w' = (view w1)\<lparr>fds := (if k = 0 then fds (view w) - {fd} else fds (view w))\<rparr>"
    using step(2) by (simp add: w'_def posix_calls(7) [OF posix])
  have streams: "coming_on (view w') fd = drop k (coming_on (view w) fd)"
    "sent_on (view w') fd = sent_on (view w) fd @ take j (coming_on (view w) fd)"
    using step(2,3) unfolding view by (simp_all add: min_absorb1)
  have same: "coming_on (view w') fd = coming_on (view w) fd \<longleftrightarrow> k = 0"
  proof
    assume "coming_on (view w') fd = coming_on (view w) fd"
    then have "length (drop k (coming_on (view w) fd)) = length (coming_on (view w) fd)" using streams(1) by simp
    then show "k = 0" using step(4) by simp
  qed (simp add: streams(1))
  have one: "relayed os fd k (view w) (view w')"
    unfolding relayed_def streams using step(3,4,6) by blast
  have others: "relayed os c 0 (view w) (view w')" if "c \<noteq> fd" for c
    using that step(2) unfolding view by (intro relayed_same) simp_all
  have "\<exists>n. relayed os c n (view w) (view w') \<and> (c \<notin> {fd} \<longrightarrow> n = 0) \<and>
      (c \<in> {fd} \<and> n = 0 \<longrightarrow> coming_on (view w) c = [] \<or> failed_read os c)" for c
  proof (cases "c = fd")
    case True
    then show ?thesis using one step(5) by (intro exI [of _ k]) auto
  next
    case False
    then show ?thesis using others by (intro exI [of _ 0]) simp
  qed
  moreover have "fds (view w') = fds (view w) - {c \<in> {fd}. coming_on (view w') c = coming_on (view w) c}"
    using same unfolding view by auto
  ultimately have "serves os {fd} (view w) (view w')" by (simp only: serves_def simp_thms)
  moreover have "fds (view w') = (if k = 0 then fds (view w) - {fd} else fds (view w))" unfolding view by simp
  ultimately show ?thesis using run same by blast
qed

end

end
