(* ===== verification/Poll_Server.thy ===== *)
theory Poll_Server
  imports Event_Servers
begin

text \<open>
  \<^verbatim>\<open>poll-echo-server/poll-echo-server.c\<close>.  The array of \<open>struct pollfd\<close> and \<open>maxi\<close> are the state \<open>poller\<close>;
  the array is a local variable, so the fields \<open>main\<close> does not set keep what the stack happens to hold:
  the initial array is a parameter.  \<open>poll\<close> gets the first \<open>maxi + 1\<close> entries and returns its result and their
  \<open>revents\<close>; entries it does not get keep theirs.
\<close>

datatype poll_flag = POLLRDNORM | POLLERR | POLLHUP | POLLNVAL

record pollfd =
  pfd :: int
  pevents :: "poll_flag set"
  revents :: "poll_flag set"

record poller =
  clients :: "pollfd list"
  maxi :: nat

type_synonym 'w poll_call = "pollfd list \<Rightarrow> 'w \<Rightarrow> (int \<times> poll_flag set list) \<times> 'w"

subsection \<open>The program\<close>

text \<open>The file's own \<open>writen\<close>, the same text as that of \<^verbatim>\<open>echo-server/unp.h\<close>.\<close>

definition poll_writen :: "'w os \<Rightarrow> int \<Rightarrow> u8 list \<Rightarrow> 'w \<Rightarrow> (int \<times> 'w) run" where
  "poll_writen os fd data w = writen os fd data (int (length data)) w"

interpretation poll_wr: exact_writer poll_writen
  using wr_n.exact_writer_axioms unfolding poll_writen_def .

definition set_client :: "nat \<Rightarrow> (pollfd \<Rightarrow> pollfd) \<Rightarrow> pollfd list \<Rightarrow> pollfd list run" where
  "set_client i f cs = (if i < length cs then ret (cs[i := f (cs ! i)]) else stuck Out_Of_Bounds)"

text \<open>A new connection: it takes the first free place, or is closed when there is none.\<close>

definition poll_accept :: "'w os \<Rightarrow> int \<Rightarrow> poller \<Rightarrow> 'w \<Rightarrow> (poller \<times> 'w) progress run" where
  "poll_accept os listenfd st w =
     (let (connfd, w) = accept_call os listenfd w in
      if connfd < 0 then ret (Ends (st, w))
      else let N = length (clients st); i = first_free (map pfd (clients st)) in
        seq (if i < N then set_client i (\<lambda>c. c\<lparr>pfd := connfd\<rparr>) (clients st) else ret (clients st)) (\<lambda>cs.
          let w = (if i = N then close_call os connfd w else w) in
          seq (set_client i (\<lambda>c. c\<lparr>pevents := {POLLRDNORM}\<rparr>) cs) (\<lambda>cs.
            ret (Goes_On (\<lparr>clients = cs, maxi = (if i > maxi st then i else maxi st)\<rparr>, w)))))"

text \<open>The loop over the clients, from the given indices on, with \<open>nready\<close> events left.\<close>

fun poll_serve :: "'w os \<Rightarrow> nat list \<Rightarrow> int \<Rightarrow> poller \<Rightarrow> 'w \<Rightarrow> (poller \<times> 'w) run" where
  "poll_serve os [] nready st w = ret (st, w)"
| "poll_serve os (i # is) nready st w =
     (if i < length (clients st) then
        let c = clients st ! i; sockfd = pfd c in
        if sockfd < 0 then poll_serve os is nready st w
        else if revents c \<inter> {POLLRDNORM, POLLERR} \<noteq> {} then
          seq (serve_client poll_writen os sockfd w) (\<lambda>(closed, w).
            let st = (if closed then st\<lparr>clients := (clients st)[i := c\<lparr>pfd := -1\<rparr>]\<rparr> else st);
                nready = nready - 1
            in if nready \<le> 0 then ret (st, w) else poll_serve os is nready st w)
        else poll_serve os is nready st w
      else stuck Out_Of_Bounds)"

definition set_revents :: "pollfd list \<Rightarrow> poll_flag set list \<Rightarrow> pollfd list" where
  "set_revents cs flags = map (\<lambda>(c, f). c\<lparr>revents := f\<rparr>) (zip cs flags) @ drop (length flags) cs"

definition poll_round :: "'w os \<Rightarrow> 'w poll_call \<Rightarrow> int \<Rightarrow> poller \<Rightarrow> 'w \<Rightarrow> (poller \<times> 'w) progress run" where
  "poll_round os poll listenfd st w =
     (if maxi st + 1 > length (clients st) then stuck Out_Of_Bounds
      else let ((nready, flags), w) = poll (take (maxi st + 1) (clients st)) w;
               st = st\<lparr>clients := set_revents (clients st) flags\<rparr>
           in if nready \<le> 0 then ret (Goes_On (st, w))
              else if POLLRDNORM \<in> revents (clients st ! 0) then
                seq (poll_accept os listenfd st w) (\<lambda>p.
                  case p of
                    Ends s \<Rightarrow> ret (Ends s)
                  | Goes_On (st, w) \<Rightarrow>
                      let nready = nready - 1 in
                      if nready \<le> 0 then ret (Goes_On (st, w))
                      else seq (poll_serve os [1..<maxi st + 1] nready st w) (\<lambda>s. ret (Goes_On s)))
              else seq (poll_serve os [1..<maxi st + 1] nready st w) (\<lambda>s. ret (Goes_On s)))"

partial_function (option) poll_loop :: "'w os \<Rightarrow> 'w poll_call \<Rightarrow> int \<Rightarrow> poller \<Rightarrow> 'w \<Rightarrow> (poller \<times> 'w) run" where
  "poll_loop os poll listenfd st w =
     seq (poll_round os poll listenfd st w) (\<lambda>p.
       case p of Ends s \<Rightarrow> ret s | Goes_On (st, w) \<Rightarrow> poll_loop os poll listenfd st w)"

text \<open>The array before the loop: the listening socket in front, every other place free.\<close>

definition poll_init :: "int \<Rightarrow> pollfd list \<Rightarrow> poller run" where
  "poll_init listenfd stack =
     seq (set_client 0 (\<lambda>c. c\<lparr>pfd := listenfd, pevents := {POLLRDNORM}\<rparr>) stack) (\<lambda>cs.
       ret \<lparr>clients = hd cs # map (\<lambda>c. c\<lparr>pfd := -1\<rparr>) (tl cs), maxi = 0\<rparr>)"

text \<open>The result is the exit status; \<open>atoi\<close> is a parameter.\<close>

definition poll_main ::
  "'w os \<Rightarrow> 'w poll_call \<Rightarrow> (string \<Rightarrow> int) \<Rightarrow> pollfd list \<Rightarrow> string list \<Rightarrow> 'w \<Rightarrow> (int \<times> 'w) run" where
  "poll_main os poll atoi stack argv w =
     (if length argv \<noteq> 2 then ret (1, w)
      else let port = atoi (argv ! 1) in
        if port \<le> 0 \<or> port > 65535 then ret (1, w)
        else let (listenfd, w) = socket_call os w in
          if listenfd < 0 then ret (1, w)
          else let (r, w) = bind_call os listenfd (htons (word_of_int port)) w in
            if r < 0 then ret (1, w)
            else let (r, w) = listen_call os listenfd 5 w in
              if r < 0 then ret (1, w)
              else seq (poll_init listenfd stack) (\<lambda>st.
                seq (poll_loop os poll listenfd st w) (\<lambda>(st, w). ret (1, w))))"

subsection \<open>The invariant\<close>

definition poll_ok :: "nat \<Rightarrow> int \<Rightarrow> int set \<Rightarrow> net \<Rightarrow> poller \<Rightarrow> bool" where
  "poll_ok N listenfd base v st \<longleftrightarrow>
     length (clients st) = N \<and> maxi st < N \<and> 0 \<le> listenfd \<and> pfd (clients st ! 0) = listenfd \<and>
     (\<forall>i < N. maxi st < i \<longrightarrow> pfd (clients st ! i) = -1) \<and>
     slots_ok (map pfd (clients st)) base v"

definition poll_keeps :: "('w \<Rightarrow> net) \<Rightarrow> 'w poll_call \<Rightarrow> bool" where
  "poll_keeps view poll \<longleftrightarrow> (\<forall>cs w r flags w'. poll cs w = ((r, flags), w') \<longrightarrow>
     view w' = view w \<and> length flags = length cs)"

lemma map_pfd_set_revents [simp]:
  "length flags \<le> length cs \<Longrightarrow> map pfd (set_revents cs flags) = map pfd cs"
proof -
  assume len: "length flags \<le> length cs"
  have "map pfd (map (\<lambda>(c, f). c\<lparr>revents := f\<rparr>) (zip cs flags)) = map pfd (take (length flags) cs)"
    using len by (intro nth_equalityI) auto
  then show ?thesis
    unfolding set_revents_def by (metis append_take_drop_id map_append)
qed

lemma length_set_revents [simp]: "length flags \<le> length cs \<Longrightarrow> length (set_revents cs flags) = length cs"
  by (simp add: set_revents_def)

lemma poll_okD:
  assumes "poll_ok N listenfd base v st"
  shows "length (clients st) = N" "maxi st < N" "slots_ok (map pfd (clients st)) base v"
  using assms by (simp_all add: poll_ok_def)

lemma poll_ok_fds:
  assumes "poll_ok N listenfd base v st" and "map pfd (clients st') = map pfd (clients st)"
    and "maxi st' = maxi st" "fds v' = fds v"
  shows "poll_ok N listenfd base v' st'"
proof -
  have "length (clients st') = length (clients st)" using assms(2) by (metis length_map)
  moreover have "\<forall>i < length (clients st). pfd (clients st' ! i) = pfd (clients st ! i)"
    using assms(2) calculation by (metis nth_map)
  ultimately show ?thesis
    using assms slots_ok_view [OF assms(4)] by (auto simp: poll_ok_def)
qed

text \<open>The clients among the places \<open>is\<close> that \<open>poll\<close> has flagged.\<close>

definition flagged :: "poller \<Rightarrow> nat list \<Rightarrow> int set" where
  "flagged st is = {pfd (clients st ! i) |i. i \<in> set is \<and> 0 \<le> pfd (clients st ! i) \<and>
     revents (clients st ! i) \<inter> {POLLRDNORM, POLLERR} \<noteq> {}}"

lemma finite_flagged [simp]: "finite (flagged st is)"
  unfolding flagged_def by (rule finite_subset [of _ "(\<lambda>i. pfd (clients st ! i)) ` set is"]) auto

lemma none_flagged: "int (card (flagged st is)) \<le> n \<Longrightarrow> n \<le> 0 \<Longrightarrow> flagged st is = {}"
  using card_0_eq [OF finite_flagged, of st "is"] by linarith

lemma flagged_Cons:
  "flagged st (i # is) = (if 0 \<le> pfd (clients st ! i) \<and> revents (clients st ! i) \<inter> {POLLRDNORM, POLLERR} \<noteq> {}
     then insert (pfd (clients st ! i)) (flagged st is) else flagged st is)"
  by (auto simp: flagged_def)

lemma flagged_update:
  "i \<notin> set is \<Longrightarrow> flagged (st\<lparr>clients := (clients st)[i := c]\<rparr>) is = flagged st is"
  unfolding flagged_def by (metis (no_types, lifting) nth_list_update_neq poller.select_convs(1) poller.surjective poller.update_convs(1))

lemma not_flagged_twice:
  assumes "poll_ok N listenfd base v st" and "i < N" "\<forall>j \<in> set is. j < N" "i \<notin> set is" and "0 \<le> pfd (clients st ! i)"
  shows "pfd (clients st ! i) \<notin> flagged st is"
proof
  assume "pfd (clients st ! i) \<in> flagged st is"
  then obtain j where j: "j \<in> set is" "pfd (clients st ! i) = pfd (clients st ! j)" by (auto simp: flagged_def)
  then have "j < N" using assms(3) by blast
  then have "i = j" using assms(1,2,5) j(2) unfolding poll_ok_def slots_ok_def by (metis length_map nth_map)
  then show False using j(1) assms(4) by simp
qed

lemma poll_serve_result:
  assumes posix: "posix os view" and signals: "finite_signals os m"
  shows "poll_ok N listenfd base (view w) st \<Longrightarrow> (\<forall>i \<in> set is. 0 < i \<and> i < N) \<Longrightarrow> distinct is \<Longrightarrow>
    \<exists>st' w' S. poll_serve os is nready st w = ret (st', w') \<and> poll_ok N listenfd base (view w') st' \<and>
      serves os S (view w) (view w') \<and> S \<subseteq> flagged st is \<and>
      (int (card (flagged st is)) \<le> nready \<longrightarrow> S = flagged st is)"
proof (induction "is" arbitrary: nready st w)
  case Nil
  have "flagged st [] = {}" by (simp add: flagged_def)
  then show ?case using Nil by (auto simp: serves_nothing)
next
  case (Cons i "is")
  let ?c = "clients st ! i"
  have i: "i < length (clients st)" "0 < i" "i < N" using Cons.prems poll_okD(1) by fastforce+
  have rest: "\<forall>i \<in> set is. 0 < i \<and> i < N" "distinct is" "i \<notin> set is" using Cons.prems(2,3) by simp_all
  show ?case
  proof (cases "pfd ?c < 0 \<or> revents ?c \<inter> {POLLRDNORM, POLLERR} = {}")
    case True
    then have "poll_serve os (i # is) nready st w = poll_serve os is nready st w"
      using i by (auto simp: Let_def)
    moreover have "flagged st (i # is) = flagged st is" using True by (auto simp: flagged_Cons)
    ultimately show ?thesis using Cons.IH [OF Cons.prems(1) rest(1,2)] by simp
  next
    case False
    obtain closed w1 where serve: "serve_client poll_writen os (pfd ?c) w = ret (closed, w1)"
      "serves os {pfd ?c} (view w) (view w1)"
      "fds (view w1) = (if closed then fds (view w) - {pfd ?c} else fds (view w))"
      using poll_wr.serve_client_result [OF posix signals] by blast
    define st1 where "st1 = (if closed then st\<lparr>clients := (clients st)[i := ?c\<lparr>pfd := -1\<rparr>]\<rparr> else st)"
    have ok1: "poll_ok N listenfd base (view w1) st1"
    proof (cases closed)
      case True
      have "slots_ok ((map pfd (clients st))[i := -1]) base (view w1)"
        using slots_ok_remove [OF poll_okD(3) [OF Cons.prems(1)], of i] i False serve(3) True by simp
      then show ?thesis using Cons.prems(1) i True
        by (auto simp: poll_ok_def st1_def nth_list_update map_update)
    next
      case kept: False
      then show ?thesis using poll_ok_fds [OF Cons.prems(1)] serve(3) by (simp add: st1_def)
    qed
    have flags: "flagged st1 is = flagged st is" using rest(3) by (simp add: st1_def flagged_update)
    have all: "flagged st (i # is) = insert (pfd ?c) (flagged st is)" using False by (simp add: flagged_Cons)
    have new: "pfd ?c \<notin> flagged st is"
      using not_flagged_twice [OF Cons.prems(1) i(3) _ rest(3)] rest(1) False by auto
    then have card: "card (flagged st (i # is)) = Suc (card (flagged st is))" unfolding all by simp
    have step: "poll_serve os (i # is) nready st w =
        (if nready - 1 \<le> 0 then ret (st1, w1) else poll_serve os is (nready - 1) st1 w1)"
      using i False serve(1) by (simp add: Let_def st1_def)
    show ?thesis
    proof (cases "nready - 1 \<le> 0")
      case True
      have "S = flagged st (i # is)" if "int (card (flagged st (i # is))) \<le> nready" "S = {pfd ?c}" for S
      proof -
        have "int (card (flagged st is)) \<le> 0" using that(1) True unfolding card by linarith
        then have "flagged st is = {}" by (rule none_flagged) simp
        then show ?thesis using all that(2) by simp
      qed
      then show ?thesis using step ok1 serve(2) True all
        by (intro exI [of _ st1] exI [of _ w1] exI [of _ "{pfd ?c}"]) auto
    next
      case more: False
      from Cons.IH [OF ok1 rest(1,2), of "nready - 1"] obtain st' w' S where
        r: "poll_serve os is (nready - 1) st1 w1 = ret (st', w')" "poll_ok N listenfd base (view w') st'"
        "serves os S (view w1) (view w')" "S \<subseteq> flagged st is"
        "int (card (flagged st is)) \<le> nready - 1 \<longrightarrow> S = flagged st is"
        unfolding flags by blast
      have "serves os (insert (pfd ?c) S) (view w) (view w')"
        using serves_before [OF serve(2) r(3)] new r(4) by blast
      then show ?thesis using step more r all card
        by (intro exI [of _ st'] exI [of _ w'] exI [of _ "insert (pfd ?c) S"]) auto
    qed
  qed
qed

lemma poll_accept_result:
  assumes posix: "posix os view" and limit: "fd_limit view N" and ok: "poll_ok N listenfd base (view w) st"
  shows "\<exists>p. poll_accept os listenfd st w = ret p \<and>
    (case p of Ends (st', w') \<Rightarrow> st' = st \<and> view w' = view w \<and> failed_accept os listenfd
     | Goes_On (st', w') \<Rightarrow> poll_ok N listenfd base (view w') st' \<and> (\<exists>c. accepted c (view w) (view w')))"
proof -
  obtain c w1 where call: "accept_call os listenfd w = (c, w1)" by fastforce
  from posix call show ?thesis
  proof (cases rule: posix_acceptE)
    case failed
    then show ?thesis using call by (auto simp: poll_accept_def)
  next
    case new
    then have c: "0 \<le> c" "c \<notin> fds (view w)" "fds (view w1) = fds (view w) \<union> {c}" by (auto simp: accepted_def)
    let ?fs = "map pfd (clients st)" let ?i = "first_free ?fs"
    have len: "length (clients st) = N" and slots: "slots_ok ?fs base (view w)"
      using poll_okD [OF ok] by simp_all
    have "fds (view w) \<subseteq> {0..<int (length ?fs)}" "c < int (length ?fs)"
      using limit c(3) len unfolding fd_limit_def by (force, force)
    then have i: "?i < N" using room_for_new_fd [OF slots _ c(1) _ c(2)] len by simp
    have free: "pfd (clients st ! ?i) < 0" using first_free_neg [of ?fs] i len by simp
    then have pos: "?i \<noteq> 0" using ok by (auto simp: poll_ok_def intro: ccontr)
    let ?cs = "(clients st)[?i := (clients st ! ?i)\<lparr>pfd := c, pevents := {POLLRDNORM}\<rparr>]"
    let ?st = "\<lparr>clients = ?cs, maxi = (if ?i > maxi st then ?i else maxi st)\<rparr>"
    have run: "poll_accept os listenfd st w = ret (Goes_On (?st, w1))"
      using c(1) call i len by (simp add: poll_accept_def set_client_def Let_def)
    have "slots_ok (?fs[?i := c]) base (view w1)"
      using slots_ok_add [OF slots] i len free c by simp
    then have "poll_ok N listenfd base (view w1) ?st"
      using ok i pos by (auto simp: poll_ok_def map_update nth_list_update)
    then show ?thesis using run new(2) by auto
  qed
qed

text \<open>Whether a connection waits, by \<open>poll\<close>'s answer.\<close>

definition poll_connection :: "'w poll_call \<Rightarrow> poller \<Rightarrow> 'w \<Rightarrow> bool" where
  "poll_connection poll st w \<longleftrightarrow>
     (let ((nready, flags), _) = poll (take (maxi st + 1) (clients st)) w in 0 < nready \<and> POLLRDNORM \<in> flags ! 0)"

text \<open>
  What one round has to do, given \<open>poll\<close>'s answer: accept when the listening socket is readable, and serve
  flagged clients; every one of them in a round without a new connection, if \<open>poll\<close> counts them right.
\<close>

definition poll_round_spec ::
  "'w os \<Rightarrow> ('w \<Rightarrow> net) \<Rightarrow> 'w poll_call \<Rightarrow> int \<Rightarrow> poller \<Rightarrow> 'w \<Rightarrow> net \<Rightarrow> bool" where
  "poll_round_spec os view poll listenfd st w v'' \<longleftrightarrow>
     (let ((nready, flags), _) = poll (take (maxi st + 1) (clients st)) w;
          fl = flagged (st\<lparr>clients := set_revents (clients st) flags\<rparr>) [1..<maxi st + 1]
      in \<exists>v S. serves os S v v'' \<and>
           (if poll_connection poll st w then \<exists>c. accepted c (view w) v
            else v = view w \<and> S \<subseteq> fl \<and> (int (card fl) \<le> nready \<longrightarrow> S = fl)))"

lemma poll_round_result:
  assumes posix: "posix os view" and signals: "finite_signals os m" and poll: "poll_keeps view poll"
    and limit: "fd_limit view N" and ok: "poll_ok N listenfd base (view w) st"
  shows "\<exists>p. poll_round os poll listenfd st w = ret p \<and>
    (case p of Ends (st', w') \<Rightarrow> view w' = view w \<and> poll_connection poll st w \<and> failed_accept os listenfd
     | Goes_On (st', w') \<Rightarrow> poll_ok N listenfd base (view w') st' \<and> poll_round_spec os view poll listenfd st w (view w'))"
proof -
  obtain nready flags w1 where call: "poll (take (maxi st + 1) (clients st)) w = ((nready, flags), w1)"
    by (metis prod.collapse)
  let ?st = "st\<lparr>clients := set_revents (clients st) flags\<rparr>"
  let ?fl = "flagged ?st [1..<maxi st + 1]"
  have len: "maxi st + 1 \<le> length (clients st)" using poll_okD [OF ok] by simp
  have w1: "view w1 = view w" "length flags = maxi st + 1"
    using poll call len unfolding poll_keeps_def by (fastforce simp: min_absorb2)+
  have ok1: "poll_ok N listenfd base (view w1) ?st"
    using poll_ok_fds [OF ok] w1 len by simp
  have front: "revents (clients ?st ! 0) = flags ! 0"
  proof -
    have "0 < length (clients st)" "0 < length flags" using len w1(2) by linarith+
    then show ?thesis by (simp add: set_revents_def nth_append)
  qed
  have connection: "poll_connection poll st w \<longleftrightarrow> 0 < nready \<and> POLLRDNORM \<in> flags ! 0"
    by (simp only: poll_connection_def call Let_def prod.case)
  have spec: "poll_round_spec os view poll listenfd st w v'' \<longleftrightarrow> (\<exists>v S. serves os S v v'' \<and>
      (if 0 < nready \<and> POLLRDNORM \<in> flags ! 0 then \<exists>c. accepted c (view w) v
       else v = view w \<and> S \<subseteq> ?fl \<and> (int (card ?fl) \<le> nready \<longrightarrow> S = ?fl)))" for v''
    by (simp only: poll_round_spec_def connection call Let_def prod.case)
  have round: "poll_round os poll listenfd st w =
      (if nready \<le> 0 then ret (Goes_On (?st, w1))
       else if POLLRDNORM \<in> flags ! 0 then
         seq (poll_accept os listenfd ?st w1) (\<lambda>p. case p of Ends s \<Rightarrow> ret (Ends s)
           | Goes_On (st, w) \<Rightarrow> if nready - 1 \<le> 0 then ret (Goes_On (st, w))
               else seq (poll_serve os [1..<maxi st + 1] (nready - 1) st w) (\<lambda>s. ret (Goes_On s)))
       else seq (poll_serve os [1..<maxi ?st + 1] nready ?st w1) (\<lambda>s. ret (Goes_On s)))"
    using len call front by (simp add: poll_round_def Let_def)
  have serve: "\<exists>st'' w'' S. poll_serve os [1..<maxi st' + 1] n st' w' = ret (st'', w'') \<and>
      poll_ok N listenfd base (view w'') st'' \<and> serves os S (view w') (view w'') \<and>
      S \<subseteq> flagged st' [1..<maxi st' + 1] \<and>
      (int (card (flagged st' [1..<maxi st' + 1])) \<le> n \<longrightarrow> S = flagged st' [1..<maxi st' + 1])"
    if "poll_ok N listenfd base (view w') st'" for n st' w'
    using poll_okD(2) [OF that] by (intro poll_serve_result [OF posix signals that]) auto
  consider (idle) "nready \<le> 0" | (connect) "0 < nready" "POLLRDNORM \<in> flags ! 0"
    | (clients) "0 < nready" "POLLRDNORM \<notin> flags ! 0" by linarith
  then show ?thesis
  proof cases
    case idle
    have "poll_round_spec os view poll listenfd st w (view w1)"
      unfolding spec using idle w1(1) none_flagged [OF _ idle, of ?st "[1..<maxi st + 1]"]
      by (intro exI [of _ "view w"] exI [of _ "{}"]) (auto simp: serves_nothing simp del: upt_Suc)
    then show ?thesis using round idle ok1 by simp
  next
    case clients
    obtain st'' w'' S where s: "poll_serve os [1..<maxi ?st + 1] nready ?st w1 = ret (st'', w'')"
      "poll_ok N listenfd base (view w'') st''" "serves os S (view w1) (view w'')"
      "S \<subseteq> ?fl" "int (card ?fl) \<le> nready \<longrightarrow> S = ?fl"
      using serve [OF ok1, of nready] by auto
    have "poll_round_spec os view poll listenfd st w (view w'')"
      unfolding spec using clients s(3-5) w1(1) by (intro exI [of _ "view w"] exI [of _ S]) simp
    then show ?thesis using round clients s(1,2) by simp
  next
    case connect
    obtain p where acc: "poll_accept os listenfd ?st w1 = ret p"
      "case p of Ends (st', w') \<Rightarrow> st' = ?st \<and> view w' = view w1 \<and> failed_accept os listenfd
       | Goes_On (st', w') \<Rightarrow> poll_ok N listenfd base (view w') st' \<and> (\<exists>c. accepted c (view w1) (view w'))"
      using poll_accept_result [OF posix limit ok1] by blast
    show ?thesis
    proof (cases p)
      case (Ends s)
      then show ?thesis using round connect connection acc w1 by (auto split: prod.splits)
    next
      case (Goes_On s)
      then obtain st' w' where s: "p = Goes_On (st', w')" "poll_ok N listenfd base (view w') st'"
        "\<exists>c. accepted c (view w) (view w')" using acc(2) w1(1) by (cases s) auto
      have served: "poll_round_spec os view poll listenfd st w (view w'')" if "serves os S (view w') (view w'')" for S w''
        unfolding spec using connect s(3) that by (intro exI [of _ "view w'"] exI [of _ S]) simp
      show ?thesis
      proof (cases "nready - 1 \<le> 0")
        case True
        then show ?thesis using round connect acc(1) s served [of "{}" w'] by (simp add: serves_nothing)
      next
        case False
        obtain st'' w'' S where "poll_serve os [1..<maxi st' + 1] (nready - 1) st' w' = ret (st'', w'')"
          "poll_ok N listenfd base (view w'') st''" "serves os S (view w') (view w'')"
          using serve [OF s(2), of "nready - 1"] by blast
        then show ?thesis using round connect acc(1) s served False by simp
      qed
    qed
  qed
qed

subsection \<open>Every round the server can reach\<close>

inductive poll_reaches ::
  "'w os \<Rightarrow> 'w poll_call \<Rightarrow> int \<Rightarrow> poller \<times> 'w \<Rightarrow> poller \<times> 'w \<Rightarrow> bool" for os poll listenfd where
  start: "poll_reaches os poll listenfd s s"
| again: "poll_reaches os poll listenfd s (st, w) \<Longrightarrow>
    poll_round os poll listenfd st w = ret (Goes_On s') \<Longrightarrow> poll_reaches os poll listenfd s s'"

lemma poll_reaches_ok:
  assumes "posix os view" "finite_signals os m" "poll_keeps view poll" "fd_limit view N"
  shows "poll_reaches os poll listenfd s s' \<Longrightarrow> poll_ok N listenfd base (view (snd s)) (fst s) \<Longrightarrow>
    poll_ok N listenfd base (view (snd s')) (fst s')"
proof (induction rule: poll_reaches.induct)
  case (again s st w s')
  then have "poll_ok N listenfd base (view w) st" by simp
  from poll_round_result [OF assms this] again(2) show ?case
    by (cases s') auto
qed simp

lemma poll_init_ok:
  assumes "0 \<le> listenfd" "0 < length stack" "listenfd \<in> fds v"
  shows "\<exists>st. poll_init listenfd stack = ret st \<and> poll_ok (length stack) listenfd (fds v - {listenfd}) v st"
proof -
  obtain c cs where stack: "stack = c # cs" using assms(2) by (cases stack) auto
  have nth: "(listenfd # map (\<lambda>_. -1) cs) ! i = (if i = 0 then listenfd else -1)" if "i < Suc (length cs)" for i
    using that by (cases i) auto
  have "slots_ok (listenfd # map (\<lambda>_. -1) cs) (fds v - {listenfd}) v"
    using assms nth by (auto simp: slots_ok_def live_def split: if_splits)
  then show ?thesis
    using assms(1) by (auto simp: stack poll_init_def set_client_def poll_ok_def comp_def nth_Cons split: nat.splits)
qed

subsection \<open>Properties\<close>

text \<open>The witness' world: socket 3 listens, one caller waits, and at most eight descriptors exist.\<close>

definition poll_demo :: kernel where
  "poll_demo = demo_kernel\<lparr>knet := (knet demo_kernel)\<lparr>fds := {3}\<rparr>, next_fd := 4, callers := [[1, 2]]\<rparr>"

definition poll_stack :: "pollfd list" where
  "poll_stack = replicate 8 \<lparr>pfd = 77, pevents = {}, revents = {POLLHUP}\<rparr>"

definition all_ready :: "kernel poll_call" where
  "all_ready cs k = ((int (length cs), map (\<lambda>_. {POLLRDNORM}) cs), k)"

text \<open>C4: as long as descriptors stay below the size of the array, as \<open>sysconf\<close> promises, every state the poll
  server reaches is in good order - every open descriptor is the listening socket's, was open before, or has
  exactly one place in the array, so none is leaked or closed twice - and the next round does not fault: the server
  ends only when \<open>accept\<close> fails for a connection that waits, and otherwise the round accepts the connection that waits, sends each client it
  serves exactly the bytes it read from it unless a write fails, closes it exactly when nothing could be read, leaves
  every other client alone, and, when no connection waits, serves every client that \<open>poll\<close> has flagged and counted.\<close>

theorem poll_server_safe:
  assumes "posix os view" "finite_signals os m" "poll_keeps view poll" "fd_limit view N"
    and "length stack = N" "0 < N" "0 \<le> listenfd" "listenfd \<in> fds (view w)"
    and "poll_init listenfd stack = ret st" and "poll_reaches os poll listenfd (st, w) (st', w')"
  shows "poll_ok N listenfd (fds (view w) - {listenfd}) (view w') st' \<and>
    (\<exists>p. poll_round os poll listenfd st' w' = ret p \<and>
      (case p of Goes_On (st'', w'') \<Rightarrow> poll_round_spec os view poll listenfd st' w' (view w'')
       | Ends (st'', w'') \<Rightarrow> view w'' = view w' \<and> poll_connection poll st' w' \<and> failed_accept os listenfd))"
proof -
  let ?base = "fds (view w) - {listenfd}"
  have "poll_ok N listenfd ?base (view w) st"
    using poll_init_ok [of listenfd stack "view w"] assms(5-9) by auto
  then have ok: "poll_ok N listenfd ?base (view w') st'"
    using poll_reaches_ok [OF assms(1-4,10)] by simp
  obtain p where "poll_round os poll listenfd st' w' = ret p"
    "case p of Ends (st'', w'') \<Rightarrow> view w'' = view w' \<and> poll_connection poll st' w' \<and> failed_accept os listenfd | Goes_On (st'', w'') \<Rightarrow>
       poll_ok N listenfd ?base (view w'') st'' \<and> poll_round_spec os view poll listenfd st' w' (view w'')"
    using poll_round_result [OF assms(1-4) ok] by blast
  with ok show ?thesis by (intro conjI exI [of _ p]) (auto split: progress.splits)
qed

theorem poll_server_safe_witness:
  "\<exists>st p. poll_init 3 poll_stack = ret st \<and> poll_round (limited 8) all_ready 3 st poll_demo = ret p"
proof -
  have keeps: "poll_keeps (below 8) all_ready" by (simp add: poll_keeps_def all_ready_def)
  have limit: "fd_limit (below 8) 8" by (auto simp: fd_limit_def below_def)
  have stack: "length poll_stack = 8" and pos: "(0 :: nat) < 8" "(0 :: int) \<le> 3"
    and fd: "3 \<in> fds (below 8 poll_demo)"
    by (simp_all add: poll_stack_def poll_demo_def below_def)
  obtain st where init: "poll_init 3 poll_stack = ret st"
    using poll_init_ok [OF pos(2) _ fd, of poll_stack] stack by auto
  show ?thesis
    using poll_server_safe [OF limited_posix limited_finite_signals keeps limit stack pos fd init poll_reaches.start]
      init by blast
qed

text \<open>Without that limit a connection that finds the array full makes the server write past its end: the
  branch that reports too many clients falls through to \<open>clients[i].events\<close>.\<close>

theorem poll_overflow:
  assumes "\<forall>c \<in> set (clients st). 0 \<le> pfd c" and "accept_call os listenfd w = (connfd, w')" and "0 \<le> connfd"
  shows "poll_accept os listenfd st w = stuck Out_Of_Bounds"
proof -
  have "first_free (map pfd (clients st)) = length (clients st)"
    using assms(1) by (simp add: first_free_def takeWhile_eq_all_conv [THEN iffD2])
  then show ?thesis using assms(2,3) by (simp add: poll_accept_def set_client_def Let_def)
qed

theorem poll_overflow_witness:
  "poll_accept linux 3 \<lparr>clients = [\<lparr>pfd = 3, pevents = {POLLRDNORM}, revents = {POLLRDNORM}\<rparr>], maxi = 0\<rparr>
     poll_demo = stuck Out_Of_Bounds"
  by (rule poll_overflow [where connfd = 4]) (simp_all add: poll_demo_def demo_kernel_def kernel_accept_def kernel_new_fd_def)

end
