(* ===== verification/Select_Server.thy ===== *)
theory Select_Server
  imports Event_Servers
begin

text \<open>
  \<^verbatim>\<open>select-echo-server/select-echo-server.c\<close>.  The state \<open>selector\<close> holds the local variables of \<open>main\<close>
  that live from round to round.  An \<open>fd_set\<close> is the set of its descriptors; a descriptor outside
  \<open>0..<FD_SETSIZE\<close> has no bit in it, and using one leaves the set's memory.
\<close>

definition FD_SETSIZE :: nat where "FD_SETSIZE = 1024"

record selector =
  sclients :: "int list"
  smaxi :: int
  maxfd :: int
  allset :: "int set"

type_synonym 'w select_call = "int \<Rightarrow> int set \<Rightarrow> 'w \<Rightarrow> (int \<times> int set) \<times> 'w"

subsection \<open>The program\<close>

text \<open>The file's own \<open>writen\<close>, the same text as that of \<^verbatim>\<open>echo-server/unp.h\<close>.\<close>

definition select_writen :: "'w os \<Rightarrow> int \<Rightarrow> u8 list \<Rightarrow> 'w \<Rightarrow> (int \<times> 'w) run" where
  "select_writen os fd data w = writen os fd data (int (length data)) w"

interpretation select_wr: exact_writer select_writen
  using wr_n.exact_writer_axioms unfolding select_writen_def .

definition in_fd_set :: "int \<Rightarrow> 'a \<Rightarrow> 'a run" where
  "in_fd_set fd x = (if 0 \<le> fd \<and> fd < int FD_SETSIZE then ret x else stuck Out_Of_Bounds)"

definition FD_SET :: "int \<Rightarrow> int set \<Rightarrow> int set run" where
  "FD_SET fd s = in_fd_set fd (s \<union> {fd})"

definition FD_CLR :: "int \<Rightarrow> int set \<Rightarrow> int set run" where
  "FD_CLR fd s = in_fd_set fd (s - {fd})"

definition FD_ISSET :: "int \<Rightarrow> int set \<Rightarrow> bool run" where
  "FD_ISSET fd s = in_fd_set fd (fd \<in> s)"

definition select_accept :: "'w os \<Rightarrow> int \<Rightarrow> selector \<Rightarrow> 'w \<Rightarrow> (selector \<times> 'w) progress run" where
  "select_accept os listenfd st w =
     (let (connfd, w) = accept_call os listenfd w in
      if connfd < 0 then ret (Ends (st, w))
      else let i = first_free (sclients st);
               cs = (if i < FD_SETSIZE then (sclients st)[i := connfd] else sclients st);
               w = (if i = FD_SETSIZE then close_call os connfd w else w)
           in seq (FD_SET connfd (allset st)) (\<lambda>s.
                ret (Goes_On (\<lparr>sclients = cs, smaxi = (if int i > smaxi st then int i else smaxi st),
                  maxfd = (if connfd > maxfd st then connfd else maxfd st), allset = s\<rparr>, w))))"

fun select_serve :: "'w os \<Rightarrow> int set \<Rightarrow> nat list \<Rightarrow> int \<Rightarrow> selector \<Rightarrow> 'w \<Rightarrow> (selector \<times> 'w) run" where
  "select_serve os rset [] nready st w = ret (st, w)"
| "select_serve os rset (i # is) nready st w =
     (if i < length (sclients st) then
        let sockfd = sclients st ! i in
        if sockfd < 0 then select_serve os rset is nready st w
        else seq (FD_ISSET sockfd rset) (\<lambda>ready.
          if ready then
            seq (serve_client select_writen os sockfd w) (\<lambda>(closed, w).
              seq (if closed then FD_CLR sockfd (allset st) else ret (allset st)) (\<lambda>s.
                let st = st\<lparr>allset := s,
                            sclients := if closed then (sclients st)[i := -1] else sclients st\<rparr>;
                    nready = nready - 1
                in if nready \<le> 0 then ret (st, w) else select_serve os rset is nready st w))
          else select_serve os rset is nready st w)
      else stuck Out_Of_Bounds)"

definition select_round ::
  "'w os \<Rightarrow> 'w select_call \<Rightarrow> int \<Rightarrow> selector \<Rightarrow> 'w \<Rightarrow> (selector \<times> 'w) progress run" where
  "select_round os select listenfd st w =
     (let rset = allset st;
          ((nready, rset), w) = select (maxfd st + 1) rset w
      in if nready \<le> 0 then ret (Goes_On (st, w))
         else seq (FD_ISSET listenfd rset) (\<lambda>ready.
           if ready then
             seq (select_accept os listenfd st w) (\<lambda>p.
               case p of
                 Ends s \<Rightarrow> ret (Ends s)
               | Goes_On (st, w) \<Rightarrow>
                   let nready = nready - 1 in
                   if nready \<le> 0 then ret (Goes_On (st, w))
                   else seq (select_serve os rset [0..<nat (smaxi st + 1)] nready st w) (\<lambda>s. ret (Goes_On s)))
           else seq (select_serve os rset [0..<nat (smaxi st + 1)] nready st w) (\<lambda>s. ret (Goes_On s))))"

partial_function (option) select_loop ::
  "'w os \<Rightarrow> 'w select_call \<Rightarrow> int \<Rightarrow> selector \<Rightarrow> 'w \<Rightarrow> (selector \<times> 'w) run" where
  "select_loop os select listenfd st w =
     seq (select_round os select listenfd st w) (\<lambda>p.
       case p of Ends s \<Rightarrow> ret s | Goes_On (st, w) \<Rightarrow> select_loop os select listenfd st w)"

definition select_init :: "int \<Rightarrow> selector run" where
  "select_init listenfd =
     seq (FD_SET listenfd {}) (\<lambda>s.
       ret \<lparr>sclients = replicate FD_SETSIZE (-1), smaxi = -1, maxfd = listenfd, allset = s\<rparr>)"

definition select_main ::
  "'w os \<Rightarrow> 'w select_call \<Rightarrow> (string \<Rightarrow> int) \<Rightarrow> string list \<Rightarrow> 'w \<Rightarrow> (int \<times> 'w) run" where
  "select_main os select atoi argv w =
     (if length argv \<noteq> 2 then ret (1, w)
      else let port = atoi (argv ! 1) in
        if port \<le> 0 \<or> port > 65535 then ret (1, w)
        else let (listenfd, w) = socket_call os w in
          if listenfd < 0 then ret (1, w)
          else let (r, w) = bind_call os listenfd (htons (word_of_int port)) w in
            if r < 0 then ret (1, w)
            else let (r, w) = listen_call os listenfd 5 w in
              if r < 0 then ret (1, w)
              else seq (select_init listenfd) (\<lambda>st.
                seq (select_loop os select listenfd st w) (\<lambda>(st, w). ret (1, w))))"

subsection \<open>The invariant\<close>

text \<open>
  Beyond the array's: \<open>allset\<close> holds exactly the listening socket and the clients, and \<open>maxfd\<close> covers them,
  so no client is forgotten.
\<close>

definition select_ok :: "int \<Rightarrow> int set \<Rightarrow> net \<Rightarrow> selector \<Rightarrow> bool" where
  "select_ok listenfd base v st \<longleftrightarrow>
     length (sclients st) = FD_SETSIZE \<and> -1 \<le> smaxi st \<and> smaxi st < int FD_SETSIZE \<and>
     (\<forall>i < FD_SETSIZE. smaxi st < int i \<longrightarrow> sclients st ! i = -1) \<and>
     slots_ok (sclients st) base v \<and> listenfd \<in> base \<and>
     allset st = {listenfd} \<union> live (sclients st) \<and> (\<forall>fd \<in> allset st. fd \<le> maxfd st)"

definition select_keeps :: "('w \<Rightarrow> net) \<Rightarrow> 'w select_call \<Rightarrow> bool" where
  "select_keeps view select \<longleftrightarrow> (\<forall>n s w r s' w'. select n s w = ((r, s'), w') \<longrightarrow> view w' = view w)"

lemma select_okD:
  assumes "select_ok listenfd base v st"
  shows "length (sclients st) = FD_SETSIZE" "slots_ok (sclients st) base v"
    "allset st = {listenfd} \<union> live (sclients st)" "listenfd \<in> base"
  using assms by (simp_all add: select_ok_def)

lemma select_client_open:
  assumes "select_ok listenfd base v st" and "i < FD_SETSIZE" "0 \<le> sclients st ! i"
  shows "sclients st ! i \<in> fds v"
proof -
  have "sclients st ! i \<in> live (sclients st)"
    using assms(2,3) select_okD(1) [OF assms(1)] by (simp add: live_def)
  then show ?thesis using select_okD(2) [OF assms(1)] by (simp add: slots_ok_def)
qed

lemma select_ok_fds: "select_ok listenfd base v st \<Longrightarrow> fds v' = fds v \<Longrightarrow> select_ok listenfd base v' st"
  using slots_ok_view [of v' v "sclients st" base] by (simp add: select_ok_def)

lemma in_limit: "fd_limit view FD_SETSIZE \<Longrightarrow> fd \<in> fds (view w) \<Longrightarrow> 0 \<le> fd \<and> fd < int FD_SETSIZE"
  unfolding fd_limit_def by force

lemma select_ok_close:
  assumes ok: "select_ok listenfd base v st" and i: "i < FD_SETSIZE" "0 \<le> sclients st ! i"
    and v': "fds v' = fds v - {sclients st ! i}"
  shows "select_ok listenfd base v' (st\<lparr>allset := allset st - {sclients st ! i}, sclients := (sclients st)[i := -1]\<rparr>)"
proof -
  let ?fd = "sclients st ! i"
  have slots: "slots_ok ((sclients st)[i := -1]) base v'"
    using slots_ok_remove [OF select_okD(2) [OF ok], of i] select_okD(1) [OF ok] i v' by simp
  have "live ((sclients st)[i := -1]) = live (sclients st) - {?fd}"
    using ok i by (subst live_update) (auto simp: select_ok_def slots_ok_def)
  moreover have "?fd \<noteq> listenfd"
    using ok i select_okD(1) [OF ok] by (auto simp: select_ok_def slots_ok_def live_def)
  ultimately show ?thesis using ok slots i by (auto simp: select_ok_def nth_list_update)
qed

text \<open>The clients among the places \<open>is\<close> that \<open>select\<close> has left in the set.\<close>

definition in_set :: "selector \<Rightarrow> int set \<Rightarrow> nat list \<Rightarrow> int set" where
  "in_set st rset is = {sclients st ! i |i. i \<in> set is \<and> 0 \<le> sclients st ! i \<and> sclients st ! i \<in> rset}"

lemma finite_in_set [simp]: "finite (in_set st rset is)"
  unfolding in_set_def by (rule finite_subset [of _ "(\<lambda>i. sclients st ! i) ` set is"]) auto

lemma none_in_set: "int (card (in_set st rset is)) \<le> n \<Longrightarrow> n \<le> 0 \<Longrightarrow> in_set st rset is = {}"
  using card_0_eq [OF finite_in_set, of st rset "is"] by linarith

lemma in_set_Cons:
  "in_set st rset (i # is) = (if 0 \<le> sclients st ! i \<and> sclients st ! i \<in> rset
     then insert (sclients st ! i) (in_set st rset is) else in_set st rset is)"
  by (auto simp: in_set_def)

lemma in_set_update:
  "i \<notin> set is \<Longrightarrow> sclients st' = (sclients st)[i := c] \<Longrightarrow> in_set st' rset is = in_set st rset is"
  unfolding in_set_def by (metis (no_types, lifting) nth_list_update_neq)

lemma not_in_set_twice:
  assumes "select_ok listenfd base v st" and "i < FD_SETSIZE" "\<forall>j \<in> set is. j < FD_SETSIZE" "i \<notin> set is"
    and "0 \<le> sclients st ! i"
  shows "sclients st ! i \<notin> in_set st rset is"
proof
  assume "sclients st ! i \<in> in_set st rset is"
  then obtain j where j: "j \<in> set is" "sclients st ! i = sclients st ! j" by (auto simp: in_set_def)
  then have "j < FD_SETSIZE" using assms(3) by blast
  then have "i = j" using assms(1,2,5) j(2) unfolding select_ok_def slots_ok_def by metis
  then show False using j(1) assms(4) by simp
qed

lemma select_serve_result:
  assumes posix: "posix os view" and signals: "finite_signals os m" and limit: "fd_limit view FD_SETSIZE"
  shows "select_ok listenfd base (view w) st \<Longrightarrow> (\<forall>i \<in> set is. i < FD_SETSIZE) \<Longrightarrow> distinct is \<Longrightarrow>
    \<exists>st' w' S. select_serve os rset is nready st w = ret (st', w') \<and> select_ok listenfd base (view w') st' \<and>
      serves os S (view w) (view w') \<and> S \<subseteq> in_set st rset is \<and>
      (int (card (in_set st rset is)) \<le> nready \<longrightarrow> S = in_set st rset is)"
proof (induction "is" arbitrary: nready st w)
  case Nil
  have "in_set st rset [] = {}" by (simp add: in_set_def)
  then show ?case using Nil by (auto simp: serves_nothing)
next
  case (Cons i "is")
  let ?fd = "sclients st ! i"
  have i: "i < length (sclients st)" "i < FD_SETSIZE" using Cons.prems select_okD(1) by fastforce+
  have rest: "\<forall>i \<in> set is. i < FD_SETSIZE" "distinct is" "i \<notin> set is" using Cons.prems(2,3) by simp_all
  have bit: "FD_ISSET ?fd rset = ret (?fd \<in> rset)" "FD_CLR ?fd (allset st) = ret (allset st - {?fd})" if "0 \<le> ?fd"
    using in_limit [OF limit select_client_open [OF Cons.prems(1) i(2) that]]
    by (simp_all add: FD_ISSET_def FD_CLR_def in_fd_set_def)
  show ?case
  proof (cases "?fd < 0 \<or> ?fd \<notin> rset")
    case True
    then have "select_serve os rset (i # is) nready st w = select_serve os rset is nready st w"
      using i bit by (cases "?fd < 0") simp_all
    moreover have "in_set st rset (i # is) = in_set st rset is" using True by (auto simp: in_set_Cons)
    ultimately show ?thesis using Cons.IH [OF Cons.prems(1) rest(1,2)] by simp
  next
    case False
    then have pos: "0 \<le> ?fd" "?fd \<in> rset" by simp_all
    obtain closed w1 where serve: "serve_client select_writen os ?fd w = ret (closed, w1)"
      "serves os {?fd} (view w) (view w1)"
      "fds (view w1) = (if closed then fds (view w) - {?fd} else fds (view w))"
      using select_wr.serve_client_result [OF posix signals] by blast
    define st1 where "st1 = (if closed then st\<lparr>allset := allset st - {?fd}, sclients := (sclients st)[i := -1]\<rparr>
      else st\<lparr>allset := allset st, sclients := sclients st\<rparr>)"
    have ok1: "select_ok listenfd base (view w1) st1"
      using select_ok_close [OF Cons.prems(1) i(2)] select_ok_fds [OF Cons.prems(1)] serve(3) pos
      by (cases closed) (simp_all add: st1_def)
    have flags: "in_set st1 rset is = in_set st rset is"
      using in_set_update [OF rest(3), of st1 st "-1"] by (cases closed) (simp_all add: st1_def)
    have all: "in_set st rset (i # is) = insert ?fd (in_set st rset is)" using pos by (simp add: in_set_Cons)
    have new: "?fd \<notin> in_set st rset is" using not_in_set_twice [OF Cons.prems(1) i(2) rest(1,3) pos(1)] .
    then have card: "card (in_set st rset (i # is)) = Suc (card (in_set st rset is))" unfolding all by simp
    have step: "select_serve os rset (i # is) nready st w =
        (if nready - 1 \<le> 0 then ret (st1, w1) else select_serve os rset is (nready - 1) st1 w1)"
      using i pos bit serve(1) by (cases closed) (simp_all add: Let_def st1_def)
    show ?thesis
    proof (cases "nready - 1 \<le> 0")
      case True
      have "S = in_set st rset (i # is)" if "int (card (in_set st rset (i # is))) \<le> nready" "S = {?fd}" for S
      proof -
        have "int (card (in_set st rset is)) \<le> 0" using that(1) True unfolding card by linarith
        then have "in_set st rset is = {}" by (rule none_in_set) simp
        then show ?thesis using all that(2) by simp
      qed
      then show ?thesis using step ok1 serve(2) True all
        by (intro exI [of _ st1] exI [of _ w1] exI [of _ "{?fd}"]) auto
    next
      case more: False
      from Cons.IH [OF ok1 rest(1,2), of "nready - 1"] obtain st' w' S where
        r: "select_serve os rset is (nready - 1) st1 w1 = ret (st', w')" "select_ok listenfd base (view w') st'"
        "serves os S (view w1) (view w')" "S \<subseteq> in_set st rset is"
        "int (card (in_set st rset is)) \<le> nready - 1 \<longrightarrow> S = in_set st rset is"
        unfolding flags by blast
      have "serves os (insert ?fd S) (view w) (view w')"
        using serves_before [OF serve(2) r(3)] new r(4) by blast
      then show ?thesis using step more r all card
        by (intro exI [of _ st'] exI [of _ w'] exI [of _ "insert ?fd S"]) auto
    qed
  qed
qed

lemma select_accept_result:
  assumes posix: "posix os view" and limit: "fd_limit view FD_SETSIZE" and ok: "select_ok listenfd base (view w) st"
  shows "\<exists>p. select_accept os listenfd st w = ret p \<and>
    (case p of Ends (st', w') \<Rightarrow> st' = st \<and> view w' = view w \<and> failed_accept os listenfd
     | Goes_On (st', w') \<Rightarrow> select_ok listenfd base (view w') st' \<and> (\<exists>c. accepted c (view w) (view w')))"
proof -
  obtain c w1 where call: "accept_call os listenfd w = (c, w1)" by fastforce
  from posix call show ?thesis
  proof (cases rule: posix_acceptE)
    case failed
    then show ?thesis using call by (auto simp: select_accept_def)
  next
    case new
    then have c: "0 \<le> c" "c \<notin> fds (view w)" "fds (view w1) = fds (view w) \<union> {c}" by (auto simp: accepted_def)
    let ?fs = "sclients st" let ?i = "first_free ?fs"
    have len: "length ?fs = FD_SETSIZE" and slots: "slots_ok ?fs base (view w)"
      using select_okD [OF ok] by simp_all
    have small: "c < int FD_SETSIZE" using in_limit [OF limit, of c w1] c(3) by simp
    have "fds (view w) \<subseteq> {0..<int (length ?fs)}" using limit len by (simp add: fd_limit_def)
    then have i: "?i < FD_SETSIZE" using room_for_new_fd [OF slots _ c(1) _ c(2)] small len by simp
    have free: "?fs ! ?i < 0" using first_free_neg [of ?fs] i len by simp
    let ?st = "\<lparr>sclients = ?fs[?i := c], smaxi = (if int ?i > smaxi st then int ?i else smaxi st),
        maxfd = (if c > maxfd st then c else maxfd st), allset = allset st \<union> {c}\<rparr>"
    have run: "select_accept os listenfd st w = ret (Goes_On (?st, w1))"
      using c(1) call i small by (simp add: select_accept_def FD_SET_def in_fd_set_def Let_def)
    have slots': "slots_ok (?fs[?i := c]) base (view w1)"
      using slots_ok_add [OF slots] i len free c by simp
    have "live (?fs[?i := c]) = (live ?fs - {?fs ! ?i}) \<union> (if 0 \<le> c then {c} else {})"
      using slots i len by (intro live_update) (auto simp: slots_ok_def)
    then have "live (?fs[?i := c]) = live ?fs \<union> {c}"
      using c(1) free by (auto simp: live_def)
    moreover have "\<forall>fd \<in> allset st. fd \<le> maxfd st" using ok by (simp add: select_ok_def)
    then have "\<forall>fd \<in> allset st \<union> {c}. fd \<le> (if c > maxfd st then c else maxfd st)" by fastforce
    ultimately have "select_ok listenfd base (view w1) ?st"
      using ok i slots' by (auto simp: select_ok_def nth_list_update)
    then show ?thesis using run new(2) by auto
  qed
qed

text \<open>Whether a connection waits, by \<open>select\<close>'s answer.\<close>

definition select_connection :: "'w select_call \<Rightarrow> int \<Rightarrow> selector \<Rightarrow> 'w \<Rightarrow> bool" where
  "select_connection select listenfd st w \<longleftrightarrow>
     (let ((nready, rset), _) = select (maxfd st + 1) (allset st) w in 0 < nready \<and> listenfd \<in> rset)"

text \<open>
  What one round has to do, given \<open>select\<close>'s answer: accept when the listening socket is readable, and serve clients of the
  answered set; every one of them in a round without a new connection, if \<open>select\<close> counts them right.
\<close>

definition select_round_spec ::
  "'w os \<Rightarrow> ('w \<Rightarrow> net) \<Rightarrow> 'w select_call \<Rightarrow> int \<Rightarrow> selector \<Rightarrow> 'w \<Rightarrow> net \<Rightarrow> bool" where
  "select_round_spec os view select listenfd st w v'' \<longleftrightarrow>
     (let ((nready, rset), _) = select (maxfd st + 1) (allset st) w;
          fl = in_set st rset [0..<nat (smaxi st + 1)]
      in \<exists>v S. serves os S v v'' \<and>
           (if select_connection select listenfd st w then \<exists>c. accepted c (view w) v
            else v = view w \<and> S \<subseteq> fl \<and> (int (card fl) \<le> nready \<longrightarrow> S = fl)))"

lemma select_round_result:
  assumes posix: "posix os view" and signals: "finite_signals os m" and select: "select_keeps view select"
    and limit: "fd_limit view FD_SETSIZE" and ok: "select_ok listenfd base (view w) st"
  shows "\<exists>p. select_round os select listenfd st w = ret p \<and>
    (case p of Ends (st', w') \<Rightarrow> view w' = view w \<and> select_connection select listenfd st w \<and> failed_accept os listenfd
     | Goes_On (st', w') \<Rightarrow> select_ok listenfd base (view w') st' \<and> select_round_spec os view select listenfd st w (view w'))"
proof -
  obtain nready rset w1 where call: "select (maxfd st + 1) (allset st) w = ((nready, rset), w1)"
    by (metis prod.collapse)
  let ?fl = "in_set st rset [0..<nat (smaxi st + 1)]"
  have w1: "view w1 = view w" using select call by (fastforce simp: select_keeps_def)
  then have ok1: "select_ok listenfd base (view w1) st" using ok by simp
  have "listenfd \<in> fds (view w)" using select_okD(2,4) [OF ok] by (simp add: slots_ok_def)
  then have bit: "FD_ISSET listenfd rset = ret (listenfd \<in> rset)"
    using in_limit [OF limit] by (simp add: FD_ISSET_def in_fd_set_def)
  have connection: "select_connection select listenfd st w \<longleftrightarrow> 0 < nready \<and> listenfd \<in> rset"
    by (simp only: select_connection_def call Let_def prod.case)
  have spec: "select_round_spec os view select listenfd st w v'' \<longleftrightarrow> (\<exists>v S. serves os S v v'' \<and>
      (if 0 < nready \<and> listenfd \<in> rset then \<exists>c. accepted c (view w) v
       else v = view w \<and> S \<subseteq> ?fl \<and> (int (card ?fl) \<le> nready \<longrightarrow> S = ?fl)))" for v''
    by (simp only: select_round_spec_def connection call Let_def prod.case)
  have round: "select_round os select listenfd st w =
      (if nready \<le> 0 then ret (Goes_On (st, w1))
       else if listenfd \<in> rset then
         seq (select_accept os listenfd st w1) (\<lambda>p. case p of Ends s \<Rightarrow> ret (Ends s)
           | Goes_On (st, w) \<Rightarrow> if nready - 1 \<le> 0 then ret (Goes_On (st, w))
               else seq (select_serve os rset [0..<nat (smaxi st + 1)] (nready - 1) st w) (\<lambda>s. ret (Goes_On s)))
       else seq (select_serve os rset [0..<nat (smaxi st + 1)] nready st w1) (\<lambda>s. ret (Goes_On s)))"
    using call bit by (simp add: select_round_def Let_def)
  have serve: "\<exists>st'' w'' S. select_serve os rset [0..<nat (smaxi st' + 1)] n st' w' = ret (st'', w'') \<and>
      select_ok listenfd base (view w'') st'' \<and> serves os S (view w') (view w'') \<and>
      S \<subseteq> in_set st' rset [0..<nat (smaxi st' + 1)] \<and>
      (int (card (in_set st' rset [0..<nat (smaxi st' + 1)])) \<le> n \<longrightarrow> S = in_set st' rset [0..<nat (smaxi st' + 1)])"
    if "select_ok listenfd base (view w') st'" for n st' w'
  proof -
    have "smaxi st' < int FD_SETSIZE" using that(1) by (simp add: select_ok_def)
    then show ?thesis by (intro select_serve_result [OF posix signals limit that]) auto
  qed
  consider (idle) "nready \<le> 0" | (connect) "0 < nready" "listenfd \<in> rset"
    | (clients) "0 < nready" "listenfd \<notin> rset" by linarith
  then show ?thesis
  proof cases
    case idle
    have "select_round_spec os view select listenfd st w (view w1)"
      unfolding spec using idle w1(1) none_in_set [OF _ idle, of st rset "[0..<nat (smaxi st + 1)]"]
      by (intro exI [of _ "view w"] exI [of _ "{}"]) (auto simp: serves_nothing simp del: upt_Suc)
    then show ?thesis using round idle ok1 by simp
  next
    case clients
    obtain st'' w'' S where s: "select_serve os rset [0..<nat (smaxi st + 1)] nready st w1 = ret (st'', w'')"
      "select_ok listenfd base (view w'') st''" "serves os S (view w1) (view w'')"
      "S \<subseteq> ?fl" "int (card ?fl) \<le> nready \<longrightarrow> S = ?fl"
      using serve [OF ok1, of nready] by auto
    have "select_round_spec os view select listenfd st w (view w'')"
      unfolding spec using clients s(3-5) w1(1) by (intro exI [of _ "view w"] exI [of _ S]) simp
    then show ?thesis using round clients s(1,2) by simp
  next
    case connect
    obtain p where acc: "select_accept os listenfd st w1 = ret p"
      "case p of Ends (st', w') \<Rightarrow> st' = st \<and> view w' = view w1 \<and> failed_accept os listenfd
       | Goes_On (st', w') \<Rightarrow> select_ok listenfd base (view w') st' \<and> (\<exists>c. accepted c (view w1) (view w'))"
      using select_accept_result [OF posix limit ok1] by blast
    show ?thesis
    proof (cases p)
      case (Ends s)
      then show ?thesis using round connect connection acc w1 by (auto split: prod.splits)
    next
      case (Goes_On s)
      then obtain st' w' where s: "p = Goes_On (st', w')" "select_ok listenfd base (view w') st'"
        "\<exists>c. accepted c (view w) (view w')" using acc(2) w1(1) by (cases s) auto
      have served: "select_round_spec os view select listenfd st w (view w'')" if "serves os S (view w') (view w'')" for S w''
        unfolding spec using connect s(3) that by (intro exI [of _ "view w'"] exI [of _ S]) simp
      show ?thesis
      proof (cases "nready - 1 \<le> 0")
        case True
        then show ?thesis using round connect acc(1) s served [of "{}" w'] by (simp add: serves_nothing)
      next
        case False
        obtain st'' w'' S where "select_serve os rset [0..<nat (smaxi st' + 1)] (nready - 1) st' w' = ret (st'', w'')"
          "select_ok listenfd base (view w'') st''" "serves os S (view w') (view w'')"
          using serve [OF s(2), of "nready - 1"] by blast
        then show ?thesis using round connect acc(1) s served False by simp
      qed
    qed
  qed
qed

subsection \<open>Every round the server can reach\<close>

inductive select_reaches ::
  "'w os \<Rightarrow> 'w select_call \<Rightarrow> int \<Rightarrow> selector \<times> 'w \<Rightarrow> selector \<times> 'w \<Rightarrow> bool" for os select listenfd where
  start: "select_reaches os select listenfd s s"
| again: "select_reaches os select listenfd s (st, w) \<Longrightarrow>
    select_round os select listenfd st w = ret (Goes_On s') \<Longrightarrow> select_reaches os select listenfd s s'"

lemma select_reaches_ok:
  assumes "posix os view" "finite_signals os m" "select_keeps view select" "fd_limit view FD_SETSIZE"
  shows "select_reaches os select listenfd s s' \<Longrightarrow> select_ok listenfd base (view (snd s)) (fst s) \<Longrightarrow>
    select_ok listenfd base (view (snd s')) (fst s')"
proof (induction rule: select_reaches.induct)
  case (again s st w s')
  then have "select_ok listenfd base (view w) st" by simp
  from select_round_result [OF assms this] again(2) show ?case
    by (cases s') auto
qed simp

lemma select_init_ok:
  assumes "0 \<le> listenfd" "listenfd < int FD_SETSIZE" "listenfd \<in> fds v"
  shows "\<exists>st. select_init listenfd = ret st \<and> select_ok listenfd (fds v) v st"
proof -
  have "live (replicate FD_SETSIZE (-1)) = {}" by (auto simp: live_def)
  then show ?thesis
    using assms by (simp add: select_init_def FD_SET_def in_fd_set_def select_ok_def slots_ok_def)
qed

subsection \<open>Properties\<close>

definition select_demo :: kernel where
  "select_demo = demo_kernel\<lparr>knet := (knet demo_kernel)\<lparr>fds := {3}\<rparr>, next_fd := 4, callers := [[1, 2]]\<rparr>"

definition all_in_set :: "kernel select_call" where
  "all_in_set n s k = ((int (card s), s), k)"

text \<open>C10: with at most \<open>FD_SETSIZE\<close> descriptors, every state the select server reaches is in good order -
  \<open>allset\<close> is the listening socket and the clients, \<open>maxfd\<close> covers them, every client has one place, and no
  descriptor is leaked - and the next round does not fault: the server ends only when \<open>accept\<close> fails for a
  connection that waits, and otherwise the
  round accepts the connection that waits, sends each client it serves exactly the bytes it read from it unless a write
  fails, closes it exactly when nothing could be read, leaves every other client alone, and, when no connection
  waits, serves every client that \<open>select\<close> has left in the set and counted.\<close>

theorem select_server_safe:
  assumes "posix os view" "finite_signals os m" "select_keeps view select" "fd_limit view FD_SETSIZE"
    and "listenfd \<in> fds (view w)"
    and "select_init listenfd = ret st" and "select_reaches os select listenfd (st, w) (st', w')"
  shows "select_ok listenfd (fds (view w)) (view w') st' \<and>
    (\<exists>p. select_round os select listenfd st' w' = ret p \<and>
      (case p of Goes_On (st'', w'') \<Rightarrow> select_round_spec os view select listenfd st' w' (view w'')
       | Ends (st'', w'') \<Rightarrow> view w'' = view w' \<and> select_connection select listenfd st' w' \<and> failed_accept os listenfd))"
proof -
  have "select_ok listenfd (fds (view w)) (view w) st"
    using select_init_ok [of listenfd "view w"] in_limit [OF assms(4,5)] assms(5,6) by auto
  then have ok: "select_ok listenfd (fds (view w)) (view w') st'"
    using select_reaches_ok [OF assms(1-4,7)] by simp
  obtain p where "select_round os select listenfd st' w' = ret p"
    "case p of Ends (st'', w'') \<Rightarrow> view w'' = view w' \<and> select_connection select listenfd st' w' \<and> failed_accept os listenfd | Goes_On (st'', w'') \<Rightarrow>
       select_ok listenfd (fds (view w)) (view w'') st'' \<and> select_round_spec os view select listenfd st' w' (view w'')"
    using select_round_result [OF assms(1-4) ok] by blast
  with ok show ?thesis by (intro conjI exI [of _ p]) (auto split: progress.splits)
qed

theorem select_server_safe_witness:
  "\<exists>st p. select_init 3 = ret st \<and> select_round (limited FD_SETSIZE) all_in_set 3 st select_demo = ret p"
proof -
  have keeps: "select_keeps (below FD_SETSIZE) all_in_set" by (simp add: select_keeps_def all_in_set_def)
  have limit: "fd_limit (below FD_SETSIZE) FD_SETSIZE" by (auto simp: fd_limit_def below_def)
  have fd: "3 \<in> fds (below FD_SETSIZE select_demo)" by (simp add: select_demo_def below_def FD_SETSIZE_def)
  obtain st where init: "select_init 3 = ret st"
    using select_init_ok [OF _ _ fd] by (auto simp: FD_SETSIZE_def)
  show ?thesis
    using select_server_safe [OF limited_posix limited_finite_signals keeps limit fd init select_reaches.start]
      init by blast
qed

text \<open>Without that limit \<open>FD_SET\<close> writes outside the set: a descriptor from \<open>FD_SETSIZE\<close> on is added without
  a check, whether or not the array had room for the connection.\<close>

theorem select_overflow:
  assumes "accept_call os listenfd w = (connfd, w')" and "int FD_SETSIZE \<le> connfd"
  shows "select_accept os listenfd st w = stuck Out_Of_Bounds"
  using assms by (simp add: select_accept_def FD_SET_def in_fd_set_def Let_def FD_SETSIZE_def)

theorem select_overflow_witness:
  "select_accept linux 3 \<lparr>sclients = [], smaxi = -1, maxfd = 3, allset = {3}\<rparr> (select_demo\<lparr>next_fd := 2000\<rparr>)
    = stuck Out_Of_Bounds"
  by (rule select_overflow [where connfd = 2000])
    (simp_all add: select_demo_def demo_kernel_def kernel_accept_def kernel_new_fd_def FD_SETSIZE_def)

end
