(* ===== verification/Regex_Vm.thy ===== *)
theory Regex_Vm
  imports Posix "HOL-Library.Sublist"
begin

text \<open>
  The regular-expression machines of \<^verbatim>\<open>regex-vm\<close>: the backtracking matchers \<open>recursive\<close>, \<open>recursiveloop\<close> and
  \<open>backtrackingvm\<close> of \<^verbatim>\<open>backtracking.cpp\<close>, and Thompson's simulation \<open>thompsonvm\<close> of \<^verbatim>\<open>thompson.cpp\<close>.
  A program is an array of instructions; a pointer into it is an index, and following one that leaves the
  array is a fault.  The subject is a C string: behind its last character lies a NUL, and nothing may be read
  behind that.  \<open>match_from\<close> is the specification: the nondeterministic machine can reach \<open>Match\<close>.
\<close>

subsection \<open>Programs and subjects\<close>

datatype opcode = Char_Op | Match_Op | Jmp_Op | Split_Op | Other_Op

record inst =
  opcode :: opcode
  ch :: int
  to_x :: nat
  to_y :: nat

definition fetch :: "inst list \<Rightarrow> nat \<Rightarrow> inst run" where
  "fetch prog pc = (if pc < length prog then ret (prog ! pc) else stuck Out_Of_Bounds)"

definition peek :: "int list \<Rightarrow> nat \<Rightarrow> int run" where
  "peek s sp = (if sp < length s then ret (s ! sp) else if sp = length s then ret 0 else stuck Out_Of_Bounds)"

subsection \<open>Backtracking\<close>

partial_function (option) recursive :: "inst list \<Rightarrow> int list \<Rightarrow> nat \<Rightarrow> nat \<Rightarrow> int run" where
  "recursive prog s pc sp =
     seq (fetch prog pc) (\<lambda>i.
       case opcode i of
         Char_Op \<Rightarrow> seq (peek s sp) (\<lambda>c. if c \<noteq> ch i then ret 0 else recursive prog s (pc + 1) (sp + 1))
       | Match_Op \<Rightarrow> ret 1
       | Jmp_Op \<Rightarrow> recursive prog s (to_x i) sp
       | Split_Op \<Rightarrow> seq (recursive prog s (to_x i) sp) (\<lambda>r.
           if r = 1 then ret 1 else recursive prog s (to_y i) sp)
       | Other_Op \<Rightarrow> ret (-1))"

text \<open>\<open>recursiveloop\<close>: the body of its loop either goes on with new pointers or returns.\<close>

datatype turn = Continue nat nat | Return int

partial_function (option) recursiveloop :: "inst list \<Rightarrow> int list \<Rightarrow> nat \<Rightarrow> nat \<Rightarrow> int run" where
  "recursiveloop prog s pc sp =
     seq (seq (fetch prog pc) (\<lambda>i.
       case opcode i of
         Char_Op \<Rightarrow> seq (peek s sp) (\<lambda>c.
           if c \<noteq> ch i then ret (Return 0) else ret (Continue (pc + 1) (sp + 1)))
       | Match_Op \<Rightarrow> ret (Return 1)
       | Jmp_Op \<Rightarrow> ret (Continue (to_x i) sp)
       | Split_Op \<Rightarrow> seq (recursiveloop prog s (to_x i) sp) (\<lambda>r.
           if r = 1 then ret (Return 1) else ret (Continue (to_y i) sp))
       | Other_Op \<Rightarrow> ret (Return (-1))))
     (\<lambda>t. case t of Return r \<Rightarrow> ret r | Continue pc sp \<Rightarrow> recursiveloop prog s pc sp)"

text \<open>
  \<open>backtrackingvm\<close>: the current thread and the stack of waiting ones, its top first.  An unknown
  opcode matches no case, and the inner loop goes round for ever.
\<close>

definition MAXTHREAD :: nat where "MAXTHREAD = 25"

partial_function (option) run_threads ::
  "inst list \<Rightarrow> int list \<Rightarrow> nat \<Rightarrow> nat \<Rightarrow> (nat \<times> nat) list \<Rightarrow> int run" where
  "run_threads prog s pc sp ready =
     seq (fetch prog pc) (\<lambda>i.
       case opcode i of
         Char_Op \<Rightarrow> seq (peek s sp) (\<lambda>c.
           if c \<noteq> ch i then
             (case ready of [] \<Rightarrow> ret 0 | t # ready \<Rightarrow> run_threads prog s (fst t) (snd t) ready)
           else run_threads prog s (pc + 1) (sp + 1) ready)
       | Match_Op \<Rightarrow> ret 1
       | Jmp_Op \<Rightarrow> run_threads prog s (to_x i) sp ready
       | Split_Op \<Rightarrow>
           if length ready \<ge> MAXTHREAD then ret (-1)
           else run_threads prog s (to_x i) sp ((to_y i, sp) # ready)
       | Other_Op \<Rightarrow> run_threads prog s pc sp ready)"

definition backtrackingvm :: "inst list \<Rightarrow> int list \<Rightarrow> int run" where
  "backtrackingvm prog input = run_threads prog input 0 0 []"

subsection \<open>Thompson's algorithm\<close>

definition addthread :: "nat list \<Rightarrow> nat \<Rightarrow> nat list" where
  "addthread list t = (if t \<in> set list then list else list @ [t])"

text \<open>The loop over the active threads, which may grow meanwhile; \<open>None\<close> stands for \<open>return 1\<close>.\<close>

partial_function (option) thompson_step ::
  "inst list \<Rightarrow> int \<Rightarrow> nat \<Rightarrow> nat list \<Rightarrow> nat list \<Rightarrow> nat list option run" where
  "thompson_step prog c i clist nlist =
     (if i < length clist then
        let pc = clist ! i in
        seq (fetch prog pc) (\<lambda>ins.
          case opcode ins of
            Char_Op \<Rightarrow> thompson_step prog c (i + 1) clist
              (if c = ch ins then addthread nlist (pc + 1) else nlist)
          | Match_Op \<Rightarrow> ret None
          | Jmp_Op \<Rightarrow> thompson_step prog c (i + 1) (addthread clist (to_x ins)) nlist
          | Split_Op \<Rightarrow> thompson_step prog c (i + 1) (addthread (addthread clist (to_x ins)) (to_y ins)) nlist
          | Other_Op \<Rightarrow> thompson_step prog c (i + 1) clist nlist)
      else ret (Some nlist))"

fun thompson_loop :: "inst list \<Rightarrow> int list \<Rightarrow> nat list \<Rightarrow> int run" where
  "thompson_loop prog [] clist = ret 0"
| "thompson_loop prog (c # cs) clist =
     seq (thompson_step prog c 0 clist []) (\<lambda>r.
       case r of None \<Rightarrow> ret 1 | Some nlist \<Rightarrow> thompson_loop prog cs nlist)"

definition thompsonvm :: "inst list \<Rightarrow> int list \<Rightarrow> int run" where
  "thompsonvm prog input = thompson_loop prog input (addthread [] 0)"

subsection \<open>The main program\<close>

text \<open>
  \<open>main\<close> builds the program of \<open>a?^n a^n\<close>; 97 is the character \<open>a\<close>.  The source computes its length and its indices in
  \<^verbatim>\<open>int\<close>; here they do not wrap, which is the same as long as \<open>3 * n + 1 < 2 ^ 31\<close>, that is for every
  program that fits in 16 GB.
\<close>

definition regex_insts :: "nat \<Rightarrow> inst list" where
  "regex_insts n =
     concat (map (\<lambda>i. [\<lparr>opcode = Split_Op, ch = 0, to_x = 2 * i + 1, to_y = 2 * i + 2\<rparr>,
                       \<lparr>opcode = Char_Op, ch = 97, to_x = 0, to_y = 0\<rparr>]) [0..<n]) @
     replicate n \<lparr>opcode = Char_Op, ch = 97, to_x = 0, to_y = 0\<rparr> @
     [\<lparr>opcode = Match_Op, ch = 0, to_x = 0, to_y = 0\<rparr>]"

text \<open>The two answers it prints, Thompson's first, or \<open>None\<close> when it refuses its arguments.\<close>

definition regex_main :: "(string \<Rightarrow> int) \<Rightarrow> string list \<Rightarrow> int list \<Rightarrow> (bool \<times> bool) option run" where
  "regex_main atoi argv str =
     (if length argv \<noteq> 3 then ret None
      else let n = atoi (argv ! 1) in
        if n \<le> 0 then ret None
        else seq (thompsonvm (regex_insts (nat n)) str) (\<lambda>t.
          seq (recursiveloop (regex_insts (nat n)) str 0 0) (\<lambda>r. ret (Some (t = 1, r = 1)))))"

lemmas [loop_eqs] = recursive.simps recursiveloop.simps run_threads.simps thompson_step.simps

subsection \<open>The specification\<close>

inductive vm_step :: "inst list \<Rightarrow> int list \<Rightarrow> nat \<times> nat \<Rightarrow> nat \<times> nat \<Rightarrow> bool" for prog s where
  char: "opcode (prog ! pc) = Char_Op \<Longrightarrow> sp < length s \<Longrightarrow> s ! sp = ch (prog ! pc) \<Longrightarrow>
    vm_step prog s (pc, sp) (pc + 1, sp + 1)"
| jmp: "opcode (prog ! pc) = Jmp_Op \<Longrightarrow> vm_step prog s (pc, sp) (to_x (prog ! pc), sp)"
| split_x: "opcode (prog ! pc) = Split_Op \<Longrightarrow> vm_step prog s (pc, sp) (to_x (prog ! pc), sp)"
| split_y: "opcode (prog ! pc) = Split_Op \<Longrightarrow> vm_step prog s (pc, sp) (to_y (prog ! pc), sp)"

inductive_cases vm_stepE: "vm_step prog s (pc, sp) t"

abbreviation vm_steps :: "inst list \<Rightarrow> int list \<Rightarrow> nat \<times> nat \<Rightarrow> nat \<times> nat \<Rightarrow> bool" where
  "vm_steps prog s \<equiv> (vm_step prog s)\<^sup>*\<^sup>*"

definition match_from :: "inst list \<Rightarrow> int list \<Rightarrow> nat \<times> nat \<Rightarrow> bool" where
  "match_from prog s t \<longleftrightarrow> (\<exists>pc sp. vm_steps prog s t (pc, sp) \<and> opcode (prog ! pc) = Match_Op)"

definition wf_inst :: "nat \<Rightarrow> nat \<Rightarrow> inst \<Rightarrow> bool" where
  "wf_inst n pc i \<longleftrightarrow>
     (case opcode i of
        Char_Op \<Rightarrow> pc + 1 < n \<and> ch i \<noteq> 0 | Match_Op \<Rightarrow> True | Jmp_Op \<Rightarrow> to_x i < n
      | Split_Op \<Rightarrow> to_x i < n \<and> to_y i < n | Other_Op \<Rightarrow> False)"

definition wf_prog :: "inst list \<Rightarrow> bool" where
  "wf_prog prog \<longleftrightarrow> prog \<noteq> [] \<and> (\<forall>pc < length prog. wf_inst (length prog) pc (prog ! pc))"

text \<open>No loop of jumps: some rank falls along every \<open>Jmp\<close> and \<open>Split\<close>.\<close>

definition ranked :: "inst list \<Rightarrow> (nat \<Rightarrow> nat) \<Rightarrow> bool" where
  "ranked prog rank \<longleftrightarrow> (\<forall>pc < length prog.
     (opcode (prog ! pc) = Jmp_Op \<longrightarrow> rank (to_x (prog ! pc)) < rank pc) \<and>
     (opcode (prog ! pc) = Split_Op \<longrightarrow> rank (to_x (prog ! pc)) < rank pc \<and> rank (to_y (prog ! pc)) < rank pc))"

lemma match_from_iff:
  "match_from prog s (pc, sp) \<longleftrightarrow>
     (case opcode (prog ! pc) of
        Char_Op \<Rightarrow> sp < length s \<and> s ! sp = ch (prog ! pc) \<and> match_from prog s (pc + 1, sp + 1)
      | Match_Op \<Rightarrow> True
      | Jmp_Op \<Rightarrow> match_from prog s (to_x (prog ! pc), sp)
      | Split_Op \<Rightarrow> match_from prog s (to_x (prog ! pc), sp) \<or> match_from prog s (to_y (prog ! pc), sp)
      | Other_Op \<Rightarrow> False)" (is "_ = ?rhs")
proof
  assume "match_from prog s (pc, sp)"
  then obtain pc' sp' where steps: "vm_steps prog s (pc, sp) (pc', sp')" and m: "opcode (prog ! pc') = Match_Op"
    by (auto simp: match_from_def)
  from steps show ?rhs
  proof (cases rule: converse_rtranclpE)
    case base
    then show ?thesis using m by simp
  next
    case (step t)
    from step(2) m have "match_from prog s t" unfolding match_from_def by (cases t) blast
    with step(1) show ?thesis by (auto elim!: vm_stepE)
  qed
next
  assume rhs: ?rhs
  have step: "match_from prog s (pc, sp)" if "vm_step prog s (pc, sp) t" "match_from prog s t" for t
    using that unfolding match_from_def by (meson converse_rtranclp_into_rtranclp)
  show "match_from prog s (pc, sp)"
  proof (cases "opcode (prog ! pc)")
    case Char_Op
    then show ?thesis using rhs step [OF vm_step.char] by simp
  next
    case Match_Op
    then show ?thesis unfolding match_from_def by blast
  next
    case Jmp_Op
    then show ?thesis using rhs step [OF vm_step.jmp] by simp
  next
    case Split_Op
    then show ?thesis using rhs step [OF vm_step.split_x] step [OF vm_step.split_y] by auto
  next
    case Other_Op
    then show ?thesis using rhs by simp
  qed
qed

subsection \<open>The backtracking matchers\<close>

definition answer :: "bool \<Rightarrow> int" where
  "answer b = (if b then 1 else 0)"

lemma answer_simps [simp]: "answer True = 1" "answer False = 0" "answer b = 1 \<longleftrightarrow> b" "answer b = 0 \<longleftrightarrow> \<not> b"
  by (simp_all add: answer_def)

lemma wf_progD:
  assumes "wf_prog prog" "pc < length prog"
  shows "fetch prog pc = ret (prog ! pc)" "wf_inst (length prog) pc (prog ! pc)"
  using assms by (simp_all add: wf_prog_def fetch_def)

text \<open>The order in which a matcher visits threads: input is consumed, or the rank falls.\<close>

lemma thread_induct [consumes 4, case_names thread]:
  assumes wf: "wf_prog prog" and ranked: "ranked prog rank" and "pc < length prog" "sp \<le> length s"
    and step: "\<And>pc sp. pc < length prog \<Longrightarrow> sp \<le> length s \<Longrightarrow>
      (\<And>pc' sp'. vm_step prog s (pc, sp) (pc', sp') \<Longrightarrow> pc' < length prog \<Longrightarrow> sp' \<le> length s \<Longrightarrow> P pc' sp') \<Longrightarrow>
      P pc sp"
  shows "P pc sp"
  using assms(3,4)
proof (induction "(length s - sp, rank pc)" arbitrary: pc sp rule: wf_induct_rule [OF wf_lex_prod [OF wf_less_than wf_less_than]])
  case 1
  show ?case
  proof (rule step [OF 1(2,3)])
    fix pc' sp'
    assume *: "vm_step prog s (pc, sp) (pc', sp')" "pc' < length prog" "sp' \<le> length s"
    then have "((length s - sp', rank pc'), (length s - sp, rank pc)) \<in> less_than <*lex*> less_than"
      using ranked 1(2) by (auto simp: ranked_def elim!: vm_stepE)
    then show "P pc' sp'" using 1(1) *(2,3) by blast
  qed
qed

lemma recursive_result:
  assumes "wf_prog prog" "ranked prog rank" "pc < length prog" "sp \<le> length s"
  shows "recursive prog s pc sp = ret (answer (match_from prog s (pc, sp)))"
  using assms
proof (induction rule: thread_induct)
  case (thread pc sp)
  note wf = wf_progD [OF assms(1) thread(1)]
  show ?case
  proof (cases "opcode (prog ! pc)")
    case Char_Op
    then have "s ! sp = ch (prog ! pc) \<Longrightarrow> sp < length s \<Longrightarrow>
        recursive prog s (pc + 1) (sp + 1) = ret (answer (match_from prog s (pc + 1, sp + 1)))"
      using thread(3) [OF vm_step.char] wf(2) by (simp add: wf_inst_def)
    then show ?thesis using Char_Op wf thread(2)
      by (subst recursive.simps) (auto simp: match_from_iff [of prog s pc sp] peek_def wf_inst_def)
  next
    case Match_Op
    then show ?thesis using wf by (subst recursive.simps) (simp add: match_from_iff [of prog s pc sp])
  next
    case Jmp_Op
    then show ?thesis using thread(3) [OF vm_step.jmp] thread(2) wf
      by (subst recursive.simps) (simp add: match_from_iff [of prog s pc sp] wf_inst_def)
  next
    case Split_Op
    then show ?thesis using thread(3) [OF vm_step.split_x] thread(3) [OF vm_step.split_y] thread(2) wf
      by (subst recursive.simps) (simp add: match_from_iff [of prog s pc sp] wf_inst_def)
  next
    case Other_Op
    then show ?thesis using wf(2) by (simp add: wf_inst_def)
  qed
qed

lemma recursiveloop_result:
  assumes "wf_prog prog" "ranked prog rank" "pc < length prog" "sp \<le> length s"
  shows "recursiveloop prog s pc sp = ret (answer (match_from prog s (pc, sp)))"
  using assms
proof (induction rule: thread_induct)
  case (thread pc sp)
  note wf = wf_progD [OF assms(1) thread(1)]
  show ?case
  proof (cases "opcode (prog ! pc)")
    case Char_Op
    then have "s ! sp = ch (prog ! pc) \<Longrightarrow> sp < length s \<Longrightarrow>
        recursiveloop prog s (pc + 1) (sp + 1) = ret (answer (match_from prog s (pc + 1, sp + 1)))"
      using thread(3) [OF vm_step.char] wf(2) by (simp add: wf_inst_def)
    then show ?thesis using Char_Op wf thread(2)
      by (subst recursiveloop.simps) (auto simp: match_from_iff [of prog s pc sp] peek_def wf_inst_def)
  next
    case Match_Op
    then show ?thesis using wf by (subst recursiveloop.simps) (simp add: match_from_iff [of prog s pc sp])
  next
    case Jmp_Op
    then show ?thesis using thread(3) [OF vm_step.jmp] thread(2) wf
      by (subst recursiveloop.simps) (simp add: match_from_iff [of prog s pc sp] wf_inst_def)
  next
    case Split_Op
    then show ?thesis using thread(3) [OF vm_step.split_x] thread(3) [OF vm_step.split_y] thread(2) wf
      by (subst recursiveloop.simps) (simp add: match_from_iff [of prog s pc sp] wf_inst_def)
  next
    case Other_Op
    then show ?thesis using wf(2) by (simp add: wf_inst_def)
  qed
qed

definition next_thread :: "inst list \<Rightarrow> int list \<Rightarrow> (nat \<times> nat) list \<Rightarrow> int run" where
  "next_thread prog s ready =
     (case ready of [] \<Rightarrow> ret 0 | t # ready \<Rightarrow> run_threads prog s (fst t) (snd t) ready)"

text \<open>A thread that does not match is as if it had never run.\<close>

lemma run_threads_result:
  assumes "wf_prog prog" "ranked prog rank" "pc < length prog" "sp \<le> length s"
  shows "run_threads prog s pc sp ready = ret (-1) \<or>
    run_threads prog s pc sp ready = (if match_from prog s (pc, sp) then ret 1 else next_thread prog s ready)"
  using assms
proof (induction arbitrary: ready rule: thread_induct)
  case (thread pc sp)
  note wf = wf_progD [OF assms(1) thread(1)]
  show ?case
  proof (cases "opcode (prog ! pc)")
    case Char_Op
    show ?thesis
    proof (cases "sp < length s \<and> s ! sp = ch (prog ! pc)")
      case True
      then have "run_threads prog s pc sp ready = run_threads prog s (pc + 1) (sp + 1) ready"
        using Char_Op wf by (subst run_threads.simps) (simp add: peek_def)
      moreover have "pc + 1 < length prog" using Char_Op wf(2) by (simp add: wf_inst_def)
      ultimately show ?thesis
        using thread(3) [OF vm_step.char [OF Char_Op], of ready] True Char_Op
        by (simp add: match_from_iff [of prog s pc sp])
    next
      case False
      then have "run_threads prog s pc sp ready = next_thread prog s ready"
        using Char_Op wf thread(2)
        by (subst run_threads.simps) (auto simp: peek_def next_thread_def wf_inst_def split: list.splits)
      then show ?thesis using False Char_Op by (auto simp: match_from_iff [of prog s pc sp])
    qed
  next
    case Match_Op
    then show ?thesis using wf by (subst run_threads.simps) (simp add: match_from_iff [of prog s pc sp])
  next
    case Jmp_Op
    have "run_threads prog s pc sp ready = run_threads prog s (to_x (prog ! pc)) sp ready"
      using Jmp_Op wf by (subst run_threads.simps) simp
    then show ?thesis using thread(3) [OF vm_step.jmp [OF Jmp_Op], of ready] thread(2) wf(2) Jmp_Op
      by (simp add: match_from_iff [of prog s pc sp] wf_inst_def)
  next
    case Split_Op
    let ?i = "prog ! pc"
    have step: "run_threads prog s pc sp ready = (if length ready \<ge> MAXTHREAD then ret (-1)
        else run_threads prog s (to_x ?i) sp ((to_y ?i, sp) # ready))"
      using Split_Op wf by (subst run_threads.simps) simp
    show ?thesis
      using step thread(3) [OF vm_step.split_x [OF Split_Op], of "(to_y ?i, sp) # ready"]
        thread(3) [OF vm_step.split_y [OF Split_Op], of ready] thread(2) wf(2) Split_Op
      by (auto simp: match_from_iff [of prog s pc sp] wf_inst_def next_thread_def split: if_splits)
  next
    case Other_Op
    then show ?thesis using wf(2) by (simp add: wf_inst_def)
  qed
qed

subsection \<open>Thompson's algorithm against the machine\<close>

definition eps :: "inst list \<Rightarrow> nat \<Rightarrow> nat \<Rightarrow> bool" where
  "eps prog pc pc' \<longleftrightarrow>
     opcode (prog ! pc) = Jmp_Op \<and> pc' = to_x (prog ! pc) \<or>
     opcode (prog ! pc) = Split_Op \<and> (pc' = to_x (prog ! pc) \<or> pc' = to_y (prog ! pc))"

definition clo :: "inst list \<Rightarrow> nat set \<Rightarrow> nat set" where
  "clo prog A = {pc'. \<exists>pc \<in> A. (eps prog)\<^sup>*\<^sup>* pc pc'}"

definition after :: "inst list \<Rightarrow> int \<Rightarrow> nat set \<Rightarrow> nat set" where
  "after prog c A = {Suc pc | pc. pc \<in> A \<and> opcode (prog ! pc) = Char_Op \<and> c = ch (prog ! pc)}"

lemma clo_base: "A \<subseteq> clo prog A"
  unfolding clo_def by auto

lemma clo_eps: "pc \<in> clo prog A \<Longrightarrow> eps prog pc pc' \<Longrightarrow> pc' \<in> clo prog A"
  unfolding clo_def by (blast intro: rtranclp.rtrancl_into_rtrancl)

lemma clo_least:
  assumes "A \<subseteq> B" and "\<And>pc pc'. pc \<in> B \<Longrightarrow> eps prog pc pc' \<Longrightarrow> pc' \<in> B"
  shows "clo prog A \<subseteq> B"
proof
  fix x assume "x \<in> clo prog A"
  then obtain pc where "pc \<in> A" "(eps prog)\<^sup>*\<^sup>* pc x" unfolding clo_def by blast
  from this(2,1) show "x \<in> B" by induction (use assms in auto)
qed

lemma addthread_simps [simp]:
  "set (addthread l t) = set l \<union> {t}" "distinct (addthread l t) \<longleftrightarrow> distinct l"
  "length l \<le> length (addthread l t)" "i < length l \<Longrightarrow> addthread l t ! i = l ! i"
  "i \<le> length l \<Longrightarrow> take i (addthread l t) = take i l"
  by (auto simp: addthread_def nth_append)

definition step_inv :: "inst list \<Rightarrow> int \<Rightarrow> nat set \<Rightarrow> nat \<Rightarrow> nat list \<Rightarrow> nat list \<Rightarrow> bool" where
  "step_inv prog c A i clist nlist \<longleftrightarrow>
     distinct clist \<and> distinct nlist \<and> set clist \<subseteq> {..<length prog} \<and> i \<le> length clist \<and>
     A \<subseteq> set clist \<and> set clist \<subseteq> clo prog A \<and>
     (\<forall>pc \<in> set (take i clist). opcode (prog ! pc) \<noteq> Match_Op \<and> (\<forall>pc'. eps prog pc pc' \<longrightarrow> pc' \<in> set clist)) \<and>
     set nlist = after prog c (set (take i clist))"

text \<open>At the end of the list it is closed; before it, the instruction at \<open>i\<close> keeps the invariant.\<close>

lemma step_inv_closed:
  assumes "step_inv prog c A i clist nlist" and "length clist \<le> i"
  shows "set nlist = after prog c (clo prog A)" "clo prog A = set clist" "\<forall>pc \<in> set clist. opcode (prog ! pc) \<noteq> Match_Op"
proof -
  note inv = assms(1) [unfolded step_inv_def]
  have all: "take i clist = clist" using assms(2) by simp
  have members: "\<forall>pc \<in> set clist. opcode (prog ! pc) \<noteq> Match_Op \<and> (\<forall>pc'. eps prog pc pc' \<longrightarrow> pc' \<in> set clist)"
    using inv unfolding all by (elim conjE)
  have facts: "set nlist = after prog c (set clist)" "A \<subseteq> set clist" "set clist \<subseteq> clo prog A"
    using inv unfolding all by simp_all
  have "clo prog A \<subseteq> set clist" using members facts(2) by (intro clo_least) blast+
  with facts show "set nlist = after prog c (clo prog A)" "clo prog A = set clist" by (simp_all add: subset_antisym)
  show "\<forall>pc \<in> set clist. opcode (prog ! pc) \<noteq> Match_Op" using members by blast
qed

lemma step_inv_next:
  assumes wf: "wf_prog prog" and inv: "step_inv prog c A i clist nlist" and i: "i < length clist" and pc_def: "pc = clist ! i"
  shows "opcode (prog ! pc) = Char_Op \<Longrightarrow>
      step_inv prog c A (Suc i) clist (if c = ch (prog ! pc) then addthread nlist (pc + 1) else nlist)"
    and "opcode (prog ! pc) = Jmp_Op \<Longrightarrow> step_inv prog c A (Suc i) (addthread clist (to_x (prog ! pc))) nlist"
    and "opcode (prog ! pc) = Split_Op \<Longrightarrow>
      step_inv prog c A (Suc i) (addthread (addthread clist (to_x (prog ! pc))) (to_y (prog ! pc))) nlist"
proof -
  note inv' = inv [unfolded step_inv_def]
  have pc: "pc < length prog" "pc \<in> clo prog A" using inv' nth_mem [OF i] unfolding pc_def by blast+
  note f = wf_progD [OF wf pc(1)]
  have taken: "set (take (Suc i) clist) = insert pc (set (take i clist))"
    using i by (simp add: take_Suc_conv_app_nth pc_def)
  have after: "after prog c (insert pc (set (take i clist))) = after prog c (set (take i clist)) \<union>
      (if opcode (prog ! pc) = Char_Op \<and> c = ch (prog ! pc) then {Suc pc} else {})"
    by (auto simp: after_def)
  show "step_inv prog c A (Suc i) clist (if c = ch (prog ! pc) then addthread nlist (pc + 1) else nlist)"
    if "opcode (prog ! pc) = Char_Op"
    using inv' i that unfolding step_inv_def taken after by (auto simp: eps_def)
  show "step_inv prog c A (Suc i) (addthread clist (to_x (prog ! pc))) nlist" if op: "opcode (prog ! pc) = Jmp_Op"
  proof -
    have eps: "eps prog pc (to_x (prog ! pc))" using op by (simp add: eps_def)
    have "to_x (prog ! pc) \<in> clo prog A" "to_x (prog ! pc) < length prog"
      using clo_eps [OF pc(2) eps] f(2) op by (simp_all add: wf_inst_def)
    then show ?thesis
      using inv' i op unfolding step_inv_def
      by (auto simp: taken after eps_def intro: le_trans [OF _ addthread_simps(3)])
  qed
  show "step_inv prog c A (Suc i) (addthread (addthread clist (to_x (prog ! pc))) (to_y (prog ! pc))) nlist"
    if op: "opcode (prog ! pc) = Split_Op"
  proof -
    let ?x = "to_x (prog ! pc)" let ?y = "to_y (prog ! pc)"
    have "eps prog pc ?x" "eps prog pc ?y" using op by (simp_all add: eps_def)
    then have "?x \<in> clo prog A" "?y \<in> clo prog A" "?x < length prog" "?y < length prog"
      using clo_eps [OF pc(2)] f(2) op by (simp_all add: wf_inst_def)
    moreover have "Suc i \<le> length (addthread clist ?x)" using i addthread_simps(3) [of clist ?x] by linarith
    moreover from this have "Suc i \<le> length (addthread (addthread clist ?x) ?y)"
      using addthread_simps(3) [of "addthread clist ?x" ?y] by linarith
    ultimately show ?thesis
      using inv' i op unfolding step_inv_def by (auto simp: taken after eps_def)
  qed
qed

lemma thompson_step_result:
  assumes wf: "wf_prog prog"
  shows "step_inv prog c A i clist nlist \<Longrightarrow>
    \<exists>r. thompson_step prog c i clist nlist = ret r \<and>
      (case r of None \<Rightarrow> \<exists>pc \<in> clo prog A. opcode (prog ! pc) = Match_Op
       | Some nlist' \<Rightarrow> (\<forall>pc \<in> clo prog A. opcode (prog ! pc) \<noteq> Match_Op) \<and> distinct nlist' \<and>
           set nlist' = after prog c (clo prog A))"
proof (induction "length prog - i" arbitrary: i clist nlist rule: less_induct)
  case less
  note inv = less.prems [unfolded step_inv_def]
  show ?case
  proof (cases "i < length clist")
    case False
    then have "thompson_step prog c i clist nlist = ret (Some nlist)" by (subst thompson_step.simps) simp
    then show ?thesis using step_inv_closed [OF less.prems] False inv by simp
  next
    case True
    define pc where "pc = clist ! i"
    have pc: "pc < length prog" "pc \<in> clo prog A" using inv nth_mem [OF True] unfolding pc_def by blast+
    note f = wf_progD [OF wf pc(1)]
    have "distinct clist" "set clist \<subseteq> {..<length prog}" using inv by blast+
    then have "length clist \<le> length prog" by (metis card_lessThan card_mono distinct_card finite_lessThan)
    then have decr: "length prog - Suc i < length prog - i" using True by simp
    have go: ?thesis if "thompson_step prog c i clist nlist = thompson_step prog c (i + 1) cl nl"
      "step_inv prog c A (Suc i) cl nl" for cl nl
      using less.hyps [OF decr that(2)] that(1) by simp
    have unfold: "thompson_step prog c i clist nlist = (case opcode (prog ! pc) of
          Char_Op \<Rightarrow> thompson_step prog c (i + 1) clist (if c = ch (prog ! pc) then addthread nlist (pc + 1) else nlist)
        | Match_Op \<Rightarrow> ret None
        | Jmp_Op \<Rightarrow> thompson_step prog c (i + 1) (addthread clist (to_x (prog ! pc))) nlist
        | Split_Op \<Rightarrow> thompson_step prog c (i + 1)
            (addthread (addthread clist (to_x (prog ! pc))) (to_y (prog ! pc))) nlist
        | Other_Op \<Rightarrow> thompson_step prog c (i + 1) clist nlist)"
      using True f by (subst thompson_step.simps) (simp add: Let_def flip: pc_def)
    note keeps = step_inv_next [OF wf less.prems True pc_def]
    show ?thesis
    proof (cases "opcode (prog ! pc)")
      case Char_Op
      show ?thesis by (rule go [OF _ keeps(1) [OF Char_Op]]) (simp add: unfold Char_Op)
    next
      case Match_Op
      then show ?thesis using unfold pc(2) by auto
    next
      case Jmp_Op
      show ?thesis by (rule go [OF _ keeps(2) [OF Jmp_Op]]) (simp add: unfold Jmp_Op)
    next
      case Split_Op
      show ?thesis by (rule go [OF _ keeps(3) [OF Split_Op]]) (simp add: unfold Split_Op)
    next
      case Other_Op
      then show ?thesis using f(2) by (simp add: wf_inst_def)
    qed
  qed
qed

text \<open>The threads of the nondeterministic machine after \<open>k\<close> characters.\<close>

fun threads_at :: "inst list \<Rightarrow> int list \<Rightarrow> nat \<Rightarrow> nat set" where
  "threads_at prog s 0 = clo prog {0}"
| "threads_at prog s (Suc k) = clo prog (after prog (s ! k) (threads_at prog s k))"

lemma threads_at_eps: "pc \<in> threads_at prog s k \<Longrightarrow> eps prog pc pc' \<Longrightarrow> pc' \<in> threads_at prog s k"
  by (cases k) (auto intro: clo_eps)

lemma vm_step_cases:
  "vm_step prog s (pc, sp) (pc', sp') \<longleftrightarrow> eps prog pc pc' \<and> sp' = sp \<or>
     sp < length s \<and> sp' = Suc sp \<and> pc' \<in> after prog (s ! sp) {pc}"
  by (auto simp: eps_def after_def elim!: vm_stepE intro: vm_step.intros vm_step.char [of prog pc sp s, simplified])

lemma threads_at_complete: "vm_steps prog s (0, 0) (pc, sp) \<Longrightarrow> pc \<in> threads_at prog s sp"
proof (induction "(pc, sp)" arbitrary: pc sp rule: rtranclp_induct)
  case base
  then show ?case using clo_base by auto
next
  case (step t)
  obtain pc1 sp1 where t: "t = (pc1, sp1)" by (cases t)
  have prev: "pc1 \<in> threads_at prog s sp1" using step(3) t by blast
  from step(2) show ?case
    unfolding t vm_step_cases
  proof (elim disjE conjE)
    assume "eps prog pc1 pc" "sp = sp1"
    then show ?thesis using threads_at_eps [OF prev] by simp
  next
    assume "sp = Suc sp1" "pc \<in> after prog (s ! sp1) {pc1}"
    then have "pc \<in> after prog (s ! sp1) (threads_at prog s sp1)" using prev by (auto simp: after_def)
    then show ?thesis using clo_base \<open>sp = Suc sp1\<close> by auto
  qed
qed

lemma vm_steps_clo:
  assumes "\<And>pc. pc \<in> A \<Longrightarrow> vm_steps prog s (0, 0) (pc, sp)"
  shows "pc \<in> clo prog A \<Longrightarrow> vm_steps prog s (0, 0) (pc, sp)"
proof -
  have "clo prog A \<subseteq> {pc. vm_steps prog s (0, 0) (pc, sp)}"
  proof (rule clo_least)
    fix pc pc' assume "pc \<in> {pc. vm_steps prog s (0, 0) (pc, sp)}" "eps prog pc pc'"
    then show "pc' \<in> {pc. vm_steps prog s (0, 0) (pc, sp)}"
      using vm_step_cases [of prog s pc sp pc' sp] by (auto intro: rtranclp.rtrancl_into_rtrancl)
  qed (use assms in blast)
  then show "pc \<in> clo prog A \<Longrightarrow> vm_steps prog s (0, 0) (pc, sp)" by blast
qed

lemma threads_at_sound: "k \<le> length s \<Longrightarrow> pc \<in> threads_at prog s k \<Longrightarrow> vm_steps prog s (0, 0) (pc, k)"
proof (induction k arbitrary: pc)
  case 0
  then show ?case using vm_steps_clo [of "{0}" prog s 0 pc] by simp
next
  case (Suc k)
  have "vm_steps prog s (0, 0) (pc', Suc k)" if "pc' \<in> after prog (s ! k) (threads_at prog s k)" for pc'
  proof -
    from that obtain pc1 where pc1: "pc1 \<in> threads_at prog s k" "pc' \<in> after prog (s ! k) {pc1}"
      by (auto simp: after_def)
    have "vm_step prog s (pc1, k) (pc', Suc k)" using pc1(2) Suc.prems(1) by (simp add: vm_step_cases)
    moreover have "vm_steps prog s (0, 0) (pc1, k)" using Suc.IH pc1(1) Suc.prems(1) by simp
    ultimately show ?thesis by (rule rtranclp.rtrancl_into_rtrancl [rotated])
  qed
  then show ?case using vm_steps_clo Suc.prems(2) by (metis threads_at.simps(2))
qed

lemma threads_at_range:
  assumes wf: "wf_prog prog"
  shows "threads_at prog s k \<subseteq> {..<length prog}"
proof (induction k)
  case 0
  have "0 < length prog" using wf by (simp add: wf_prog_def)
  then show ?case unfolding threads_at.simps
    by (intro clo_least) (auto simp: eps_def dest!: wf_progD(2) [OF wf] simp: wf_inst_def split: opcode.splits)
next
  case (Suc k)
  then show ?case unfolding threads_at.simps
    by (intro clo_least) (auto simp: after_def eps_def dest!: wf_progD(2) [OF wf] subsetD simp: wf_inst_def split: opcode.splits)
qed

lemma thompson_loop_result:
  assumes wf: "wf_prog prog"
  shows "s = pre @ cs \<Longrightarrow> distinct clist \<Longrightarrow> clo prog (set clist) = threads_at prog s (length pre) \<Longrightarrow>
    thompson_loop prog cs clist = ret (answer
      (\<exists>k pc. length pre \<le> k \<and> k < length s \<and> pc \<in> threads_at prog s k \<and> opcode (prog ! pc) = Match_Op))"
proof (induction cs arbitrary: pre clist)
  case Nil
  then show ?case by simp
next
  case (Cons c cs)
  let ?T = "threads_at prog s (length pre)"
  have "set clist \<subseteq> {..<length prog}"
    using clo_base [of "set clist" prog] Cons.prems(3) threads_at_range [OF wf] by blast
  then have "step_inv prog c (set clist) 0 clist []"
    using Cons.prems(2) clo_base [of "set clist" prog] by (simp add: step_inv_def after_def)
  from thompson_step_result [OF wf this] obtain r where step: "thompson_step prog c 0 clist [] = ret r"
    "case r of None \<Rightarrow> \<exists>pc \<in> ?T. opcode (prog ! pc) = Match_Op
     | Some nlist \<Rightarrow> (\<forall>pc \<in> ?T. opcode (prog ! pc) \<noteq> Match_Op) \<and> distinct nlist \<and> set nlist = after prog c ?T"
    unfolding Cons.prems(3) by blast
  show ?case
  proof (cases r)
    case None
    then obtain pc where "pc \<in> ?T" "opcode (prog ! pc) = Match_Op" using step(2) by auto
    moreover have "length pre < length s" using Cons.prems(1) by simp
    ultimately have "\<exists>k pc. length pre \<le> k \<and> k < length s \<and> pc \<in> threads_at prog s k \<and> opcode (prog ! pc) = Match_Op"
      by blast
    then show ?thesis using step(1) None by (simp add: answer_def)
  next
    case (Some nlist)
    have c: "s ! length pre = c" using Cons.prems(1) by simp
    have "thompson_loop prog cs nlist = ret (answer
      (\<exists>k pc. length (pre @ [c]) \<le> k \<and> k < length s \<and> pc \<in> threads_at prog s k \<and> opcode (prog ! pc) = Match_Op))"
      using Cons.IH [of "pre @ [c]" nlist] Cons.prems(1) step(2) Some c by simp
    moreover have "(\<exists>k pc. length (pre @ [c]) \<le> k \<and> k < length s \<and> pc \<in> threads_at prog s k \<and> opcode (prog ! pc) = Match_Op)
      = (\<exists>k pc. length pre \<le> k \<and> k < length s \<and> pc \<in> threads_at prog s k \<and> opcode (prog ! pc) = Match_Op)"
    proof (intro iffI; elim exE conjE)
      fix k pc
      assume "length (pre @ [c]) \<le> k" "k < length s" "pc \<in> threads_at prog s k" "opcode (prog ! pc) = Match_Op"
      then show "\<exists>k pc. length pre \<le> k \<and> k < length s \<and> pc \<in> threads_at prog s k \<and> opcode (prog ! pc) = Match_Op"
        by (intro exI [of _ k] exI [of _ pc]) simp
    next
      fix k pc
      assume k: "length pre \<le> k" "k < length s" "pc \<in> threads_at prog s k" "opcode (prog ! pc) = Match_Op"
      then have "k \<noteq> length pre" using step(2) Some by auto
      with k show "\<exists>k pc. length (pre @ [c]) \<le> k \<and> k < length s \<and> pc \<in> threads_at prog s k \<and> opcode (prog ! pc) = Match_Op"
        by (intro exI [of _ k] exI [of _ pc]) simp
    qed
    ultimately show ?thesis using step(1) Some by simp
  qed
qed

lemma thompsonvm_result:
  assumes "wf_prog prog"
  shows "thompsonvm prog s = ret (answer
    (\<exists>pc sp. sp < length s \<and> vm_steps prog s (0, 0) (pc, sp) \<and> opcode (prog ! pc) = Match_Op))"
proof -
  have "thompsonvm prog s = ret (answer (\<exists>k pc. k < length s \<and> pc \<in> threads_at prog s k \<and> opcode (prog ! pc) = Match_Op))"
    using thompson_loop_result [OF assms, of s "[]" s "addthread [] 0"] by (simp add: thompsonvm_def)
  moreover have "(\<exists>k pc. k < length s \<and> pc \<in> threads_at prog s k \<and> opcode (prog ! pc) = Match_Op)
      = (\<exists>pc sp. sp < length s \<and> vm_steps prog s (0, 0) (pc, sp) \<and> opcode (prog ! pc) = Match_Op)"
    using threads_at_sound threads_at_complete by (metis less_imp_le)
  ultimately show ?thesis by simp
qed

subsection \<open>The program of \<open>main\<close>\<close>

lemma pairs_nth:
  "length (concat (map (\<lambda>i. [f i, g i]) [0..<n])) = 2 * n"
  "i < n \<Longrightarrow> concat (map (\<lambda>i. [f i, g i]) [0..<n]) ! (2 * i) = f i"
  "i < n \<Longrightarrow> concat (map (\<lambda>i. [f i, g i]) [0..<n]) ! Suc (2 * i) = g i"
proof (induction n)
  case (Suc n)
  { case 1 then show ?case using Suc by simp }
  { case 2 then show ?case using Suc by (cases "i = n") (auto simp: nth_append) }
  { case 3 then show ?case using Suc by (cases "i = n") (auto simp: nth_append) }
qed simp_all

lemma regex_insts_nth:
  "length (regex_insts n) = 3 * n + 1"
  "i < n \<Longrightarrow> regex_insts n ! (2 * i) = \<lparr>opcode = Split_Op, ch = 0, to_x = 2 * i + 1, to_y = 2 * i + 2\<rparr>"
  "i < n \<Longrightarrow> regex_insts n ! Suc (2 * i) = \<lparr>opcode = Char_Op, ch = 97, to_x = 0, to_y = 0\<rparr>"
  "j < n \<Longrightarrow> regex_insts n ! (2 * n + j) = \<lparr>opcode = Char_Op, ch = 97, to_x = 0, to_y = 0\<rparr>"
  "regex_insts n ! (3 * n) = \<lparr>opcode = Match_Op, ch = 0, to_x = 0, to_y = 0\<rparr>"
  by (simp_all add: regex_insts_def pairs_nth nth_append)

lemma regex_insts_cases:
  fixes pc :: nat
  assumes "pc < 3 * n + 1"
  obtains (split) i where "i < n" "pc = 2 * i" | (opt) i where "i < n" "pc = Suc (2 * i)"
    | (char) j where "j < n" "pc = 2 * n + j" | (match) "pc = 3 * n"
proof -
  consider "pc < 2 * n" "even pc" | "pc < 2 * n" "odd pc" | "2 * n \<le> pc" "pc < 3 * n" | "pc = 3 * n"
    using assms by linarith
  then show ?thesis
  proof cases
    case 1
    then show ?thesis using split [of "pc div 2"] by (auto elim!: evenE)
  next
    case 2
    then show ?thesis using opt [of "pc div 2"] by (auto elim!: oddE)
  next
    case 3
    then show ?thesis using char [of "pc - 2 * n"] by auto
  next
    case 4
    then show ?thesis by (rule match)
  qed
qed

lemma regex_insts_wf: "wf_prog (regex_insts n)"
  unfolding wf_prog_def
proof (intro conjI allI impI)
  show "regex_insts n \<noteq> []" using regex_insts_nth(1) [of n] by auto
  fix pc assume "pc < length (regex_insts n)"
  then have "pc < 3 * n + 1" by (simp add: regex_insts_nth)
  then show "wf_inst (length (regex_insts n)) pc (regex_insts n ! pc)"
    by (cases rule: regex_insts_cases) (auto simp: regex_insts_nth(1) wf_inst_def regex_insts_nth(2-5) simp del: mult_Suc)
qed

lemma regex_insts_ranked: "ranked (regex_insts n) (\<lambda>pc. 3 * n + 1 - pc)"
  unfolding ranked_def
proof (intro allI impI)
  fix pc assume "pc < length (regex_insts n)"
  then have "pc < 3 * n + 1" by (simp add: regex_insts_nth)
  then show "(opcode (regex_insts n ! pc) = Jmp_Op \<longrightarrow> 3 * n + 1 - to_x (regex_insts n ! pc) < 3 * n + 1 - pc) \<and>
     (opcode (regex_insts n ! pc) = Split_Op \<longrightarrow> 3 * n + 1 - to_x (regex_insts n ! pc) < 3 * n + 1 - pc \<and>
        3 * n + 1 - to_y (regex_insts n ! pc) < 3 * n + 1 - pc)"
    by (cases rule: regex_insts_cases) (auto simp: regex_insts_nth(2-5))
qed

text \<open>How many characters \<open>Match\<close> is away, at least.\<close>

definition needed :: "nat \<Rightarrow> nat \<Rightarrow> nat" where
  "needed n pc = (if pc < 2 * n then n else 3 * n - pc)"

lemma needed_step:
  assumes "pc < 3 * n + 1" and "vm_step (regex_insts n) s (pc, sp) (pc', sp')"
  shows "pc' < 3 * n + 1 \<and> sp + needed n pc \<le> sp' + needed n pc'"
  using assms(1)
proof (cases rule: regex_insts_cases)
  case (split i)
  then show ?thesis using assms(2) by (auto simp: regex_insts_nth(2) needed_def elim!: vm_stepE)
next
  case (opt i)
  then show ?thesis using assms(2) regex_insts_nth(3) [of i n] by (auto simp: needed_def elim!: vm_stepE)
next
  case (char j)
  then show ?thesis using assms(2) regex_insts_nth(4) [of j n] by (auto simp: needed_def elim!: vm_stepE)
next
  case match
  then show ?thesis using assms(2) regex_insts_nth(5) [of n] by (auto elim!: vm_stepE)
qed

lemma match_needs_n:
  "vm_steps (regex_insts n) s (0, 0) (pc, sp) \<Longrightarrow> pc < 3 * n + 1 \<and> n \<le> sp + needed n pc"
proof (induction "(pc, sp)" arbitrary: pc sp rule: rtranclp_induct)
  case base
  then show ?case by (simp add: needed_def)
next
  case (step t)
  obtain pc1 sp1 where t: "t = (pc1, sp1)" by (cases t)
  have prev: "pc1 < 3 * n + 1" "n \<le> sp1 + needed n pc1" using step(3) t by auto
  show ?case using needed_step [OF prev(1)] step(2) prev(2) t by fastforce
qed

lemma match_at_end:
  assumes "pc < 3 * n + 1" "opcode (regex_insts n ! pc) = Match_Op"
  shows "pc = 3 * n"
  using assms(1)
proof (cases rule: regex_insts_cases)
  case (opt i)
  then show ?thesis using assms(2) regex_insts_nth(3) [of i n] by simp
next
  case (char j)
  then show ?thesis using assms(2) regex_insts_nth(4) [of j n] by simp
qed (use assms(2) in \<open>simp_all add: regex_insts_nth(2)\<close>)

lemma regex_insts_match:
  assumes "n \<le> k"
  shows "vm_steps (regex_insts n) (replicate k 97) (0, 0) (3 * n, n)"
proof -
  let ?prog = "regex_insts n" let ?s = "replicate k (97 :: int)"
  have skip: "i \<le> n \<Longrightarrow> vm_steps ?prog ?s (0, 0) (2 * i, 0)" for i
  proof (induction i)
    case (Suc i)
    then have "vm_step ?prog ?s (2 * i, 0) (2 * Suc i, 0)"
      using vm_step.split_y [of ?prog "2 * i" ?s 0] by (simp add: regex_insts_nth(2))
    with Suc show ?case by (auto intro: rtranclp.rtrancl_into_rtrancl)
  qed simp
  have eat: "j \<le> n \<Longrightarrow> vm_steps ?prog ?s (0, 0) (2 * n + j, j)" for j
  proof (induction j)
    case 0
    then show ?case using skip [of n] by simp
  next
    case (Suc j)
    then have "vm_step ?prog ?s (2 * n + j, j) (2 * n + Suc j, Suc j)"
      using vm_step.char [of ?prog "2 * n + j" j ?s] assms by (simp add: regex_insts_nth(4))
    with Suc show ?case by (auto intro: rtranclp.rtrancl_into_rtrancl)
  qed
  have "2 * n + n = 3 * n" by simp
  then show ?thesis using eat [of n] by simp
qed

lemma main_answers:
  "recursiveloop (regex_insts n) (replicate k 97) 0 0 = ret (answer (n \<le> k))"
  "thompsonvm (regex_insts n) (replicate k 97) = ret (answer (n < k))"
proof -
  let ?prog = "regex_insts n" let ?s = "replicate k (97 :: int)"
  have needs: "sp = n + (sp - n) \<and> n \<le> sp" if "vm_steps ?prog ?s (0, 0) (pc, sp)" "opcode (?prog ! pc) = Match_Op" for pc sp
    using match_needs_n [OF that(1)] match_at_end [OF _ that(2)] by (auto simp: needed_def)
  have consumed: "sp \<le> k" if "vm_steps ?prog ?s (0, 0) (pc, sp)" for pc sp
    using that by (induction "(pc, sp)" arbitrary: pc sp rule: rtranclp_induct) (auto elim!: vm_stepE)
  have reach: "n \<le> k \<Longrightarrow> vm_steps ?prog ?s (0, 0) (3 * n, n)" by (rule regex_insts_match)
  have "match_from ?prog ?s (0, 0) \<longleftrightarrow> n \<le> k"
    using needs consumed reach regex_insts_nth(5) [of n] unfolding match_from_def by (metis inst.select_convs(1) le_trans)
  then show "recursiveloop ?prog ?s 0 0 = ret (answer (n \<le> k))"
    using recursiveloop_result [OF regex_insts_wf regex_insts_ranked, of 0 n 0 ?s] by (simp add: regex_insts_nth(1))
  have "(\<exists>pc sp. sp < length ?s \<and> vm_steps ?prog ?s (0, 0) (pc, sp) \<and> opcode (?prog ! pc) = Match_Op) \<longleftrightarrow> n < k"
    using needs reach regex_insts_nth(5) [of n] by (metis inst.select_convs(1) le_less_trans length_replicate less_imp_le)
  then show "thompsonvm ?prog ?s = ret (answer (n < k))"
    by (simp only: thompsonvm_result [OF regex_insts_wf])
qed

subsection \<open>How many threads wait\<close>

text \<open>
  On a program that never goes back, characters included, each waiting thread belongs to another \<open>Split\<close>
  behind the current instruction.
\<close>

definition straight :: "inst list \<Rightarrow> (nat \<Rightarrow> nat) \<Rightarrow> bool" where
  "straight prog rank \<longleftrightarrow> ranked prog rank \<and>
     (\<forall>pc < length prog. opcode (prog ! pc) = Char_Op \<longrightarrow> rank (pc + 1) < rank pc)"

definition splits_from :: "inst list \<Rightarrow> (nat \<Rightarrow> nat) \<Rightarrow> nat \<Rightarrow> nat set" where
  "splits_from prog rank r = {pc. pc < length prog \<and> opcode (prog ! pc) = Split_Op \<and> rank pc \<le> r}"

lemma splits_from_mono:
  "r \<le> r' \<Longrightarrow> card (splits_from prog rank r) \<le> card (splits_from prog rank r')"
  by (rule card_mono) (auto simp: splits_from_def)

lemma splits_from_less:
  assumes "pc < length prog" "opcode (prog ! pc) = Split_Op" "r < rank pc"
  shows "card (splits_from prog rank r) < card (splits_from prog rank (rank pc))"
proof (rule psubset_card_mono)
  show "finite (splits_from prog rank (rank pc))"
    by (rule finite_subset [of _ "{..<length prog}"]) (auto simp: splits_from_def)
  have "pc \<in> splits_from prog rank (rank pc)" using assms(1,2) by (simp add: splits_from_def)
  moreover have "pc \<notin> splits_from prog rank r" using assms(3) by (simp add: splits_from_def)
  moreover have "splits_from prog rank r \<subseteq> splits_from prog rank (rank pc)"
    unfolding splits_from_def by (rule Collect_mono) (use assms(3) in linarith)
  ultimately show "splits_from prog rank r \<subset> splits_from prog rank (rank pc)" by blast
qed

text \<open>\<open>need pc sp\<close> is room for the threads that wait while a thread at \<open>pc\<close> and \<open>sp\<close> runs.\<close>

definition enough_room :: "inst list \<Rightarrow> int list \<Rightarrow> (nat \<Rightarrow> nat \<Rightarrow> nat) \<Rightarrow> bool" where
  "enough_room prog s need \<longleftrightarrow> (\<forall>pc sp pc' sp'. pc < length prog \<longrightarrow> sp \<le> length s \<longrightarrow> vm_step prog s (pc, sp) (pc', sp') \<longrightarrow>
     need pc' sp' \<le> need pc sp \<and>
     (opcode (prog ! pc) = Split_Op \<and> pc' = to_x (prog ! pc) \<longrightarrow> need pc' sp' < need pc sp))"

lemma run_threads_enough:
  assumes "wf_prog prog" "ranked prog rank" "pc < length prog" "sp \<le> length s" and room: "enough_room prog s need"
  shows "length ready + need pc sp \<le> MAXTHREAD \<Longrightarrow>
    run_threads prog s pc sp ready = (if match_from prog s (pc, sp) then ret 1 else next_thread prog s ready)"
  using assms(1-4)
proof (induction arbitrary: ready rule: thread_induct)
  case (thread pc sp)
  note wf = wf_progD [OF assms(1) thread(1)]
  have room': "length ready + need pc' sp' \<le> MAXTHREAD" if "vm_step prog s (pc, sp) (pc', sp')" for pc' sp'
    using that room thread(1,2,4) unfolding enough_room_def by (meson add_left_mono le_trans)
  show ?case
  proof (cases "opcode (prog ! pc)")
    case Char_Op
    show ?thesis
    proof (cases "sp < length s \<and> s ! sp = ch (prog ! pc)")
      case True
      then have "run_threads prog s pc sp ready = run_threads prog s (pc + 1) (sp + 1) ready"
        using Char_Op wf by (subst run_threads.simps) (simp add: peek_def)
      moreover have step: "vm_step prog s (pc, sp) (pc + 1, sp + 1)" using True by (intro vm_step.char [OF Char_Op]) auto
      moreover have "pc + 1 < length prog" using Char_Op wf(2) by (simp add: wf_inst_def)
      ultimately show ?thesis
        using thread(3) [OF step _ _ room' [OF step]] True Char_Op
        by (simp add: match_from_iff [of prog s pc sp])
    next
      case False
      then have "run_threads prog s pc sp ready = next_thread prog s ready"
        using Char_Op wf thread(2)
        by (subst run_threads.simps) (auto simp: peek_def next_thread_def wf_inst_def split: list.splits)
      then show ?thesis using False Char_Op by (auto simp: match_from_iff [of prog s pc sp])
    qed
  next
    case Match_Op
    then show ?thesis using wf by (subst run_threads.simps) (simp add: match_from_iff [of prog s pc sp])
  next
    case Jmp_Op
    have step: "vm_step prog s (pc, sp) (to_x (prog ! pc), sp)" by (rule vm_step.jmp [OF Jmp_Op])
    have "run_threads prog s pc sp ready = run_threads prog s (to_x (prog ! pc)) sp ready"
      using Jmp_Op wf by (subst run_threads.simps) simp
    then show ?thesis
      using thread(3) [OF step _ _ room' [OF step]] thread(2) wf(2) Jmp_Op
      by (simp add: match_from_iff [of prog s pc sp] wf_inst_def)
  next
    case Split_Op
    let ?i = "prog ! pc"
    have x: "vm_step prog s (pc, sp) (to_x ?i, sp)" and y: "vm_step prog s (pc, sp) (to_y ?i, sp)"
      using vm_step.split_x [OF Split_Op] vm_step.split_y [OF Split_Op] by blast+
    have less: "need (to_x ?i) sp < need pc sp"
      using room x thread(1,2) Split_Op unfolding enough_room_def by blast
    then have "run_threads prog s pc sp ready = run_threads prog s (to_x ?i) sp ((to_y ?i, sp) # ready)"
      using Split_Op wf thread(4) by (subst run_threads.simps) simp
    also have "\<dots> = (if match_from prog s (to_x ?i, sp) then ret 1 else run_threads prog s (to_y ?i) sp ready)"
      using thread(3) [OF x, of "(to_y ?i, sp) # ready"] less thread(2,4) wf(2) Split_Op
      by (simp add: wf_inst_def next_thread_def)
    finally show ?thesis
      using thread(3) [OF y _ _ room' [OF y]] thread(2) wf(2) Split_Op
      by (auto simp: match_from_iff [of prog s pc sp] wf_inst_def)
  next
    case Other_Op
    then show ?thesis using wf(2) by (simp add: wf_inst_def)
  qed
qed

lemma backtrackingvm_room:
  assumes wf: "wf_prog prog" and r: "ranked prog rank" and room: "enough_room prog s need" and few: "need 0 0 \<le> MAXTHREAD"
  shows "backtrackingvm prog s = recursive prog s 0 0"
proof -
  have start: "0 < length prog" using wf by (simp add: wf_prog_def)
  have "run_threads prog s 0 0 [] = (if match_from prog s (0, 0) then ret 1 else next_thread prog s [])"
    using few by (intro run_threads_enough [OF wf r start _ room]) simp_all
  then show ?thesis
    using recursive_result [OF wf r start, of 0 s] by (simp add: backtrackingvm_def next_thread_def answer_def)
qed

lemma straight_room:
  assumes "straight prog rank"
  shows "enough_room prog s (\<lambda>pc sp. card (splits_from prog rank (rank pc)))"
  unfolding enough_room_def
proof (intro allI impI conjI)
  fix pc sp pc' sp' assume pc: "pc < length prog" and step: "vm_step prog s (pc, sp) (pc', sp')"
  then have falls: "rank pc' < rank pc" using assms by (auto simp: straight_def ranked_def elim!: vm_stepE)
  then show "card (splits_from prog rank (rank pc')) \<le> card (splits_from prog rank (rank pc))"
    by (intro splits_from_mono) simp
  show "card (splits_from prog rank (rank pc')) < card (splits_from prog rank (rank pc))"
    if "opcode (prog ! pc) = Split_Op \<and> pc' = to_x (prog ! pc)"
    using splits_from_less [where rank = rank and r = "rank pc'", OF pc _ falls] that by blast
qed

lemma backtrackingvm_enough:
  assumes wf: "wf_prog prog" and straight: "straight prog rank"
    and few: "card {pc. pc < length prog \<and> opcode (prog ! pc) = Split_Op} \<le> MAXTHREAD"
  shows "backtrackingvm prog s = recursive prog s 0 0"
proof -
  have r: "ranked prog rank" using straight by (simp add: straight_def)
  have "card (splits_from prog rank (rank 0)) \<le> card {pc. pc < length prog \<and> opcode (prog ! pc) = Split_Op}"
    by (rule card_mono) (auto simp: splits_from_def)
  then show ?thesis using few by (intro backtrackingvm_room [OF wf r straight_room [OF straight]]) simp
qed

text \<open>The program of \<open>main\<close> has \<open>n\<close> splits.\<close>

lemma regex_insts_straight: "straight (regex_insts n) (\<lambda>pc. 3 * n + 1 - pc)"
  using regex_insts_ranked [of n] by (auto simp: straight_def regex_insts_nth(1))

lemma regex_insts_splits: "card {pc. pc < length (regex_insts n) \<and> opcode (regex_insts n ! pc) = Split_Op} \<le> n"
proof -
  have "{pc. pc < length (regex_insts n) \<and> opcode (regex_insts n ! pc) = Split_Op} \<subseteq> (*) 2 ` {..<n}"
  proof
    fix pc assume "pc \<in> {pc. pc < length (regex_insts n) \<and> opcode (regex_insts n ! pc) = Split_Op}"
    then have pc: "pc < 3 * n + 1" "opcode (regex_insts n ! pc) = Split_Op" by (simp_all add: regex_insts_nth(1))
    from pc(1) show "pc \<in> (*) 2 ` {..<n}"
    proof (cases rule: regex_insts_cases)
      case (split i)
      then show ?thesis by simp
    qed (use pc(2) regex_insts_nth(3,4) [of _ n] regex_insts_nth(5) [of n] in \<open>simp_all del: mult_Suc\<close>)
  qed
  then have "card {pc. pc < length (regex_insts n) \<and> opcode (regex_insts n ! pc) = Split_Op} \<le> card ((*) 2 ` {..<n})"
    by (intro card_mono) auto
  also have "\<dots> \<le> n" using card_image_le [of "{..<n}" "(*) 2"] by simp
  finally show ?thesis .
qed

lemma run_threads_gives_up:
  assumes "25 < n" and "25 \<le> k"
  shows "i \<le> 25 \<Longrightarrow> length ready = 25 - i \<Longrightarrow>
    run_threads (regex_insts n) (replicate k 97) (2 * (25 - i)) (25 - i) ready = ret (-1)"
proof (induction i arbitrary: ready)
  case 0
  then show ?case
    using assms by (subst run_threads.simps)
      (simp add: fetch_def regex_insts_nth(1) regex_insts_nth(2) [of 25, simplified] MAXTHREAD_def)
next
  case (Suc i)
  define j where "j = 24 - i"
  have j: "25 - Suc i = j" "25 - i = Suc j" "j < n" "j < k" "length ready < MAXTHREAD"
    using Suc.prems assms by (auto simp: j_def MAXTHREAD_def)
  let ?prog = "regex_insts n" let ?s = "replicate k (97 :: int)"
  let ?ready = "(2 * j + 2, j) # ready"
  have "run_threads ?prog ?s (2 * j) j ready = run_threads ?prog ?s (Suc (2 * j)) j ?ready"
    using j by (subst run_threads.simps) (simp add: fetch_def regex_insts_nth(1,2))
  also have "\<dots> = run_threads ?prog ?s (2 * Suc j) (Suc j) ?ready"
    using j by (subst run_threads.simps) (simp add: fetch_def regex_insts_nth(1,3) peek_def)
  also have "\<dots> = ret (-1)" using Suc.IH [of ?ready] Suc.prems j by simp
  finally show ?case unfolding j(1) .
qed

text \<open>On \<open>k\<close> characters at most \<open>k + 1\<close> of them can wait: only an \<open>a\<close> that is there leads past a split.\<close>

definition main_need :: "nat \<Rightarrow> nat \<Rightarrow> nat \<Rightarrow> nat \<Rightarrow> nat" where
  "main_need n k pc sp = min (n - (pc + 1) div 2) (k + 1 - sp - pc mod 2)"

lemma main_room: "enough_room (regex_insts n) (replicate k 97) (main_need n k)"
  unfolding enough_room_def
proof (intro allI impI)
  fix pc sp pc' sp' assume "pc < length (regex_insts n)"
    and sp: "sp \<le> length (replicate k (97 :: int))" and step: "vm_step (regex_insts n) (replicate k 97) (pc, sp) (pc', sp')"
  then have "pc < 3 * n + 1" by (simp add: regex_insts_nth(1))
  then show "main_need n k pc' sp' \<le> main_need n k pc sp \<and>
    (opcode (regex_insts n ! pc) = Split_Op \<and> pc' = to_x (regex_insts n ! pc) \<longrightarrow> main_need n k pc' sp' < main_need n k pc sp)"
  proof (cases rule: regex_insts_cases)
    case (split i)
    have "pc' = 2 * i + 1 \<and> sp' = sp \<or> pc' = 2 * i + 2 \<and> sp' = sp"
      using step split by (auto simp: regex_insts_nth(2) elim!: vm_stepE)
    then show ?thesis using split sp by (auto simp: main_need_def regex_insts_nth(2))
  next
    case (opt i)
    have "pc' = 2 * i + 2 \<and> sp' = sp + 1 \<and> sp < k"
      using step opt regex_insts_nth(3) [of i n] by (auto elim!: vm_stepE)
    then show ?thesis using opt regex_insts_nth(3) [of i n] by (auto simp: main_need_def)
  next
    case (char j)
    have "pc' = pc + 1"
      using step char regex_insts_nth(4) [of j n] by (auto elim!: vm_stepE)
    then show ?thesis using char regex_insts_nth(4) [of j n] by (auto simp: main_need_def)
  next
    case match
    then show ?thesis using step regex_insts_nth(5) [of n] by (auto elim!: vm_stepE)
  qed
qed

lemma main_backtracking:
  "backtrackingvm (regex_insts n) (replicate k 97) = ret (if 25 < n \<and> 25 \<le> k then -1 else answer (n \<le> k))"
proof (cases "25 < n \<and> 25 \<le> k")
  case False
  let ?prog = "regex_insts n" let ?s = "replicate k (97 :: int)"
  have "backtrackingvm ?prog ?s = recursive ?prog ?s 0 0"
    using False by (intro backtrackingvm_room [OF regex_insts_wf regex_insts_ranked main_room])
      (auto simp: MAXTHREAD_def main_need_def)
  also have "\<dots> = recursiveloop ?prog ?s 0 0"
    using recursive_result [OF regex_insts_wf regex_insts_ranked, of 0 n 0 ?s]
      recursiveloop_result [OF regex_insts_wf regex_insts_ranked, of 0 n 0 ?s] by (simp add: regex_insts_nth(1))
  finally show ?thesis using False by (simp only: main_answers if_False)
next
  case True
  then show ?thesis using run_threads_gives_up [of n k 25 "[]"] by (simp add: backtrackingvm_def)
qed

subsection \<open>Type safety\<close>

text \<open>A run that goes on for ever or ends with one of the given values, never with a fault.\<close>

definition ends_in :: "'a set \<Rightarrow> 'a run \<Rightarrow> bool" where
  "ends_in A r \<longleftrightarrow> (\<forall>z. r = Some z \<longrightarrow> z \<in> Inr ` A)"

lemma ends_in_simps [simp]:
  "ends_in A None" "ends_in A (ret x) \<longleftrightarrow> x \<in> A" "\<not> ends_in A (stuck e)"
  by (auto simp: ends_in_def ret_def stuck_def)

lemma ends_in_seq: "ends_in B r \<Longrightarrow> (\<And>x. x \<in> B \<Longrightarrow> ends_in A (k x)) \<Longrightarrow> ends_in A (seq r k)"
  by (cases r) (auto simp: ends_in_def seq_def)

lemma ends_inI: "(\<And>z. r = Some z \<Longrightarrow> z \<in> Inr ` A) \<Longrightarrow> ends_in A r"
  by (simp add: ends_in_def)

lemma peek_ret: "sp \<le> length s \<Longrightarrow> peek s sp = ret (if sp < length s then s ! sp else 0)"
  by (simp add: peek_def)

lemma recursive_typed:
  assumes wf: "wf_prog prog" "pc < length prog" and sp: "sp \<le> length s"
  shows "ends_in {0, 1} (recursive prog s pc sp)"
proof (rule ends_inI)
  fix z assume "recursive prog s pc sp = Some z"
  then have "wf_prog prog \<longrightarrow> pc < length prog \<longrightarrow> sp \<le> length s \<longrightarrow> z \<in> Inr ` {0, 1}"
  proof (rule recursive.raw_induct [where
        P = "\<lambda>prog s pc sp z. wf_prog prog \<longrightarrow> pc < length prog \<longrightarrow> sp \<le> length s \<longrightarrow> z \<in> Inr ` {0, 1}", rotated],
      intro impI)
    fix self prog s pc sp and z :: "fault + int"
    assume IH: "\<And>prog s pc sp z. self prog s pc sp = Some z \<Longrightarrow>
        wf_prog prog \<longrightarrow> pc < length prog \<longrightarrow> sp \<le> length s \<longrightarrow> z \<in> Inr ` {0, 1}"
      and at: "wf_prog prog" "pc < length prog" "sp \<le> length s"
      and body: "seq (fetch prog pc) (\<lambda>i.
         case opcode i of
           Char_Op \<Rightarrow> seq (peek s sp) (\<lambda>c. if c \<noteq> ch i then ret 0 else self prog s (pc + 1) (sp + 1))
         | Match_Op \<Rightarrow> ret 1
         | Jmp_Op \<Rightarrow> self prog s (to_x i) sp
         | Split_Op \<Rightarrow> seq (self prog s (to_x i) sp) (\<lambda>r. if r = 1 then ret 1 else self prog s (to_y i) sp)
         | Other_Op \<Rightarrow> ret (-1)) = Some z" (is "?body = _")
    note wf = wf_progD [OF at(1,2)]
    have on: "ends_in {0, 1} (self prog s pc' sp')" if "pc' < length prog" "sp' \<le> length s" for pc' sp'
      by (rule ends_inI) (use IH at(1) that in blast)
    have "ends_in {0, 1} ?body"
      using wf at(3) on
      by (cases "opcode (prog ! pc)") (auto simp: wf_inst_def peek_ret intro!: ends_in_seq [of "{0, 1}"])
    then show "z \<in> Inr ` {0, 1}" using body by (simp add: ends_in_def)
  qed
  then show "z \<in> Inr ` {0, 1}" using assms by blast
qed

lemma recursiveloop_typed:
  assumes wf: "wf_prog prog" "pc < length prog" and sp: "sp \<le> length s"
  shows "ends_in {0, 1} (recursiveloop prog s pc sp)"
proof (rule ends_inI)
  fix z assume "recursiveloop prog s pc sp = Some z"
  then have "wf_prog prog \<longrightarrow> pc < length prog \<longrightarrow> sp \<le> length s \<longrightarrow> z \<in> Inr ` {0, 1}"
  proof (rule recursiveloop.raw_induct [where
        P = "\<lambda>prog s pc sp z. wf_prog prog \<longrightarrow> pc < length prog \<longrightarrow> sp \<le> length s \<longrightarrow> z \<in> Inr ` {0, 1}", rotated],
      intro impI)
    fix self prog s pc sp and z :: "fault + int"
    assume IH: "\<And>prog s pc sp z. self prog s pc sp = Some z \<Longrightarrow>
        wf_prog prog \<longrightarrow> pc < length prog \<longrightarrow> sp \<le> length s \<longrightarrow> z \<in> Inr ` {0, 1}"
      and at: "wf_prog prog" "pc < length prog" "sp \<le> length s"
      and body: "seq (seq (fetch prog pc) (\<lambda>i.
         case opcode i of
           Char_Op \<Rightarrow> seq (peek s sp) (\<lambda>c.
             if c \<noteq> ch i then ret (Return 0) else ret (Continue (pc + 1) (sp + 1)))
         | Match_Op \<Rightarrow> ret (Return 1)
         | Jmp_Op \<Rightarrow> ret (Continue (to_x i) sp)
         | Split_Op \<Rightarrow> seq (self prog s (to_x i) sp) (\<lambda>r.
             if r = 1 then ret (Return 1) else ret (Continue (to_y i) sp))
         | Other_Op \<Rightarrow> ret (Return (-1))))
       (\<lambda>t. case t of Return r \<Rightarrow> ret r | Continue pc sp \<Rightarrow> self prog s pc sp) = Some z" (is "seq ?turn ?on = _")
    note wf = wf_progD [OF at(1,2)]
    let ?good = "{Return 0, Return 1} \<union> {Continue p q |p q. p < length prog \<and> q \<le> length s}"
    have on: "ends_in {0, 1} (self prog s pc' sp')" if "pc' < length prog" "sp' \<le> length s" for pc' sp'
      by (rule ends_inI) (use IH at(1) that in blast)
    have "ends_in ?good ?turn"
      using wf at(3) on
      by (cases "opcode (prog ! pc)") (auto simp: wf_inst_def peek_ret intro!: ends_in_seq [of "{0, 1}"])
    then have "ends_in {0, 1} (seq ?turn ?on)" by (rule ends_in_seq) (auto intro: on)
    then show "z \<in> Inr ` {0, 1}" using body by (simp add: ends_in_def)
  qed
  then show "z \<in> Inr ` {0, 1}" using assms by blast
qed

lemma run_threads_typed:
  assumes wf: "wf_prog prog" "pc < length prog" and sp: "sp \<le> length s"
    and ready: "\<forall>(p, q) \<in> set ready. p < length prog \<and> q \<le> length s"
  shows "ends_in {-1, 0, 1} (run_threads prog s pc sp ready)"
proof (rule ends_inI)
  fix z assume "run_threads prog s pc sp ready = Some z"
  then have "wf_prog prog \<longrightarrow> pc < length prog \<longrightarrow> sp \<le> length s \<longrightarrow>
      (\<forall>(p, q) \<in> set ready. p < length prog \<and> q \<le> length s) \<longrightarrow> z \<in> Inr ` {-1, 0, 1}"
  proof (rule run_threads.raw_induct [where
        P = "\<lambda>prog s pc sp ready z. wf_prog prog \<longrightarrow> pc < length prog \<longrightarrow> sp \<le> length s \<longrightarrow>
          (\<forall>(p, q) \<in> set ready. p < length prog \<and> q \<le> length s) \<longrightarrow> z \<in> Inr ` {-1, 0, 1}", rotated],
      intro impI)
    fix self prog s pc sp ready and z :: "fault + int"
    assume IH: "\<And>prog s pc sp ready z. self prog s pc sp ready = Some z \<Longrightarrow>
        wf_prog prog \<longrightarrow> pc < length prog \<longrightarrow> sp \<le> length s \<longrightarrow>
        (\<forall>(p, q) \<in> set ready. p < length prog \<and> q \<le> length s) \<longrightarrow> z \<in> Inr ` {-1, 0, 1}"
      and at: "wf_prog prog" "pc < length prog" "sp \<le> length s"
      and ready: "\<forall>(p, q) \<in> set ready. p < length prog \<and> q \<le> length s"
      and body: "seq (fetch prog pc) (\<lambda>i.
         case opcode i of
           Char_Op \<Rightarrow> seq (peek s sp) (\<lambda>c.
             if c \<noteq> ch i then
               (case ready of [] \<Rightarrow> ret 0 | t # ready \<Rightarrow> self prog s (fst t) (snd t) ready)
             else self prog s (pc + 1) (sp + 1) ready)
         | Match_Op \<Rightarrow> ret 1
         | Jmp_Op \<Rightarrow> self prog s (to_x i) sp ready
         | Split_Op \<Rightarrow>
             if length ready \<ge> MAXTHREAD then ret (-1)
             else self prog s (to_x i) sp ((to_y i, sp) # ready)
         | Other_Op \<Rightarrow> self prog s pc sp ready) = Some z" (is "?body = _")
    note wf = wf_progD [OF at(1,2)]
    have on: "ends_in {-1, 0, 1} (self prog s pc' sp' ready')"
      if "pc' < length prog" "sp' \<le> length s" "\<forall>(p, q) \<in> set ready'. p < length prog \<and> q \<le> length s" for pc' sp' ready'
      by (rule ends_inI) (use IH at(1) that in blast)
    have "ends_in {-1, 0, 1} ?body"
      using wf at(3) on ready
      by (cases "opcode (prog ! pc)"; cases ready) (auto simp: wf_inst_def peek_ret)
    then show "z \<in> Inr ` {-1, 0, 1}" using body by (simp add: ends_in_def)
  qed
  then show "z \<in> Inr ` {-1, 0, 1}" using assms by blast
qed

lemma backtrackingvm_typed: "wf_prog prog \<Longrightarrow> ends_in {-1, 0, 1} (backtrackingvm prog s)"
  unfolding backtrackingvm_def by (rule run_threads_typed) (auto simp: wf_prog_def)

subsection \<open>Properties\<close>

text \<open>C12: on a well-formed program without a loop of jumps both recursive matchers return, never leave the
  program or the subject, and answer 1 exactly when the nondeterministic machine can reach \<open>Match\<close>.\<close>

theorem recursive_matchers_correct:
  assumes "wf_prog prog" and "ranked prog rank" and "pc < length prog" and "sp \<le> length s"
  shows "recursive prog s pc sp = ret (answer (match_from prog s (pc, sp))) \<and>
    recursiveloop prog s pc sp = ret (answer (match_from prog s (pc, sp)))"
  using recursive_result [OF assms] recursiveloop_result [OF assms] by blast

theorem recursive_matchers_correct_witness:
  "recursive (regex_insts 2) [97, 97] 0 0 = ret (answer (match_from (regex_insts 2) [97, 97] (0, 0)))"
  using recursive_matchers_correct [OF regex_insts_wf regex_insts_ranked, of 0 2 0 "[97, 97]"]
  by (simp add: regex_insts_nth(1))

text \<open>C26: the machine with an explicit stack of threads returns and gives the recursive matcher's answer, unless
  more than \<open>MAXTHREAD\<close> threads wait at once and it gives up with -1; on a program that never goes back and
  has at most \<open>MAXTHREAD\<close> splits it never gives up.\<close>

theorem backtrackingvm_correct:
  assumes "wf_prog prog" and "ranked prog rank"
  shows "(backtrackingvm prog s = ret (-1) \<or> backtrackingvm prog s = recursive prog s 0 0) \<and>
    (straight prog rank \<and> card {pc. pc < length prog \<and> opcode (prog ! pc) = Split_Op} \<le> MAXTHREAD \<longrightarrow>
       backtrackingvm prog s = recursive prog s 0 0)"
proof -
  have "0 < length prog" using assms(1) by (simp add: wf_prog_def)
  then show ?thesis
    using run_threads_result [OF assms, of 0 0 s "[]"] recursive_result [OF assms, of 0 0 s]
      backtrackingvm_enough [OF assms(1), of rank s]
    by (auto simp: backtrackingvm_def next_thread_def answer_def)
qed

theorem backtrackingvm_correct_witness:
  "backtrackingvm (regex_insts 3) [97] = recursive (regex_insts 3) [97] 0 0"
  using backtrackingvm_correct [OF regex_insts_wf regex_insts_ranked, of 3 "[97]"]
    regex_insts_straight [of 3] regex_insts_splits [of 3] by (simp add: MAXTHREAD_def)

text \<open>C27: on the pattern \<open>a?^n a^n\<close> and \<open>k\<close> times \<open>a\<close> the backtracking machine with its 25 threads gives up exactly when
  there are more than 25 optional characters and at least 25 characters to match them; otherwise it answers whether
  \<open>n \<le> k\<close>.\<close>

theorem thread_limit:
  "backtrackingvm (regex_insts n) (replicate k 97) = ret (if 25 < n \<and> 25 \<le> k then -1 else answer (n \<le> k))"
  by (rule main_backtracking)

text \<open>C13: well-formed programs are type-safe: whatever the subject, and loops of jumps included, no matcher follows a
  pointer out of the program or reads behind the NUL of the subject, or comes to an unknown instruction.  The two
  recursive ones answer 0 or 1 or go on for ever (in C: until the stack is full), the one with the explicit stack may also give up with -1, and
  Thompson's always answers 0 or 1.  The program of \<open>main\<close> is well-formed.\<close>

theorem regex_vm_type_safe:
  assumes "wf_prog prog"
  shows "ends_in {0, 1} (recursive prog s 0 0) \<and> ends_in {0, 1} (recursiveloop prog s 0 0) \<and>
    ends_in {-1, 0, 1} (backtrackingvm prog s) \<and> (\<exists>r \<in> {0, 1}. thompsonvm prog s = ret r) \<and>
    wf_prog (regex_insts n)"
proof -
  have "0 < length prog" using assms by (simp add: wf_prog_def)
  then show ?thesis
    using recursive_typed [OF assms] recursiveloop_typed [OF assms] backtrackingvm_typed [OF assms]
      thompsonvm_result [OF assms] regex_insts_wf
    by (simp add: answer_def)
qed

text \<open>In the example the first branch of a split leads back to it.\<close>

theorem regex_vm_type_safe_witness:
  "ends_in {0, 1} (recursive [\<lparr>opcode = Split_Op, ch = 0, to_x = 0, to_y = 1\<rparr>,
     \<lparr>opcode = Match_Op, ch = 0, to_x = 0, to_y = 0\<rparr>] [97] 0 0)"
  using regex_vm_type_safe [of "[\<lparr>opcode = Split_Op, ch = 0, to_x = 0, to_y = 1\<rparr>,
     \<lparr>opcode = Match_Op, ch = 0, to_x = 0, to_y = 0\<rparr>]" "[97]" 0]
  by (auto simp: wf_prog_def wf_inst_def less_Suc_eq)

text \<open>C5: Thompson's simulation returns on every well-formed program, loops of jumps included, with its lists
  of threads free of duplicates; but it answers 1 exactly when the machine reaches \<open>Match\<close> before the
  last character has been read.\<close>

theorem thompsonvm_correct:
  assumes "wf_prog prog"
  shows "thompsonvm prog s = ret (answer
    (\<exists>pc sp. sp < length s \<and> vm_steps prog s (0, 0) (pc, sp) \<and> opcode (prog ! pc) = Match_Op))"
  by (rule thompsonvm_result [OF assms])

theorem thompsonvm_correct_witness:
  "thompsonvm [\<lparr>opcode = Jmp_Op, ch = 0, to_x = 0, to_y = 0\<rparr>] [97] = ret (answer
    (\<exists>pc sp. sp < length [97 :: int] \<and> vm_steps [\<lparr>opcode = Jmp_Op, ch = 0, to_x = 0, to_y = 0\<rparr>] [97] (0, 0) (pc, sp) \<and>
       opcode ([\<lparr>opcode = Jmp_Op, ch = 0, to_x = 0, to_y = 0\<rparr>] ! pc) = Match_Op))"
  by (rule thompsonvm_correct) (simp add: wf_prog_def wf_inst_def)

text \<open>C40: on its own example, the pattern \<open>a?^n a^n\<close> and \<open>k\<close> times the character \<open>a\<close>, the program answers that
  the backtracking matcher matches from \<open>k = n\<close> on and Thompson's only from \<open>k = n + 1\<close> on: on \<open>a^n\<close> they disagree.\<close>

theorem main_program_disagrees:
  "regex_main atoi argv (replicate k 97) =
     (if length argv = 3 \<and> 0 < atoi (argv ! 1)
      then ret (Some (atoi (argv ! 1) < int k, atoi (argv ! 1) \<le> int k)) else ret None)"
  by (auto simp: regex_main_def main_answers Let_def)

end
