(* ===== verification/Ipip.thy ===== *)
theory Ipip
  imports Posix Netfilter
begin

text \<open>
  The IP-in-IP tunnel \<^verbatim>\<open>ipip/ipip_tcp.c\<close>, at the level of bytes.  An \<open>sk_buff\<close> is its buffer \<open>head\<close>, the
  offset \<open>data\<close> and length \<open>slen\<close> of the packet in it, and the offsets of the network and the transport
  header.  A pointer into the buffer is an offset together with the number of the allocation it points
  into: when the kernel reallocates the buffer, \<open>alloc\<close> changes, and an old pointer may not be followed any
  more.  The kernel's operations that may reallocate or fail are the fields of \<open>skb_ops\<close>.  Fields in network
  order are read and written as their bytes.
\<close>

subsection \<open>Socket buffers\<close>

record skb =
  head :: "u8 list"
  alloc :: nat
  data :: nat
  slen :: nat
  nhdr :: nat
  thdr :: nat
  summed :: bool

type_synonym ptr = "nat \<times> nat"

definition ip_hdr :: "skb \<Rightarrow> ptr" where "ip_hdr s = (alloc s, nhdr s)"
definition tcp_hdr :: "skb \<Rightarrow> ptr" where "tcp_hdr s = (alloc s, thdr s)"

definition at_off :: "ptr \<Rightarrow> nat \<Rightarrow> ptr" where
  "at_off p n = (fst p, snd p + n)"

text \<open>Reading and writing \<open>n\<close> bytes at a pointer.\<close>

definition load :: "skb \<Rightarrow> ptr \<Rightarrow> nat \<Rightarrow> u8 list run" where
  "load s p n =
     (if fst p \<noteq> alloc s then stuck Use_After_Free
      else if snd p + n > length (head s) then stuck Out_Of_Bounds
      else ret (take n (drop (snd p) (head s))))"

definition save :: "skb \<Rightarrow> ptr \<Rightarrow> u8 list \<Rightarrow> skb run" where
  "save s p bs =
     (if fst p \<noteq> alloc s then stuck Use_After_Free
      else if snd p + length bs > length (head s) then stuck Out_Of_Bounds
      else ret (s\<lparr>head := take (snd p) (head s) @ bs @ drop (snd p + length bs) (head s)\<rparr>))"

text \<open>Sixteen bits in network order.\<close>

definition be16 :: "u8 list \<Rightarrow> u16" where
  "be16 b = push_bit 8 (ucast (b ! 0)) OR ucast (b ! 1)"

definition be16_bytes :: "u16 \<Rightarrow> u8 list" where
  "be16_bytes x = [ucast (drop_bit 8 x), ucast x]"

record skb_ops =
  skb_linearize :: "skb \<Rightarrow> skb option"
  pskb_expand_head :: "nat \<Rightarrow> skb \<Rightarrow> skb option"
  iptunnel_handle_offloads :: "skb \<Rightarrow> skb option"
  skb_make_writable :: "nat \<Rightarrow> skb \<Rightarrow> skb option"
  reserved_space :: nat
  ip_fast_csum :: "u8 list \<Rightarrow> u8 \<times> u8"
  tcp_csum :: "u8 list \<Rightarrow> u8 list \<Rightarrow> u8 list \<Rightarrow> u8 \<times> u8"

subsection \<open>Lowering the MSS\<close>

text \<open>
  The loop over the TCP options from \<open>ptr\<close> on: it ends at an MSS option, which it lowers, or when the next
  option would begin behind the TCP header.
\<close>

partial_function (option) mss_loop :: "skb \<Rightarrow> ptr \<Rightarrow> nat \<Rightarrow> u16 \<Rightarrow> ptr \<Rightarrow> skb run" where
  "mss_loop s tcph tcph_len reduce_size p =
     seq (load s p 1) (\<lambda>kind.
       if kind ! 0 = 2 then
         seq (load s (at_off p 2) 2) (\<lambda>b.
           let mss = be16 b - reduce_size in save s (at_off p 2) (be16_bytes mss))
       else seq (if kind ! 0 = 1 then ret 1 else seq (load s (at_off p 1) 1) (\<lambda>b. ret (unat (b ! 0)))) (\<lambda>offset.
         if snd p - snd tcph + offset \<ge> tcph_len then ret s
         else mss_loop s tcph tcph_len reduce_size (at_off p offset)))"

lemmas [loop_eqs] = mss_loop.simps

definition reduce_tcp_mss :: "skb_ops \<Rightarrow> skb \<Rightarrow> u16 \<Rightarrow> skb run" where
  "reduce_tcp_mss ops s reduce_size =
     (let iph = ip_hdr s; tcph = tcp_hdr s in
      seq (load s (at_off tcph 13) 1) (\<lambda>flags.
        if \<not> bit (flags ! 0) 1 then ret s
        else case skb_linearize ops s of
          None \<Rightarrow> ret s
        | Some s \<Rightarrow>
            seq (load s (at_off tcph 12) 1) (\<lambda>doff.
              let tcph_len = 4 * unat (drop_bit 4 (doff ! 0)) in
              seq (mss_loop s tcph tcph_len reduce_size (at_off tcph 20)) (\<lambda>s.
                seq (load s iph 1) (\<lambda>ihl.
                  let tcp_len = unat (of_nat (slen s) - of_nat (4 * unat (take_bit 4 (ihl ! 0))) :: u32) in
                  seq (save s (at_off tcph 16) [0, 0]) (\<lambda>s.
                    seq (load s (at_off iph 12) 8) (\<lambda>addrs.
                      seq (load s (at_off iph 9) 1) (\<lambda>proto.
                        seq (load s tcph tcp_len) (\<lambda>segment.
                          let (c0, c1) = tcp_csum ops addrs proto segment in
                          seq (save s (at_off tcph 16) [c0, c1]) (\<lambda>s.
                            ret (s\<lparr>summed := True\<rparr>)))))))))))"

subsection \<open>The hooks\<close>

definition eth1 :: string where "eth1 = ''eth1''"

text \<open>\<open>skb_push\<close> and \<open>skb_pull\<close>; pushing over the start of the buffer stops the kernel.\<close>

definition skb_push :: "skb \<Rightarrow> nat \<Rightarrow> skb run" where
  "skb_push s n = (if n > data s then stuck Out_Of_Bounds else ret (s\<lparr>data := data s - n, slen := slen s + n\<rparr>))"

definition skb_pull :: "skb \<Rightarrow> nat \<Rightarrow> skb" where
  "skb_pull s n = (if n > slen s then s else s\<lparr>data := data s + n, slen := slen s - n\<rparr>)"

text \<open>The new header: its fields come from the old one through \<open>old_iph\<close>, taken before anything moved.\<close>

definition install_header :: "skb_ops \<Rightarrow> skb \<Rightarrow> ptr \<Rightarrow> u16 \<Rightarrow> skb run" where
  "install_header ops s old_iph original_tot_len =
     (let iph = ip_hdr s in
      seq (load s (at_off old_iph 4) 2) (\<lambda>ident.
        seq (load s (at_off old_iph 6) 2) (\<lambda>frag_off.
          seq (load s (at_off old_iph 1) 1) (\<lambda>tos.
            seq (load s (at_off old_iph 16) 4) (\<lambda>daddr.
              seq (load s (at_off old_iph 12) 4) (\<lambda>saddr.
                seq (load s (at_off old_iph 8) 1) (\<lambda>ttl.
                  let before = [0x45] @ tos @ be16_bytes (original_tot_len + 20) @ ident @ frag_off @ ttl @ [4];
                      (c0, c1) = ip_fast_csum ops (before @ [0, 0] @ saddr @ daddr)
                  in save s iph (before @ [c0, c1] @ saddr @ daddr))))))))"

text \<open>
  The second half of the outgoing hook: room is made in front of the packet and the header put there.  The result of
  \<open>iptunnel_handle_offloads\<close> is not checked; when it fails, an error pointer is followed as if it were a packet.
\<close>

definition push_down :: "skb_ops \<Rightarrow> ptr \<Rightarrow> skb \<Rightarrow> (verdict \<times> skb) run" where
  "push_down ops old_iph s =
     seq (load s (at_off old_iph 2) 2) (\<lambda>tot.
       let original_tot_len = be16 tot; max_headroom = 20 + reserved_space ops in
       case (if data s < max_headroom then pskb_expand_head ops (max_headroom - data s) s else Some s) of
         None \<Rightarrow> ret (NF_DROP, s)
       | Some s \<Rightarrow>
           (case iptunnel_handle_offloads ops s of
              None \<Rightarrow> stuck Null_Deref
            | Some s \<Rightarrow>
                seq (skb_push s 20) (\<lambda>s.
                  let s = s\<lparr>nhdr := data s\<rparr> in
                  case skb_make_writable ops 20 s of
                    None \<Rightarrow> ret (NF_DROP, s)
                  | Some s \<Rightarrow>
                      seq (install_header ops s old_iph original_tot_len) (\<lambda>s. ret (NF_ACCEPT, s)))))"

definition ipip_hook_out :: "skb_ops \<Rightarrow> string \<Rightarrow> skb \<Rightarrow> (verdict \<times> skb) run" where
  "ipip_hook_out ops out s =
     (let old_iph = ip_hdr s in
      if strncmp_differs out eth1 IFNAMSIZ then ret (NF_ACCEPT, s)
      else seq (load s (at_off old_iph 9) 1) (\<lambda>proto.
        if proto ! 0 \<noteq> IPPROTO_TCP then ret (NF_ACCEPT, s)
        else let tcph = tcp_hdr s in
          seq (load s tcph 2) (\<lambda>source. seq (load s (at_off tcph 2) 2) (\<lambda>dest.
            if be16 source \<noteq> 5001 \<and> be16 dest \<noteq> 5001 then ret (NF_ACCEPT, s)
            else seq (load s (at_off tcph 13) 1) (\<lambda>flags.
              seq (if bit (flags ! 0) 1 then reduce_tcp_mss ops s 20 else ret s) (\<lambda>s.
                push_down ops old_iph s))))))"

text \<open>\<open>iph\<close> goes on pointing to the outer header when \<open>skb_pull\<close> and \<open>skb_reset_network_header\<close> have passed it.\<close>

definition ipip_hook_in :: "string \<Rightarrow> skb \<Rightarrow> (verdict \<times> skb) run" where
  "ipip_hook_in inn s =
     (let iph = ip_hdr s in
      if strncmp_differs inn eth1 IFNAMSIZ then ret (NF_ACCEPT, s)
      else seq (load s (at_off iph 9) 1) (\<lambda>proto.
        if proto ! 0 \<noteq> IPPROTO_IPIP then ret (NF_ACCEPT, s)
        else seq (load s iph 1) (\<lambda>ihl.
          let s = skb_pull s (unat (take_bit 4 (ihl ! 0)) * 4);
              s = s\<lparr>nhdr := data s\<rparr>
          in seq (load s iph 1) (\<lambda>ihl.
            ret (NF_ACCEPT, s\<lparr>thdr := nhdr s + unat (take_bit 4 (ihl ! 0)) * 4\<rparr>)))))"

text \<open>Both hooks are registered, and the results of the registrations ignored.\<close>

datatype ipip_hook = Outgoing | Incoming

definition ipip_init :: "(ipip_hook \<Rightarrow> 'w \<Rightarrow> int \<times> 'w) \<Rightarrow> 'w \<Rightarrow> int \<times> 'w" where
  "ipip_init nf_register_hook w =
     (let (_, w) = nf_register_hook Outgoing w; (_, w) = nf_register_hook Incoming w in (0, w))"

definition ipip_exit :: "(ipip_hook \<Rightarrow> 'w \<Rightarrow> 'w) \<Rightarrow> 'w \<Rightarrow> 'w" where
  "ipip_exit nf_unregister_hook w = nf_unregister_hook Incoming (nf_unregister_hook Outgoing w)"

subsection \<open>Reading and writing\<close>

lemma ptr_simps [simp]:
  "ip_hdr s = (alloc s, nhdr s)" "tcp_hdr s = (alloc s, thdr s)" "at_off (a, i) n = (a, i + n)"
  by (simp_all add: ip_hdr_def tcp_hdr_def at_off_def)

lemma load_ret: "a = alloc s \<Longrightarrow> i + n \<le> length (head s) \<Longrightarrow> load s (a, i) n = ret (take n (drop i (head s)))"
  by (simp add: load_def)

lemma load_stale: "fst p \<noteq> alloc s \<Longrightarrow> load s p n = stuck Use_After_Free"
  by (simp add: load_def)

lemma save_ret:
  "a = alloc s \<Longrightarrow> i + length bs \<le> length (head s) \<Longrightarrow>
    save s (a, i) bs = ret (s\<lparr>head := take i (head s) @ bs @ drop (i + length bs) (head s)\<rparr>)"
  by (simp add: save_def)

text \<open>The packet itself, and when its headers lie in it.\<close>

definition packet :: "skb \<Rightarrow> u8 list" where
  "packet s = take (slen s) (drop (data s) (head s))"

definition tcp_packet :: "skb \<Rightarrow> bool" where
  "tcp_packet s \<longleftrightarrow> nhdr s = data s \<and> data s + 20 \<le> thdr s \<and> thdr s + 20 \<le> data s + slen s \<and>
     data s + slen s \<le> length (head s) \<and> packet s ! 9 = IPPROTO_TCP"

definition on_port_5001 :: "skb \<Rightarrow> bool" where
  "on_port_5001 s \<longleftrightarrow> be16 (take 2 (drop (thdr s) (head s))) = 5001 \<or> be16 (take 2 (drop (thdr s + 2) (head s))) = 5001"

definition is_syn :: "skb \<Rightarrow> bool" where
  "is_syn s \<longleftrightarrow> bit (head s ! (thdr s + 13)) 1"

text \<open>The header of the tunnel for a packet with the given header.\<close>

definition tunnel_header :: "skb_ops \<Rightarrow> u8 list \<Rightarrow> u8 list" where
  "tunnel_header ops ih =
     (let before = [0x45, ih ! 1] @ be16_bytes (be16 [ih ! 2, ih ! 3] + 20) @ [ih ! 4, ih ! 5, ih ! 6, ih ! 7, ih ! 8, 4];
          addrs = take 8 (drop 12 ih);
          (c0, c1) = ip_fast_csum ops (before @ [0, 0] @ addrs)
      in before @ [c0, c1] @ addrs)"

text \<open>The kernel leaves the buffer where it is.\<close>

definition in_place :: "skb_ops \<Rightarrow> bool" where
  "in_place ops \<longleftrightarrow> (\<forall>s n. skb_linearize ops s = Some s \<and> iptunnel_handle_offloads ops s = Some s \<and>
     skb_make_writable ops n s = Some s)"

lemma take2: "Suc n < length xs \<Longrightarrow> take 2 (drop n xs) = [xs ! n, xs ! Suc n]"
  by (simp add: numeral_2_eq_2 Cons_nth_drop_Suc [symmetric])

lemma take1: "n < length xs \<Longrightarrow> take (Suc 0) (drop n xs) = [xs ! n]"
  by (simp add: Cons_nth_drop_Suc [symmetric])

lemma length_tunnel_header [simp]: "20 \<le> length ih \<Longrightarrow> length (tunnel_header ops ih) = 20"
  by (simp add: tunnel_header_def Let_def be16_bytes_def split: prod.split)

lemma packet_nth: "i < slen s \<Longrightarrow> data s + slen s \<le> length (head s) \<Longrightarrow> packet s ! i = head s ! (data s + i)"
  by (simp add: packet_def)

lemma install_header_result:
  assumes "a = alloc s" and "nhdr s + 20 = i" and "i + 20 \<le> length (head s)"
    and "tot = be16 [head s ! (i + 2), head s ! (i + 3)]"
  shows "install_header ops s (a, i) tot = ret (s\<lparr>head := take (nhdr s) (head s) @
    tunnel_header ops (take 20 (drop i (head s))) @ drop i (head s)\<rparr>)"
proof -
  have addrs: "take 4 (drop (i + 12) (head s)) @ take 4 (drop (i + 16) (head s)) = take 8 (drop (i + 12) (head s))"
    using take_add [of 4 4 "drop (i + 12) (head s)"] by (simp add: add.commute)
  have ih: "take 20 (drop i (head s)) ! k = head s ! (i + k)" if "k < 20" for k
    using that assms(3) by simp
  have ad: "take 8 (drop 12 (take 20 (drop i (head s)))) = take 8 (drop (i + 12) (head s))"
    by (simp add: drop_take add.commute)
  obtain c0 c1 where c: "ip_fast_csum ops ([0x45, head s ! (i + 1)] @ be16_bytes (tot + 20) @
      [head s ! (i + 4), head s ! (i + 5), head s ! (i + 6), head s ! (i + 7), head s ! (i + 8), 4] @ [0, 0] @
      take 8 (drop (i + 12) (head s))) = (c0, c1)" by fastforce
  have comm: "5 + i = i + 5" "7 + i = i + 7" by simp_all
  show ?thesis
    using assms c [simplified comm] addrs
    by (simp add: install_header_def load_ret take1 take2 Let_def tunnel_header_def ih ad save_ret be16_bytes_def comm)
qed

subsection \<open>Encapsulation and decapsulation\<close>

lemma packet_bounds:
  assumes "tcp_packet s"
  shows "data s + 40 \<le> length (head s)" "thdr s + 20 \<le> length (head s)" "nhdr s = data s" "40 \<le> slen s"
    "head s ! (data s + 9) = IPPROTO_TCP"
  using assms packet_nth [of 9 s] by (auto simp: tcp_packet_def)

text \<open>The packet \<open>t\<close> is \<open>s\<close> in the tunnel.\<close>

definition encapsulates :: "skb_ops \<Rightarrow> skb \<Rightarrow> skb \<Rightarrow> bool" where
  "encapsulates ops s t \<longleftrightarrow> packet t = tunnel_header ops (take 20 (packet s)) @ packet s \<and>
     slen t = slen s + 20 \<and> data t + 20 = data s \<and> nhdr t = data t \<and> alloc t = alloc s \<and>
     length (head t) = length (head s) \<and> drop (data s) (head t) = drop (data s) (head s)"

lemma push_and_install:
  assumes "20 \<le> data s" and "40 \<le> slen s" and "data s + slen s \<le> length (head s)" and "d = data s" "a = alloc s"
    and "tot = be16 [head s ! (data s + 2), head s ! (data s + 3)]"
  shows "\<exists>t. seq (skb_push s 20) (\<lambda>s. install_header ops (s\<lparr>nhdr := data s\<rparr>) (a, d) tot) = ret t \<and>
    encapsulates ops s t"
proof -
  let ?h = "tunnel_header ops (take 20 (drop d (head s)))"
  let ?t = "s\<lparr>data := data s - 20, slen := slen s + 20, nhdr := data s - 20,
    head := take (data s - 20) (head s) @ ?h @ drop d (head s)\<rparr>"
  have "seq (skb_push s 20) (\<lambda>s. install_header ops (s\<lparr>nhdr := data s\<rparr>) (a, d) tot) = ret ?t"
    using assms by (simp add: skb_push_def) (subst install_header_result, auto)
  moreover have "take 20 (packet s) = take 20 (drop d (head s))"
    using assms by (simp add: packet_def min_def)
  then have "encapsulates ops s ?t"
    using assms by (simp add: encapsulates_def packet_def)
  ultimately show ?thesis by blast
qed

text \<open>What the MSS is lowered in keeps its place and its headers.\<close>

definition same_frame :: "skb \<Rightarrow> skb \<Rightarrow> bool" where
  "same_frame s t \<longleftrightarrow> alloc t = alloc s \<and> data t = data s \<and> slen t = slen s \<and> nhdr t = nhdr s \<and> thdr t = thdr s \<and>
     length (head t) = length (head s)"

lemma push_down_encapsulates:
  assumes "in_place ops" and "20 + reserved_space ops \<le> data s" and "40 \<le> slen s" and "data s + slen s \<le> length (head s)"
    and "a = alloc s"
  shows "\<exists>t. push_down ops (a, data s) s = ret (NF_ACCEPT, t) \<and> encapsulates ops s t"
proof -
  let ?tot = "be16 [head s ! (data s + 2), head s ! (data s + 3)]"
  have tot: "take 2 (drop (data s + 2) (head s)) = [head s ! (data s + 2), head s ! (data s + 3)]"
    using assms(3,4) by (simp add: take2 numeral_3_eq_3)
  have push: "skb_push s 20 = ret (s\<lparr>data := data s - 20, slen := slen s + 20\<rparr>)"
    using assms(2) by (simp add: skb_push_def)
  obtain t where t: "seq (skb_push s 20) (\<lambda>u. install_header ops (u\<lparr>nhdr := data u\<rparr>) (a, data s) ?tot) = ret t"
    "encapsulates ops s t"
    using push_and_install [of s "data s" a ?tot ops] assms(2-5) by auto
  have "push_down ops (a, data s) s = ret (NF_ACCEPT, t)"
    using assms t(1) push by (simp add: push_down_def load_ret tot [simplified] in_place_def)
  then show ?thesis using t(2) by blast
qed

lemma hook_out_selects:
  assumes "\<not> strncmp_differs out eth1 IFNAMSIZ" and "tcp_packet s" and "on_port_5001 s"
  shows "ipip_hook_out ops out s =
    seq (if is_syn s then reduce_tcp_mss ops s 20 else ret s) (push_down ops (alloc s, data s))"
proof -
  note b = packet_bounds [OF assms(2)]
  have port: "(be16 (take 2 (drop (thdr s) (head s))) \<noteq> 5001 \<and> be16 (take 2 (drop (thdr s + 2) (head s))) \<noteq> 5001) = False"
    using assms(3) by (auto simp: on_port_5001_def)
  have syn: "bit (take 1 (drop (thdr s + 13) (head s)) ! 0) 1 = is_syn s"
    using b(2) by (simp add: is_syn_def take1)
  have proto: "take 1 (drop (data s + 9) (head s)) ! 0 = IPPROTO_TCP" using b(1,5) by (simp add: take1)
  have loads: "load s (alloc s, data s + 9) 1 = ret (take 1 (drop (data s + 9) (head s)))"
    "load s (alloc s, thdr s) 2 = ret (take 2 (drop (thdr s) (head s)))"
    "load s (alloc s, thdr s + 2) 2 = ret (take 2 (drop (thdr s + 2) (head s)))"
    "load s (alloc s, thdr s + 13) 1 = ret (take 1 (drop (thdr s + 13) (head s)))"
    using b(1,2) by (simp_all add: load_ret)
  show ?thesis
    using assms(1)
    unfolding ipip_hook_out_def Let_def ptr_simps b(3) loads seq_simps proto port syn
    by simp
qed

lemma hook_out_encapsulates:
  assumes "in_place ops" and "\<not> strncmp_differs out eth1 IFNAMSIZ" and "tcp_packet s" and "on_port_5001 s"
    and "20 + reserved_space ops \<le> data s"
    and "(if is_syn s then reduce_tcp_mss ops s 20 else ret s) = ret s1" and "same_frame s s1"
  shows "\<exists>t. ipip_hook_out ops out s = ret (NF_ACCEPT, t) \<and> encapsulates ops s1 t"
  using push_down_encapsulates [OF assms(1), of s1 "alloc s"] hook_out_selects [OF assms(2-4)] packet_bounds [OF assms(3)] assms(3,5-7)
  by (simp add: same_frame_def tcp_packet_def)

text \<open>The incoming hook takes off the outer header, whatever is inside.\<close>

lemma hook_in_decapsulates:
  assumes "\<not> strncmp_differs inn eth1 IFNAMSIZ" and "nhdr s = data s" and "20 \<le> slen s" and "data s + slen s \<le> length (head s)"
    and "packet s ! 9 = IPPROTO_IPIP" and "ihl = unat (take_bit 4 (packet s ! 0)) * 4" and "ihl \<le> slen s"
  shows "\<exists>t. ipip_hook_in inn s = ret (NF_ACCEPT, t) \<and> packet t = drop ihl (packet s) \<and> slen t = slen s - ihl \<and>
    data t = data s + ihl \<and> nhdr t = data t \<and> thdr t = nhdr t + ihl \<and> head t = head s"
proof -
  have "head s ! (data s + 9) = IPPROTO_IPIP" "head s ! data s = packet s ! 0"
    using assms(3,4,5) packet_nth [of 9 s] packet_nth [of 0 s] by auto
  then show ?thesis
    using assms by (simp add: ipip_hook_in_def load_ret take1 skb_pull_def Let_def packet_def drop_take add.commute)
qed

lemma tunnel_round_trip:
  assumes "encapsulates ops s t" and "40 \<le> slen s" and "data s + slen s \<le> length (head s)"
    and "\<not> strncmp_differs inn eth1 IFNAMSIZ"
  shows "\<exists>u. ipip_hook_in inn t = ret (NF_ACCEPT, u) \<and> packet u = packet s \<and> slen u = slen s \<and>
    data u = data s \<and> nhdr u = data u \<and> thdr u = nhdr u + 20"
proof -
  let ?h = "tunnel_header ops (take 20 (packet s))"
  have len: "length (packet s) = slen s" using assms(3) by (simp add: packet_def)
  then have h: "length ?h = 20" using assms(2) by simp
  have "?h ! 0 = 0x45" "?h ! 9 = 4"
    by (simp_all add: tunnel_header_def Let_def be16_bytes_def split: prod.split)
  then have t: "packet t ! 0 = 0x45" "packet t ! 9 = 4"
    using assms(1) h by (simp_all add: encapsulates_def nth_append)
  have e: "nhdr t = data t" "20 \<le> slen t" "data t + slen t \<le> length (head t)" "20 \<le> slen t"
    using assms(1,3) unfolding encapsulates_def by linarith+
  have "packet t ! 9 = IPPROTO_IPIP" "20 = unat (take_bit 4 (packet t ! 0)) * 4"
    by (simp_all add: t IPPROTO_IPIP_def)
  from hook_in_decapsulates [OF assms(4) e(1-3) this e(4)] obtain u where
    u: "ipip_hook_in inn t = ret (NF_ACCEPT, u)" "packet u = drop 20 (packet t)" "slen u = slen t - 20"
      "data u = data t + 20" "nhdr u = data u" "thdr u = nhdr u + 20" by blast
  have "packet u = packet s" using u(2) assms(1) h by (simp add: encapsulates_def)
  moreover have "slen u = slen s" "data u = data s" using u(3,4) assms(1) by (simp_all add: encapsulates_def)
  ultimately show ?thesis using u by blast
qed

subsection \<open>The options of a SYN\<close>

text \<open>Options as they are laid out: a no-operation, or a kind, the length of the whole, and the body.\<close>

datatype tcp_option = Nop | Option u8 "u8 list"

fun option_bytes :: "tcp_option \<Rightarrow> u8 list" where
  "option_bytes Nop = [1]"
| "option_bytes (Option k body) = [k, of_nat (length body + 2)] @ body"

fun other_option :: "tcp_option \<Rightarrow> bool" where
  "other_option Nop = True"
| "other_option (Option k body) = (k \<noteq> 1 \<and> k \<noteq> 2 \<and> length body + 2 < 256)"

definition options_bytes :: "tcp_option list \<Rightarrow> u8 list" where
  "options_bytes os = concat (map option_bytes os)"

lemma options_bytes_simps [simp]:
  "options_bytes [] = []" "options_bytes (x # os) = option_bytes x @ options_bytes os"
  by (simp_all add: options_bytes_def)

text \<open>The bytes from \<open>i\<close> on begin with \<open>bs\<close>.\<close>

definition bytes_at :: "skb \<Rightarrow> nat \<Rightarrow> u8 list \<Rightarrow> bool" where
  "bytes_at s i bs \<longleftrightarrow> i + length bs \<le> length (head s) \<and> take (length bs) (drop i (head s)) = bs"

lemma bytes_at_append: "bytes_at s i (xs @ ys) \<longleftrightarrow> bytes_at s i xs \<and> bytes_at s (i + length xs) ys"
  unfolding bytes_at_def by (auto simp: take_add drop_drop add.commute append_eq_append_conv)

lemma bytes_at_load: "bytes_at s i bs \<Longrightarrow> a = alloc s \<Longrightarrow> n = length bs \<Longrightarrow> load s (a, i) n = ret bs"
  by (simp add: bytes_at_def load_ret)

text \<open>One option that is not an MSS option is passed over.\<close>

lemma mss_loop_passes:
  assumes "other_option x" and "bytes_at s i (option_bytes x)"
  shows "mss_loop s (alloc s, tp) tcph_len reduce (alloc s, i) =
    (if tcph_len \<le> i - tp + length (option_bytes x) then ret s
     else mss_loop s (alloc s, tp) tcph_len reduce (alloc s, i + length (option_bytes x)))"
proof (cases x)
  case Nop
  then have "load s (alloc s, i) 1 = ret [1]" using assms(2) by (intro bytes_at_load) auto
  then show ?thesis using Nop by (subst mss_loop.simps) simp
next
  case (Option k body)
  define l where "l = (of_nat (length body + 2) :: u8)"
  have l: "unat l = length (option_bytes x)"
    using assms(1) Option unfolding l_def by (simp add: unat_of_nat del: of_nat_add of_nat_Suc)
  have k: "k \<noteq> 1" "k \<noteq> 2" using assms(1) Option by simp_all
  have "bytes_at s i ([k] @ [l] @ body)" using assms(2) Option by (simp add: l_def)
  then have loads: "load s (alloc s, i) 1 = ret [k]" "load s (alloc s, i + 1) 1 = ret [l]"
    unfolding bytes_at_append by (auto intro!: bytes_at_load)
  show ?thesis unfolding mss_loop.simps [of s _ _ _ "(alloc s, i)"] ptr_simps loads seq_simps
    by (simp add: k l)
qed

lemma be16_be16_bytes [simp]: "be16 (be16_bytes m) = m"
  unfolding be16_def be16_bytes_def by (rule bit_eqI) (auto simp: bit_simps)

lemma mss_loop_lowers:
  assumes "\<forall>x \<in> set os. other_option x" and "bytes_at s i (options_bytes os @ [2, 4] @ be16_bytes m)"
    and "tp \<le> i" and "i - tp + length (options_bytes os) < tcph_len"
  shows "mss_loop s (alloc s, tp) tcph_len reduce (alloc s, i) =
    save s (alloc s, i + length (options_bytes os) + 2) (be16_bytes (m - reduce))"
  using assms
proof (induction os arbitrary: i)
  case Nil
  then have "bytes_at s i ([2] @ [4] @ be16_bytes m)" by simp
  then have "load s (alloc s, i) 1 = ret [2]" "load s (alloc s, i + 2) 2 = ret (be16_bytes m)"
    unfolding bytes_at_append by (auto intro!: bytes_at_load simp: be16_bytes_def)
  then show ?case by (subst mss_loop.simps) simp
next
  case (Cons x os)
  let ?n = "length (option_bytes x)"
  have at: "bytes_at s i (option_bytes x)" "bytes_at s (i + ?n) (options_bytes os @ [2, 4] @ be16_bytes m)"
    using Cons.prems(2) by (simp_all add: bytes_at_append add.assoc)
  have "\<not> tcph_len \<le> i - tp + ?n" using Cons.prems(4) by simp
  then have "mss_loop s (alloc s, tp) tcph_len reduce (alloc s, i) =
      mss_loop s (alloc s, tp) tcph_len reduce (alloc s, i + ?n)"
    using mss_loop_passes [OF _ at(1), of tp tcph_len reduce] Cons.prems(1) by simp
  also have "\<dots> = save s (alloc s, i + ?n + length (options_bytes os) + 2) (be16_bytes (m - reduce))"
    using Cons.prems by (intro Cons.IH at(2)) auto
  finally show ?case by (simp add: add.assoc)
qed

lemma mss_loop_no_mss:
  assumes "\<forall>x \<in> set os. other_option x" and "os \<noteq> []" and "bytes_at s i (options_bytes os)"
    and "tp \<le> i" and "i - tp + length (options_bytes os) = tcph_len"
  shows "mss_loop s (alloc s, tp) tcph_len reduce (alloc s, i) = ret s"
  using assms
proof (induction os arbitrary: i)
  case Nil
  then show ?case by simp
next
  case (Cons x os)
  let ?n = "length (option_bytes x)"
  have at: "bytes_at s i (option_bytes x)" "bytes_at s (i + ?n) (options_bytes os)"
    using Cons.prems(3) by (simp_all add: bytes_at_append)
  have pos: "0 < length (option_bytes y)" for y by (cases y) auto
  show ?case
  proof (cases "os = []")
    case True
    then show ?thesis using mss_loop_passes [OF _ at(1), of tp tcph_len reduce] Cons.prems by simp
  next
    case False
    then obtain y ys where "os = y # ys" by (cases os) auto
    then have "\<not> tcph_len \<le> i - tp + ?n" using Cons.prems(5) pos [of y] by (simp del: length_greater_0_conv)
    then have "mss_loop s (alloc s, tp) tcph_len reduce (alloc s, i) =
        mss_loop s (alloc s, tp) tcph_len reduce (alloc s, i + ?n)"
      using mss_loop_passes [OF _ at(1), of tp tcph_len reduce] Cons.prems(1) by simp
    also have "\<dots> = ret s"
      using Cons.prems by (intro Cons.IH at(2) False) auto
    finally show ?thesis .
  qed
qed

text \<open>An option of length zero is never left.\<close>

lemma zero_option_diverges:
  assumes "bytes_at s i [k, 0]" and "k \<noteq> 1" "k \<noteq> 2" and "i - snd tcph < tcph_len"
  shows "mss_loop s tcph tcph_len reduce (alloc s, i) = None"
proof (rule ccontr)
  assume "mss_loop s tcph tcph_len reduce (alloc s, i) \<noteq> None"
  then obtain z where "mss_loop s tcph tcph_len reduce (alloc s, i) = Some z" by blast
  then have "bytes_at s i [k, 0] \<longrightarrow> i - snd tcph < tcph_len \<longrightarrow> (alloc s, i) = (alloc s, i) \<longrightarrow> False"
  proof (rule mss_loop.raw_induct [where
        P = "\<lambda>s tcph tcph_len reduce p z. bytes_at s i [k, 0] \<longrightarrow> i - snd tcph < tcph_len \<longrightarrow>
          p = (alloc s, i) \<longrightarrow> False", rotated], intro impI)
    fix self s tcph tcph_len reduce p z
    assume IH: "\<And>s tcph tcph_len reduce p z. self s tcph tcph_len reduce p = Some z \<Longrightarrow>
        bytes_at s i [k, 0] \<longrightarrow> i - snd tcph < tcph_len \<longrightarrow> p = (alloc s, i) \<longrightarrow> False"
      and at: "bytes_at s i [k, 0]" and len: "i - snd tcph < tcph_len" and p: "p = (alloc s, i)"
      and body: "seq (load s p 1) (\<lambda>kind.
       if kind ! 0 = 2 then
         seq (load s (at_off p 2) 2) (\<lambda>b.
           let mss = be16 b - reduce in save s (at_off p 2) (be16_bytes mss))
       else seq (if kind ! 0 = 1 then ret 1 else seq (load s (at_off p 1) 1) (\<lambda>b. ret (unat (b ! 0)))) (\<lambda>offset.
         if snd p - snd tcph + offset \<ge> tcph_len then ret s
         else self s tcph tcph_len reduce (at_off p offset))) = Some z"
    have "bytes_at s i ([k] @ [0])" using at by simp
    then have "load s (alloc s, i) 1 = ret [k]" "load s (alloc s, i + 1) 1 = ret [0]"
      unfolding bytes_at_append by (auto intro!: bytes_at_load)
    with body have "self s tcph tcph_len reduce (alloc s, i) = Some z" using assms(2,3) len p by simp
    from IH [OF this] show False using at len by blast
  qed
  then show False using assms by blast
qed

lemma save_same_frame: "save s p bs = ret t \<Longrightarrow> same_frame s t"
  by (auto simp: save_def same_frame_def split: if_splits)

lemma same_frame_trans: "same_frame s t \<Longrightarrow> same_frame t u \<Longrightarrow> same_frame s u"
  by (simp add: same_frame_def)

lemma mss_loop_same_frame:
  assumes "mss_loop s tcph tcph_len reduce p = ret t"
  shows "same_frame s t"
proof -
  have "\<forall>t. z = Inr t \<longrightarrow> same_frame s t" if "mss_loop s tcph tcph_len reduce p = Some z" for z
    using that
  proof (rule mss_loop.raw_induct [where P = "\<lambda>s tcph tcph_len reduce p z. \<forall>t. z = Inr t \<longrightarrow> same_frame s t", rotated],
      intro allI impI)
    fix self s tcph tcph_len reduce p z t
    assume IH: "\<And>s tcph tcph_len reduce p z. self s tcph tcph_len reduce p = Some z \<Longrightarrow>
        \<forall>t. z = Inr t \<longrightarrow> same_frame s t"
      and body: "seq (load s p 1) (\<lambda>kind.
       if kind ! 0 = 2 then
         seq (load s (at_off p 2) 2) (\<lambda>b.
           let mss = be16 b - reduce in save s (at_off p 2) (be16_bytes mss))
       else seq (if kind ! 0 = 1 then ret 1 else seq (load s (at_off p 1) 1) (\<lambda>b. ret (unat (b ! 0)))) (\<lambda>offset.
         if snd p - snd tcph + offset \<ge> tcph_len then ret s
         else self s tcph tcph_len reduce (at_off p offset))) = Some z" and z: "z = Inr t"
    have "seq (load s p 1) (\<lambda>kind.
       if kind ! 0 = 2 then
         seq (load s (at_off p 2) 2) (\<lambda>b.
           let mss = be16 b - reduce in save s (at_off p 2) (be16_bytes mss))
       else seq (if kind ! 0 = 1 then ret 1 else seq (load s (at_off p 1) 1) (\<lambda>b. ret (unat (b ! 0)))) (\<lambda>offset.
         if snd p - snd tcph + offset \<ge> tcph_len then ret s
         else self s tcph tcph_len reduce (at_off p offset))) = ret t" using body z by (simp add: ret_def)
    then have "s = t \<or> (\<exists>q bs. save s q bs = ret t) \<or>
        (\<exists>offset. self s tcph tcph_len reduce (at_off p offset) = ret t)"
      unfolding seq_ret_iff by (fastforce simp: seq_ret_iff Let_def split: if_splits)
    then consider "s = t" | q bs where "save s q bs = ret t" | offset where "self s tcph tcph_len reduce (at_off p offset) = ret t"
      by blast
    then show "same_frame s t"
    proof cases
      case 1
      then show ?thesis by (simp add: same_frame_def)
    next
      case 2
      then show ?thesis by (rule save_same_frame)
    next
      case 3
      then show ?thesis using IH by (simp add: ret_def)
    qed
  qed
  then show ?thesis using assms by (simp add: ret_def)
qed

lemma reduce_same_frame:
  assumes "reduce_tcp_mss ops s reduce = ret t" and "in_place ops"
  shows "same_frame s t"
proof -
  have refl: "same_frame s s" by (simp add: same_frame_def)
  show ?thesis
    using assms refl
    by (auto simp: reduce_tcp_mss_def Let_def seq_ret_iff in_place_def split_beta split: if_splits
        dest!: save_same_frame mss_loop_same_frame) (simp add: same_frame_def)
qed

subsection \<open>The MSS of a SYN\<close>

lemma unat_of_nat_diff:
  assumes "a < 2 ^ 32" and "b \<le> a"
  shows "unat (of_nat a - of_nat b :: u32) = a - b"
proof -
  have "(of_nat a - of_nat b :: u32) = of_nat (a - b)" using assms(2) by (simp add: of_nat_diff)
  then show ?thesis using assms by (simp add: unat_of_nat del: of_nat_diff)
qed

lemma save_two:
  assumes "a = alloc s" and "i + 1 < length (head s)"
  shows "save s (a, i) [x, y] = ret (s\<lparr>head := (head s)[i := x, i + 1 := y]\<rparr>)"
proof -
  have "take i (head s) @ [x, y] @ drop (i + 2) (head s) = (head s)[i := x, i + 1 := y]"
    using assms(2) Cons_nth_drop_Suc [of "Suc i" "head s", symmetric]
    by (simp add: upd_conv_take_nth_drop [of i] list_update_append)
  then show ?thesis using assms by (simp add: save_ret)
qed

text \<open>
  The SYN with the MSS at offset \<open>j\<close> of the buffer replaced, and the checksum computed again over the new
  segment, its own field taken as zero.
\<close>

definition with_mss :: "skb_ops \<Rightarrow> skb \<Rightarrow> nat \<Rightarrow> u16 \<Rightarrow> skb" where
  "with_mss ops s j m =
     (let h = (head s)[j := ucast (drop_bit 8 m), j + 1 := ucast m, thdr s + 16 := 0, thdr s + 17 := 0];
          segment = take (data s + slen s - thdr s) (drop (thdr s) h);
          (c0, c1) = tcp_csum ops (take 8 (drop (data s + 12) h)) [IPPROTO_TCP] segment
      in s\<lparr>head := h[thdr s + 16 := c0, thdr s + 17 := c1], summed := True\<rparr>)"

lemma reduce_lowers:
  assumes "in_place ops" and "tcp_packet s" and "is_syn s" and "slen s < 2 ^ 32"
    and "unat (take_bit 4 (packet s ! 0)) * 4 = thdr s - data s"
    and "\<forall>x \<in> set os. other_option x" and "bytes_at s (thdr s + 20) (options_bytes os @ [2, 4] @ be16_bytes m)"
    and "20 + length (options_bytes os) < 4 * unat (drop_bit 4 (head s ! (thdr s + 12)))"
    and "thdr s + 24 + length (options_bytes os) \<le> data s + slen s"
  shows "reduce_tcp_mss ops s reduce = ret (with_mss ops s (thdr s + 22 + length (options_bytes os)) (m - reduce))"
proof -
  note b = packet_bounds [OF assms(2)]
  have th: "data s + 20 \<le> thdr s" "data s + slen s \<le> length (head s)" using assms(2) by (simp_all add: tcp_packet_def)
  define j where "j = thdr s + 22 + length (options_bytes os)"
  let ?h1 = "(head s)[j := ucast (drop_bit 8 (m - reduce)), j + 1 := ucast (m - reduce)]"
  let ?h2 = "?h1[thdr s + 16 := 0, thdr s + 17 := 0]"
  have j: "j + 1 < data s + slen s" "thdr s + 22 \<le> j" using assms(9) by (simp_all add: j_def)
  have flags: "load s (alloc s, thdr s + 13) 1 = ret [head s ! (thdr s + 13)]"
    and doff: "load s (alloc s, thdr s + 12) 1 = ret [head s ! (thdr s + 12)]"
    using b(2) by (simp_all add: load_ret take1)
  have loop: "mss_loop s (alloc s, thdr s) (4 * unat (drop_bit 4 (head s ! (thdr s + 12)))) reduce (alloc s, thdr s + 20)
      = ret (s\<lparr>head := ?h1\<rparr>)"
    using mss_loop_lowers [OF assms(6,7), of "thdr s" "4 * unat (drop_bit 4 (head s ! (thdr s + 12)))" reduce] assms(8)
      j th save_two [of "alloc s" s j]
    by (simp add: be16_bytes_def j_def add.assoc add.commute add.left_commute)
  have ihl: "load (s\<lparr>head := ?h1\<rparr>) (alloc s, data s) 1 = ret [packet s ! 0]"
    using b th j packet_nth [of 0 s] by (simp add: load_ret take1)
  have "unat (of_nat (slen s) - of_nat (thdr s - data s) :: u32) = slen s - (thdr s - data s)"
    using assms(4,2) by (intro unat_of_nat_diff) (auto simp: tcp_packet_def)
  then have tcp_len: "unat (of_nat (slen s) - of_nat (4 * unat (take_bit 4 (packet s ! 0))) :: u32) = data s + slen s - thdr s"
    using assms(5) th(1) by (simp add: mult.commute)
  have zero: "save (s\<lparr>head := ?h1\<rparr>) (alloc s, thdr s + 16) [0, 0] = ret (s\<lparr>head := ?h2\<rparr>)"
    using save_two [of "alloc s" "s\<lparr>head := ?h1\<rparr>" "thdr s + 16"] b(2) by (simp add: add.commute)
  have proto: "load (s\<lparr>head := ?h2\<rparr>) (alloc s, data s + 9) 1 = ret [IPPROTO_TCP]"
    using b th j by (simp add: load_ret take1)
  have addrs: "load (s\<lparr>head := ?h2\<rparr>) (alloc s, data s + 12) 8 = ret (take 8 (drop (data s + 12) ?h2))"
    using b by (simp add: load_ret)
  have segment: "load (s\<lparr>head := ?h2\<rparr>) (alloc s, thdr s) (data s + slen s - thdr s)
      = ret (take (data s + slen s - thdr s) (drop (thdr s) ?h2))"
    using th b(2) j by (simp add: load_ret)
  obtain c0 c1 where c: "tcp_csum ops (take 8 (drop (data s + 12) ?h2)) [IPPROTO_TCP]
      (take (data s + slen s - thdr s) (drop (thdr s) ?h2)) = (c0, c1)" by fastforce
  have last: "save (s\<lparr>head := ?h2\<rparr>) (alloc s, thdr s + 16) [c0, c1]
      = ret (s\<lparr>head := ?h2[thdr s + 16 := c0, thdr s + 17 := c1]\<rparr>)"
    using save_two [of "alloc s" "s\<lparr>head := ?h2\<rparr>" "thdr s + 16"] b(2) by (simp add: add.commute)
  have syn: "bit ([head s ! (thdr s + 13)] ! 0) 1" using assms(3) by (simp add: is_syn_def)
  have lin: "skb_linearize ops s = Some s" using assms(1) by (simp add: in_place_def)
  have "reduce_tcp_mss ops s reduce = ret (s\<lparr>head := ?h2[thdr s + 16 := c0, thdr s + 17 := c1], summed := True\<rparr>)"
    unfolding reduce_tcp_mss_def Let_def ptr_simps flags seq_simps lin option.case doff
    using syn
    by (simp add: loop [simplified] ihl [simplified] tcp_len [simplified] zero [simplified] proto [simplified]
        addrs [simplified] segment [simplified] c [simplified] last [simplified] b(3))
  then show ?thesis using c by (simp add: with_mss_def j_def)
qed

text \<open>
  A SYN whose options hold, after the options \<open>os\<close>, an MSS option of value \<open>m\<close>; its IP header says where the TCP
  header begins.
\<close>

definition mss_option :: "skb \<Rightarrow> tcp_option list \<Rightarrow> u16 \<Rightarrow> bool" where
  "mss_option s os m \<longleftrightarrow> slen s < 2 ^ 32 \<and> unat (take_bit 4 (packet s ! 0)) * 4 = thdr s - data s \<and>
     list_all other_option os \<and> bytes_at s (thdr s + 20) (options_bytes os @ [2, 4] @ be16_bytes m) \<and>
     20 + length (options_bytes os) < 4 * unat (drop_bit 4 (head s ! (thdr s + 12))) \<and>
     thdr s + 24 + length (options_bytes os) \<le> data s + slen s"

text \<open>What the tunnel carries: the packet itself, or the SYN with its MSS lowered by 20.\<close>

definition carried :: "skb_ops \<Rightarrow> skb \<Rightarrow> tcp_option list \<Rightarrow> u16 \<Rightarrow> skb" where
  "carried ops s os m =
     (if is_syn s then with_mss ops s (thdr s + 22 + length (options_bytes os)) (m - 20) else s)"

lemma carried_header:
  assumes "tcp_packet s"
  shows "take 20 (packet (carried ops s os m)) = take 20 (packet s)"
proof -
  have "data s + 20 \<le> thdr s" using assms by (simp add: tcp_packet_def)
  then show ?thesis
    by (simp add: carried_def with_mss_def packet_def Let_def drop_update_swap min_def split: prod.split)
qed

lemma reduce_carried:
  assumes "in_place ops" and "tcp_packet s" and "is_syn s \<longrightarrow> mss_option s os m"
  shows "(if is_syn s then reduce_tcp_mss ops s 20 else ret s) = ret (carried ops s os m)"
  using assms reduce_lowers [OF assms(1,2), of os m 20] by (simp add: carried_def mss_option_def list_all_iff)

text \<open>A SYN without options: the loop looks at the payload.\<close>

lemma payload_taken_for_option:
  assumes "bytes_at s (tp + 20) ([2, x] @ be16_bytes m)"
  shows "mss_loop s (alloc s, tp) 20 reduce (alloc s, tp + 20) = save s (alloc s, tp + 22) (be16_bytes (m - reduce))"
proof -
  have "bytes_at s (tp + 20) ([2] @ [x] @ be16_bytes m)" using assms by simp
  then have "load s (alloc s, tp + 20) 1 = ret [2]" "load s (alloc s, tp + 20 + 2) 2 = ret (be16_bytes m)"
    unfolding bytes_at_append by (auto intro!: bytes_at_load simp: be16_bytes_def)
  then show ?thesis by (subst mss_loop.simps) (simp add: add.commute)
qed

subsection \<open>A buffer that moves\<close>

text \<open>\<open>pskb_expand_head\<close> puts the packet into a new buffer with the headroom asked for; no operation goes back to an old one.\<close>

definition reallocates :: "skb_ops \<Rightarrow> bool" where
  "reallocates ops \<longleftrightarrow> (\<forall>s n. \<exists>t. pskb_expand_head ops n s = Some t \<and> alloc s < alloc t \<and> data s + n \<le> data t) \<and>
     (\<forall>s. \<exists>t. iptunnel_handle_offloads ops s = Some t \<and> alloc s \<le> alloc t \<and> data s \<le> data t) \<and>
     (\<forall>s n. \<exists>t. skb_make_writable ops n s = Some t \<and> alloc s \<le> alloc t)"

lemma push_down_stale:
  assumes "reallocates ops" and "a = alloc s" and "i + 4 \<le> length (head s)" and "data s < 20 + reserved_space ops"
  shows "push_down ops (a, i) s = stuck Use_After_Free"
proof -
  let ?n = "20 + reserved_space ops - data s"
  obtain s2 where s2: "pskb_expand_head ops ?n s = Some s2" "alloc s < alloc s2" "data s + ?n \<le> data s2"
    using assms(1) unfolding reallocates_def by blast
  obtain s3 where s3: "iptunnel_handle_offloads ops s2 = Some s3" "alloc s2 \<le> alloc s3" "data s2 \<le> data s3"
    using assms(1) unfolding reallocates_def by blast
  let ?s4 = "s3\<lparr>data := data s3 - 20, slen := slen s3 + 20\<rparr>"
  obtain s5 where s5: "skb_make_writable ops 20 (?s4\<lparr>nhdr := data ?s4\<rparr>) = Some s5" "alloc ?s4 \<le> alloc s5"
    using assms(1) unfolding reallocates_def by fastforce
  have "install_header ops s5 (a, i) tot = stuck Use_After_Free" for tot
    using s2(2) s3(2) s5(2) assms(2) by (simp add: install_header_def Let_def load_stale)
  moreover have "skb_push s3 20 = ret ?s4" using s2(3) s3(3) assms(4) by (simp add: skb_push_def)
  ultimately show ?thesis using assms s2(1) s3(1) s5(1) by (simp add: push_down_def load_ret Let_def)
qed

subsection \<open>A packet\<close>

definition demo_ops :: skb_ops where
  "demo_ops = \<lparr>skb_linearize = Some,
     pskb_expand_head = \<lambda>n s. Some (s\<lparr>head := replicate n 0 @ head s, alloc := Suc (alloc s), data := data s + n,
       nhdr := nhdr s + n, thdr := thdr s + n\<rparr>),
     iptunnel_handle_offloads = Some, skb_make_writable = \<lambda>n. Some, reserved_space = 16,
     ip_fast_csum = \<lambda>bs. (0xab, 0xcd), tcp_csum = \<lambda>addrs proto segment. (0x12, 0x34)\<rparr>"

text \<open>A TCP segment from port 5001 with a no-operation, the given options, and some headroom.\<close>

definition demo_skb :: "nat \<Rightarrow> u8 \<Rightarrow> u8 list \<Rightarrow> skb" where
  "demo_skb room flags opts =
     (let ip = [0x45, 0, 0, 44, 0, 1, 0, 0, 64, 6, 0, 0, 10, 0, 0, 1, 10, 0, 0, 2];
          tcp = [0x13, 0x89, 0, 80, 0, 0, 0, 0, 0, 0, 0, 0, 0x70, flags, 0, 0, 0, 0, 0, 0] @ opts
      in \<lparr>head = replicate room 0 @ ip @ tcp, alloc = 0, data = room, slen = 40 + length opts,
          nhdr = room, thdr = room + 20, summed = False\<rparr>)"

lemma demo_in_place: "in_place demo_ops"
  by (simp add: in_place_def demo_ops_def)

lemma demo_reallocates: "reallocates demo_ops"
  by (simp add: reallocates_def demo_ops_def)

lemma eth1_matches: "\<not> strncmp_differs ''eth1'' eth1 IFNAMSIZ"
  unfolding eth1_def by code_simp

lemma demo_skb_ok: "tcp_packet (demo_skb room flags opts)" "on_port_5001 (demo_skb room flags opts)"
  "data (demo_skb room flags opts) = room" "is_syn (demo_skb room flags opts) = bit flags 1"
  by (simp_all add: tcp_packet_def on_port_5001_def is_syn_def packet_def demo_skb_def Let_def IPPROTO_TCP_def be16_def
      nth_append)

subsection \<open>Properties\<close>

text \<open>C6: while the kernel leaves the buffer where it is, a TCP packet of port 5001 that leaves through eth1 with room in
  front of it is accepted with the tunnel's header before it: the header holds the addresses, the
  identification and the life time of the packet's own and is 20 bytes longer in its total length.  A packet
  that is no SYN is carried as it is; a SYN whose options hold an MSS option, after any others, is carried with its MSS
  lowered by 20 and its checksum computed again.  On the other side the incoming hook for eth1 takes the header off and
  leaves just what was carried, with the transport header 20 bytes behind the network header.\<close>

theorem tunnel_correct:
  assumes "in_place ops" and "\<not> strncmp_differs out eth1 IFNAMSIZ" and "\<not> strncmp_differs inn eth1 IFNAMSIZ"
    and "tcp_packet s" and "on_port_5001 s" and "20 + reserved_space ops \<le> data s"
    and "is_syn s \<longrightarrow> mss_option s os m"
  shows "\<exists>t u. ipip_hook_out ops out s = ret (NF_ACCEPT, t) \<and>
    packet t = tunnel_header ops (take 20 (packet s)) @ packet (carried ops s os m) \<and> nhdr t = data t \<and>
    ipip_hook_in inn t = ret (NF_ACCEPT, u) \<and> packet u = packet (carried ops s os m) \<and>
    nhdr u = data u \<and> thdr u = nhdr u + 20"
proof -
  let ?s1 = "carried ops s os m"
  note red = reduce_carried [OF assms(1,4,7)]
  have frame: "same_frame s ?s1"
    using assms(1) red reduce_same_frame [of ops s 20 ?s1] by (auto simp: same_frame_def split: if_splits)
  obtain t where t: "ipip_hook_out ops out s = ret (NF_ACCEPT, t)" "encapsulates ops ?s1 t"
    using hook_out_encapsulates [OF assms(1,2,4-6) red frame] by blast
  have "40 \<le> slen ?s1" "data ?s1 + slen ?s1 \<le> length (head ?s1)"
    using packet_bounds(4) [OF assms(4)] assms(4) frame by (simp_all add: same_frame_def tcp_packet_def)
  then obtain u where "ipip_hook_in inn t = ret (NF_ACCEPT, u)" "packet u = packet ?s1" "nhdr u = data u" "thdr u = nhdr u + 20"
    using tunnel_round_trip [OF t(2) _ _ assms(3)] by blast
  then show ?thesis using t carried_header [OF assms(4)] by (auto simp: encapsulates_def)
qed

text \<open>A data packet, and a SYN with two options before its MSS of 1460.\<close>

theorem tunnel_correct_witness:
  "(\<exists>t u. ipip_hook_out demo_ops ''eth1'' (demo_skb 40 0 []) = ret (NF_ACCEPT, t) \<and>
      ipip_hook_in ''eth1'' t = ret (NF_ACCEPT, u) \<and> packet u = packet (demo_skb 40 0 [])) \<and>
   (\<exists>t u. ipip_hook_out demo_ops ''eth1'' (demo_skb 40 2 [1, 3, 3, 7, 2, 4, 5, 0xb4]) = ret (NF_ACCEPT, t) \<and>
      ipip_hook_in ''eth1'' t = ret (NF_ACCEPT, u) \<and>
      packet u = packet (with_mss demo_ops (demo_skb 40 2 [1, 3, 3, 7, 2, 4, 5, 0xb4]) 86 1440))"
proof -
  let ?s = "demo_skb 40 2 [1, 3, 3, 7, 2, 4, 5, 0xb4]"
  have mss: "be16_bytes 1460 = [5, 0xb4]" by (simp add: be16_bytes_def)
  have th: "thdr ?s = 60" by (simp add: demo_skb_def Let_def)
  have opt: "mss_option ?s [Nop, Option 3 [7]] 1460"
    unfolding mss_option_def mss by (simp add: bytes_at_def demo_skb_def Let_def packet_def nth_append)
  show ?thesis
    using tunnel_correct [OF demo_in_place eth1_matches eth1_matches demo_skb_ok(1,2), of 40 0 "[]" "[]" 0]
      tunnel_correct [OF demo_in_place eth1_matches eth1_matches demo_skb_ok(1,2), of 40 2 "[1, 3, 3, 7, 2, 4, 5, 0xb4]"
        "[Nop, Option 3 [7]]" 1460] opt th
    by (auto simp: demo_skb_ok demo_ops_def carried_def)
qed

text \<open>C33: in a SYN whose options, after any others, contain an MSS option, the MSS is lowered by the size of the tunnel's
  header - modulo 65536, so an MSS below 20 becomes a huge one - and the checksum is computed again; no other byte of the packet changes.\<close>

theorem syn_mss_lowered:
  assumes "in_place ops" and "tcp_packet s" and "is_syn s" and "slen s < 2 ^ 32"
    and "unat (take_bit 4 (packet s ! 0)) * 4 = thdr s - data s"
    and "\<forall>x \<in> set os. other_option x" and "bytes_at s (thdr s + 20) (options_bytes os @ [2, 4] @ be16_bytes m)"
    and "20 + length (options_bytes os) < 4 * unat (drop_bit 4 (head s ! (thdr s + 12)))"
    and "thdr s + 24 + length (options_bytes os) \<le> data s + slen s"
  shows "reduce_tcp_mss ops s 20 = ret (with_mss ops s (thdr s + 22 + length (options_bytes os)) (m - 20))"
  by (rule reduce_lowers [OF assms])

theorem syn_mss_lowered_witness:
  "reduce_tcp_mss demo_ops (demo_skb 40 2 [1, 3, 3, 7, 2, 4, 5, 0xb4]) 20 =
    ret (with_mss demo_ops (demo_skb 40 2 [1, 3, 3, 7, 2, 4, 5, 0xb4]) 86 1440)"
proof -
  let ?s = "demo_skb 40 2 [1, 3, 3, 7, 2, 4, 5, 0xb4]"
  have mss: "be16_bytes 1460 = [5, 0xb4]" by (simp add: be16_bytes_def)
  have "bytes_at ?s 80 (options_bytes [Nop, Option 3 [7]] @ [2, 4] @ be16_bytes 1460)"
    unfolding mss by (simp add: bytes_at_def demo_skb_def Let_def)
  then show ?thesis
    using syn_mss_lowered [OF demo_in_place demo_skb_ok(1), of 40 2 "[1, 3, 3, 7, 2, 4, 5, 0xb4]" "[Nop, Option 3 [7]]" 1460]
    by (simp add: demo_skb_ok(4)) (simp add: demo_skb_def Let_def packet_def nth_append)
qed

text \<open>C34: an option of length zero - which a sender can put into any SYN, and the end-of-options byte followed by padding
  is one - makes the loop look at it again and again: the hook never returns.\<close>

theorem zero_option_hangs:
  assumes "in_place ops" and "\<not> strncmp_differs out eth1 IFNAMSIZ" and "tcp_packet s" and "on_port_5001 s" and "is_syn s"
    and "bytes_at s (thdr s + 20) [k, 0]" and "k \<noteq> 1" "k \<noteq> 2"
    and "20 < 4 * unat (drop_bit 4 (head s ! (thdr s + 12)))"
  shows "ipip_hook_out ops out s = None"
proof -
  have "thdr s + 20 \<le> length (head s)" using packet_bounds(2) [OF assms(3)] .
  then have "load s (alloc s, thdr s + 13) 1 = ret [head s ! (thdr s + 13)]"
    "load s (alloc s, thdr s + 12) 1 = ret [head s ! (thdr s + 12)]"
    by (simp_all add: load_ret take1)
  then have "reduce_tcp_mss ops s 20 = None"
    using zero_option_diverges [OF assms(6-8), of "(alloc s, thdr s)"] assms(1,5,9)
    by (simp add: reduce_tcp_mss_def Let_def in_place_def is_syn_def)
  then show ?thesis using hook_out_selects [OF assms(2-4)] assms(5) by simp
qed

theorem zero_option_hangs_witness:
  "ipip_hook_out demo_ops ''eth1'' (demo_skb 40 2 [0, 0, 0, 0]) = None"
  by (rule zero_option_hangs [OF demo_in_place eth1_matches demo_skb_ok(1,2), where k = 0])
    (simp_all add: demo_skb_ok(4), simp_all add: bytes_at_def demo_skb_def Let_def nth_append)

text \<open>C35: when the packet lacks the headroom, the buffer is moved to a new place, but \<open>old_iph\<close> goes on pointing into
  the old one, and the new header is filled from freed memory.\<close>

theorem stale_header:
  assumes "reallocates ops" and "\<not> strncmp_differs out eth1 IFNAMSIZ" and "tcp_packet s" and "on_port_5001 s"
    and "\<not> is_syn s" and "data s < 20 + reserved_space ops"
  shows "ipip_hook_out ops out s = stuck Use_After_Free"
  using hook_out_selects [OF assms(2-4)] push_down_stale [OF assms(1) refl _ assms(6)] packet_bounds(1) [OF assms(3)] assms(5)
  by simp

theorem stale_header_witness:
  "ipip_hook_out demo_ops ''eth1'' (demo_skb 16 0 []) = stuck Use_After_Free"
  by (rule stale_header [OF demo_reallocates eth1_matches demo_skb_ok(1,2)]) (simp_all add: demo_skb_ok)

end
