(* ===== verification/Libc.thy ===== *)
theory Libc
  imports Posix
begin

text \<open>
  What the programs use of the C library's heap and random numbers.  \<open>malloc\<close>, \<open>free\<close> and the random
  generators are parameters over a state \<open>'w\<close>; the locale \<open>allocator\<close> is the contract of a heap: \<open>malloc\<close> returns
  \<open>NULL\<close> or a block that was not live, and \<open>free\<close> gives back exactly that.
\<close>

locale allocator =
  fixes malloc :: "nat \<Rightarrow> 'w \<Rightarrow> addr option \<times> 'w"
    and free :: "addr option \<Rightarrow> 'w \<Rightarrow> 'w"
    and blocks :: "'w \<Rightarrow> addr set"
  assumes malloc_blocks: "malloc n w = (p, w') \<Longrightarrow>
      (case p of None \<Rightarrow> blocks w' = blocks w | Some a \<Rightarrow> a \<notin> blocks w \<and> blocks w' = insert a (blocks w))"
    and free_blocks: "blocks (free p w) = (case p of None \<Rightarrow> blocks w | Some a \<Rightarrow> blocks w - {a})"
begin

lemma free_null [simp]: "blocks (free None w) = blocks w"
  by (simp add: free_blocks)

lemma free_malloc: "malloc n w = (p, w') \<Longrightarrow> blocks w'' = blocks w' \<Longrightarrow> blocks (free p w'') = blocks w"
  using malloc_blocks [of n w p w'] by (auto simp: free_blocks split: option.splits)

lemma two_blocks:
  assumes "malloc m w = (p, w1)" and "malloc n w1 = (q, w2)" and "blocks w3 = blocks w2"
  shows "blocks (free q (free p w3)) = blocks w"
  using malloc_blocks [OF assms(1)] malloc_blocks [OF assms(2)] assms(3)
  by (auto simp: free_blocks split: option.splits)

end

text \<open>\<open>rand\<close> and \<open>random\<close> return numbers from 0 to \<open>RAND_MAX\<close> and touch no memory.\<close>

definition random_source :: "('w \<Rightarrow> int \<times> 'w) \<Rightarrow> ('w \<Rightarrow> addr set) \<Rightarrow> bool" where
  "random_source rand blocks \<longleftrightarrow> (\<forall>w r w'. rand w = (r, w') \<longrightarrow> 0 \<le> r \<and> r \<le> INT_MAX \<and> blocks w' = blocks w)"

text \<open>A heap to run the programs on: the live blocks, the next address, and the random numbers to come.\<close>

record heap =
  heap_blocks :: "addr set"
  next_block :: addr
  numbers :: "nat list"

definition heap_malloc :: "nat \<Rightarrow> heap \<Rightarrow> addr option \<times> heap" where
  "heap_malloc n h =
     (if next_block h \<in> heap_blocks h then (None, h)
      else (Some (next_block h), h\<lparr>heap_blocks := insert (next_block h) (heap_blocks h), next_block := Suc (next_block h)\<rparr>))"

definition heap_free :: "addr option \<Rightarrow> heap \<Rightarrow> heap" where
  "heap_free p h = (case p of None \<Rightarrow> h | Some a \<Rightarrow> h\<lparr>heap_blocks := heap_blocks h - {a}\<rparr>)"

definition heap_rand :: "heap \<Rightarrow> int \<times> heap" where
  "heap_rand h = (case numbers h of [] \<Rightarrow> (0, h) | x # xs \<Rightarrow> (int x mod (INT_MAX + 1), h\<lparr>numbers := xs\<rparr>))"

lemma heap_allocator: "allocator heap_malloc heap_free heap_blocks"
  by unfold_locales (auto simp: heap_malloc_def heap_free_def split: if_splits option.splits)

lemma heap_random: "random_source heap_rand heap_blocks"
  by (auto simp: random_source_def heap_rand_def INT_MAX_def split: list.splits)

definition demo_heap :: "nat list \<Rightarrow> heap" where
  "demo_heap xs = \<lparr>heap_blocks = {}, next_block = 1, numbers = xs\<rparr>"

end
