(* ===== verification/Binary_Search.thy ===== *)
theory Binary_Search
  imports Libc "HOL-Library.Signed_Division"
begin

text \<open>
  \<^verbatim>\<open>binary-search-prefetch/main.c\<close>.  The arithmetic is that of \<open>int\<close>: a result that does not fit is a
  fault, and division truncates.  With \<open>DO_PREFETCH\<close> two addresses are formed in every round; forming one
  outside the array, or more than one behind its end, is a fault as well.
\<close>

definition elem :: "int list \<Rightarrow> int \<Rightarrow> int run" where
  "elem array i = (if 0 \<le> i \<and> i < int (length array) then ret (array ! nat i) else stuck Out_Of_Bounds)"

definition prefetch :: "int list \<Rightarrow> int \<Rightarrow> unit run" where
  "prefetch array i = (if 0 \<le> i \<and> i \<le> int (length array) then ret () else stuck Out_Of_Bounds)"

definition prefetch_both :: "int list \<Rightarrow> int \<Rightarrow> int \<Rightarrow> int \<Rightarrow> unit run" where
  "prefetch_both array start stop mid =
     seq (c_int (stop - mid - 1)) (\<lambda>d. seq (c_int (mid + 1 + d sdiv 2)) (\<lambda>i. seq (prefetch array i) (\<lambda>_.
       seq (c_int (mid - start - 1)) (\<lambda>d. seq (c_int (start + d sdiv 2)) (prefetch array)))))"

partial_function (option) search_loop :: "bool \<Rightarrow> int list \<Rightarrow> int \<Rightarrow> int \<Rightarrow> int \<Rightarrow> int run" where
  "search_loop do_prefetch array target start stop =
     (if start \<le> stop then
        seq (c_int (stop - start)) (\<lambda>d. seq (c_int (start + d sdiv 2)) (\<lambda>mid.
          seq (if do_prefetch then prefetch_both array start stop mid else ret ()) (\<lambda>_.
            seq (elem array mid) (\<lambda>x.
              if x = target then ret mid
              else if x < target then seq (c_int (mid + 1)) (\<lambda>start. search_loop do_prefetch array target start stop)
              else seq (c_int (mid - 1)) (\<lambda>stop. search_loop do_prefetch array target start stop)))))
      else ret (-1))"

definition binary_search :: "bool \<Rightarrow> int list \<Rightarrow> int \<Rightarrow> int \<Rightarrow> int run" where
  "binary_search do_prefetch array n target = seq (c_int (n - 1)) (search_loop do_prefetch array target 0)"

text \<open>
  \<open>main\<close>, for an array of \<open>array_size\<close> elements and \<open>lookup_size\<close> lookups; what it finds is thrown away, and here is
  the result beside the exit status.
\<close>

definition ARRAY_SIZE :: int where "ARRAY_SIZE = 2 ^ 28"
definition LOOKUP_SIZE :: nat where "LOOKUP_SIZE = 2 ^ 23"

fun draw_lookups :: "('w \<Rightarrow> int \<times> 'w) \<Rightarrow> int \<Rightarrow> nat \<Rightarrow> 'w \<Rightarrow> int list \<times> 'w" where
  "draw_lookups random n 0 w = ([], w)"
| "draw_lookups random n (Suc k) w =
     (let (r, w) = random w; (rs, w) = draw_lookups random n k w in (r smod n # rs, w))"

fun look_up_all :: "bool \<Rightarrow> int list \<Rightarrow> int \<Rightarrow> int list \<Rightarrow> int list run" where
  "look_up_all do_prefetch array n [] = ret []"
| "look_up_all do_prefetch array n (x # xs) =
     seq (binary_search do_prefetch array n x) (\<lambda>r. seq (look_up_all do_prefetch array n xs) (\<lambda>rs. ret (r # rs)))"

definition search_main ::
  "bool \<Rightarrow> (nat \<Rightarrow> 'w \<Rightarrow> addr option \<times> 'w) \<Rightarrow> (addr option \<Rightarrow> 'w \<Rightarrow> 'w) \<Rightarrow> (int \<Rightarrow> 'w \<Rightarrow> 'w) \<Rightarrow> ('w \<Rightarrow> int \<times> 'w) \<Rightarrow>
    'w \<Rightarrow> (int \<times> (int list \<times> int list) \<times> 'w) run" where
  "search_main do_prefetch malloc free srand random w =
     (let (array, w) = malloc (nat ARRAY_SIZE * 4) w; (lookups, w) = malloc (LOOKUP_SIZE * 4) w in
      if array = None \<or> lookups = None then ret (1, ([], []), free lookups (free array w))
      else let xs = map int [0..<nat ARRAY_SIZE]; w = srand 0 w;
               (ys, w) = draw_lookups random ARRAY_SIZE LOOKUP_SIZE w
           in seq (look_up_all do_prefetch xs ARRAY_SIZE ys) (\<lambda>found.
                ret (0, (ys, found), free lookups (free array w))))"

subsection \<open>One round\<close>

lemma midpoint:
  assumes "0 \<le> start" "start \<le> stop" "stop < INT_MAX"
  defines "mid \<equiv> start + (stop - start) div 2"
  shows "c_int (stop - start) = ret (stop - start)" "(stop - start) sdiv 2 = (stop - start) div 2"
    "c_int mid = ret mid" "c_int (mid + 1) = ret (mid + 1)" "c_int (mid - 1) = ret (mid - 1)"
    "start \<le> mid" "mid \<le> stop"
proof -
  have mid: "start \<le> mid" "mid \<le> stop" using assms(2) unfolding mid_def by linarith+
  then show "start \<le> mid" "mid \<le> stop" .
  show "(stop - start) sdiv 2 = (stop - start) div 2" using assms(2) by (simp add: signed_divide_int_def sgn_if)
  show "c_int (stop - start) = ret (stop - start)" "c_int mid = ret mid"
    "c_int (mid + 1) = ret (mid + 1)" "c_int (mid - 1) = ret (mid - 1)"
    using assms(1-3) mid by (simp_all add: INT_MAX_def)
qed

lemma prefetch_both_ok:
  assumes "0 \<le> start" "start \<le> mid" "mid \<le> stop" "stop < int (length array)" "int (length array) \<le> INT_MAX"
  shows "prefetch_both array start stop mid = ret ()"
proof -
  have half: "d sdiv 2 = (if d = -1 then 0 else d div 2)" if "-1 \<le> d" for d :: int
    using that by (auto simp: signed_divide_int_def sgn_if)
  show ?thesis
    using assms half [of "stop - mid - 1"] half [of "mid - start - 1"]
    by (auto simp: prefetch_both_def prefetch_def INT_MAX_def)
qed

text \<open>The elements between \<open>start\<close> and \<open>stop\<close> are those still in question.\<close>

lemma search_loop_result:
  assumes "0 \<le> start" "stop < int (length array)" "int (length array) \<le> INT_MAX"
  shows "\<exists>r. search_loop pf array target start stop = ret r \<and>
    search_loop (\<not> pf) array target start stop = ret r \<and>
    (r = -1 \<or> start \<le> r \<and> r \<le> stop \<and> array ! nat r = target) \<and>
    (sorted array \<longrightarrow> r = -1 \<longrightarrow> (\<forall>i. start \<le> i \<longrightarrow> i \<le> stop \<longrightarrow> array ! nat i \<noteq> target))"
  using assms
proof (induction "nat (stop - start + 1)" arbitrary: start stop rule: less_induct)
  case less
  show ?case
  proof (cases "start \<le> stop")
    case False
    then show ?thesis by (auto simp: search_loop.simps)
  next
    case True
    define mid where "mid = start + (stop - start) div 2"
    note m = midpoint [OF less.prems(1) True, folded mid_def]
    have max: "stop < INT_MAX" using less.prems(2,3) by simp
    have pf: "(if b then prefetch_both array start stop mid else ret ()) = ret ()" for b
      using prefetch_both_ok [OF less.prems(1) m(6,7) [OF max] less.prems(2,3)] by simp
    have at: "elem array mid = ret (array ! nat mid)"
      using m(6,7) [OF max] less.prems(1,2) by (simp add: elem_def)
    have step: "search_loop b array target start stop =
        (if array ! nat mid = target then ret mid
         else if array ! nat mid < target then search_loop b array target (mid + 1) stop
         else search_loop b array target start (mid - 1))" for b
      by (subst search_loop.simps) (simp add: True m(1-5) [OF max] pf at flip: mid_def)
    have mono: "sorted array \<Longrightarrow> i \<le> j \<Longrightarrow> 0 \<le> i \<Longrightarrow> j \<le> stop \<Longrightarrow> array ! nat i \<le> array ! nat j" for i j
      using less.prems(2) by (intro sorted_nth_mono) auto
    consider "array ! nat mid = target" | "array ! nat mid < target" | "target < array ! nat mid" by linarith
    then show ?thesis
    proof cases
      case 1
      then show ?thesis using step m(6,7) [OF max] less.prems(1) by auto
    next
      case 2
      then obtain r where r: "search_loop pf array target (mid + 1) stop = ret r"
        "search_loop (\<not> pf) array target (mid + 1) stop = ret r"
        "r = -1 \<or> mid + 1 \<le> r \<and> r \<le> stop \<and> array ! nat r = target"
        "sorted array \<Longrightarrow> r = -1 \<Longrightarrow> \<forall>i. mid + 1 \<le> i \<longrightarrow> i \<le> stop \<longrightarrow> array ! nat i \<noteq> target"
        using less.hyps [of stop "mid + 1"] m(6,7) [OF max] less.prems True by auto
      moreover have "array ! nat i \<noteq> target" if "sorted array" "start \<le> i" "i \<le> mid" for i
        using mono [OF that(1,3)] that(2) less.prems(1) 2 m(7) [OF max] by auto
      ultimately show ?thesis using step 2 m(6) [OF max]
        by (intro exI [of _ r]) (auto, smt)
    next
      case 3
      then obtain r where r: "search_loop pf array target start (mid - 1) = ret r"
        "search_loop (\<not> pf) array target start (mid - 1) = ret r"
        "r = -1 \<or> start \<le> r \<and> r \<le> mid - 1 \<and> array ! nat r = target"
        "sorted array \<Longrightarrow> r = -1 \<Longrightarrow> \<forall>i. start \<le> i \<longrightarrow> i \<le> mid - 1 \<longrightarrow> array ! nat i \<noteq> target"
        using less.hyps [of "mid - 1" start] m(6,7) [OF max] less.prems True by auto
      moreover have "array ! nat i \<noteq> target" if "sorted array" "mid \<le> i" "i \<le> stop" for i
        using mono [OF that(1,2)] that(3) less.prems(1) 3 m(6) [OF max] by auto
      ultimately show ?thesis using step 3 m(7) [OF max]
        by (intro exI [of _ r]) (auto, smt)
    qed
  qed
qed

lemma binary_search_result:
  assumes "int (length array) \<le> INT_MAX"
  shows "\<exists>r. binary_search pf array (int (length array)) target = ret r \<and>
    binary_search (\<not> pf) array (int (length array)) target = ret r \<and>
    (r = -1 \<or> 0 \<le> r \<and> r < int (length array) \<and> array ! nat r = target) \<and>
    (sorted array \<longrightarrow> (r = -1 \<longleftrightarrow> target \<notin> set array))"
proof -
  have start: "c_int (int (length array) - 1) = ret (int (length array) - 1)"
    using assms by (simp add: INT_MAX_def)
  obtain r where r: "search_loop pf array target 0 (int (length array) - 1) = ret r"
    "search_loop (\<not> pf) array target 0 (int (length array) - 1) = ret r"
    "r = -1 \<or> 0 \<le> r \<and> r \<le> int (length array) - 1 \<and> array ! nat r = target"
    "sorted array \<Longrightarrow> r = -1 \<Longrightarrow> \<forall>i. 0 \<le> i \<longrightarrow> i \<le> int (length array) - 1 \<longrightarrow> array ! nat i \<noteq> target"
    using search_loop_result [of 0 "int (length array) - 1" array pf target] assms by auto
  have "target \<notin> set array" if "sorted array" "r = -1"
  proof
    assume "target \<in> set array"
    then obtain i where "i < length array" "array ! i = target" by (auto simp: in_set_conv_nth)
    then show False using r(4) [OF that, rule_format, of "int i"] by simp
  qed
  moreover have "target \<in> set array" if "r \<noteq> -1"
    using r(3) that nth_mem [of "nat r" array] by auto
  ultimately show ?thesis using r(1,2,3) start by (auto simp: binary_search_def)
qed

subsection \<open>The main program\<close>

lemma draw_lookups_result:
  assumes "random_source random blocks" "0 < n" "draw_lookups random n k w = (rs, w')"
  shows "length rs = k \<and> set rs \<subseteq> {0..<n} \<and> blocks w' = blocks w"
  using assms(3)
proof (induction k arbitrary: w rs)
  case 0
  then show ?case by simp
next
  case (Suc k)
  obtain r w1 where r: "random w = (r, w1)" by fastforce
  obtain rs' where rs': "draw_lookups random n k w1 = (rs', w')" "rs = r smod n # rs'"
    using Suc.prems r by (auto split: prod.splits)
  have "0 \<le> r" "blocks w1 = blocks w" using assms(1) r unfolding random_source_def by blast+
  moreover from this have "r smod n = r mod n" using assms(2) by (simp add: signed_modulo_int_def signed_divide_int_def sgn_if minus_div_mult_eq_mod)
  ultimately show ?case using Suc.IH [OF rs'(1)] rs'(2) assms(2) by simp
qed

lemma look_up_all_identity:
  assumes "0 < n" "n \<le> INT_MAX" "set ys \<subseteq> {0..<n}"
  shows "look_up_all pf (map int [0..<nat n]) n ys = ret ys"
  using assms(3)
proof (induction ys)
  case Nil
  then show ?case by simp
next
  case (Cons y ys)
  let ?xs = "map int [0..<nat n]"
  have len: "int (length ?xs) = n" using assms(1) by simp
  have "sorted ?xs" by (simp add: sorted_iff_nth_mono)
  moreover have "y \<in> set ?xs" using Cons.prems assms(1) by (auto intro!: image_eqI [of _ _ "nat y"])
  ultimately obtain r where "binary_search pf ?xs n y = ret r" "0 \<le> r" "r < n" "?xs ! nat r = y"
    using binary_search_result [of ?xs pf y] assms(2) len by auto
  then show ?case using Cons by simp
qed

subsection \<open>Properties\<close>

text \<open>C11: \<open>binary_search\<close> always returns, with or without prefetching the same result: -1 or the index of an
  element equal to the target, and on a sorted array -1 only when there is none.  No addition overflows, and no
  access and no prefetched address lies outside the array, whatever it holds.\<close>

theorem binary_search_correct:
  assumes "int (length array) \<le> INT_MAX"
  shows "\<exists>r. binary_search pf array (int (length array)) target = ret r \<and>
    binary_search (\<not> pf) array (int (length array)) target = ret r \<and>
    (r = -1 \<or> 0 \<le> r \<and> r < int (length array) \<and> array ! nat r = target) \<and>
    (sorted array \<longrightarrow> (r = -1 \<longleftrightarrow> target \<notin> set array))"
  by (rule binary_search_result [OF assms])

theorem binary_search_correct_witness:
  "\<exists>r. binary_search True [2, 3, 5, 7] 4 5 = ret r \<and> binary_search False [2, 3, 5, 7] 4 5 = ret r \<and> r \<noteq> -1"
  using binary_search_correct [of "[2, 3, 5, 7]" True 5] by (auto simp: INT_MAX_def)

text \<open>The benchmark gives its memory back on every path, and when it runs it finds every number it looks up at
  the index that is the number.\<close>

theorem search_main_correct:
  assumes "allocator malloc free blocks" and "random_source random blocks" and "\<forall>s w. blocks (srand s w) = blocks w"
  shows "\<exists>code ys w'. search_main pf malloc free srand random w = ret (code, (ys, ys), w') \<and> blocks w' = blocks w \<and>
    (code = 0 \<longrightarrow> length ys = LOOKUP_SIZE)"
proof -
  obtain p w1 where p: "malloc (nat ARRAY_SIZE * 4) w = (p, w1)" by fastforce
  obtain q w2 where q: "malloc (LOOKUP_SIZE * 4) w1 = (q, w2)" by fastforce
  note freed = allocator.two_blocks [OF assms(1) p q]
  show ?thesis
  proof (cases "p = None \<or> q = None")
    case True
    then show ?thesis using p q freed [of w2] by (simp add: search_main_def)
  next
    case False
    obtain ys w3 where ys: "draw_lookups random ARRAY_SIZE LOOKUP_SIZE (srand 0 w2) = (ys, w3)" by fastforce
    have range: "0 < ARRAY_SIZE" "ARRAY_SIZE \<le> INT_MAX" by (simp_all add: ARRAY_SIZE_def INT_MAX_def)
    note drawn = draw_lookups_result [OF assms(2) range(1) ys]
    have "look_up_all pf (map int [0..<nat ARRAY_SIZE]) ARRAY_SIZE ys = ret ys"
      using look_up_all_identity [OF range] drawn by blast
    then have "search_main pf malloc free srand random w = ret (0, (ys, ys), free q (free p w3))"
      using p q ys False by (simp add: search_main_def del: map_map)
    then show ?thesis using drawn freed [of w3] assms(3) by simp
  qed
qed

theorem search_main_correct_witness:
  "\<exists>code ys h. search_main True heap_malloc heap_free (\<lambda>s h. h) heap_rand (demo_heap [5, 9]) = ret (code, (ys, ys), h) \<and>
    heap_blocks h = {}"
  using search_main_correct [OF heap_allocator heap_random, of "\<lambda>s h. h" True "demo_heap [5, 9]"]
  by (auto simp: demo_heap_def)

end
