(* ===== verification/Pointer_Chase.thy ===== *)
theory Pointer_Chase
  imports Libc "HOL-Library.Multiset"
begin

text \<open>
  \<^verbatim>\<open>mem-read-lat/main.c\<close>: an array of pointers into itself is shuffled and then followed.  A pointer to
  \<open>array[k]\<close> is the index \<open>k\<close>.  Sizes are \<open>size_t\<close>; the number of elements is an \<open>unsigned int\<close>, so it loses
  the high bits of the memory size.  The time that is measured is not modelled.
\<close>

subsection \<open>The program\<close>

fun shuffle_loop :: "('w \<Rightarrow> int \<times> 'w) \<Rightarrow> nat \<Rightarrow> nat list \<Rightarrow> nat list \<Rightarrow> 'w \<Rightarrow> (nat list \<times> 'w) run" where
  "shuffle_loop rand n [] array w = ret (array, w)"
| "shuffle_loop rand n (i # is) array w =
     (let (r, w) = rand w; j = i + nat (size_t r mod int (n - i)) in
      if i < length array \<and> j < length array
      then shuffle_loop rand n is (array[i := array ! j, j := array ! i]) w
      else stuck Out_Of_Bounds)"

definition shuffle ::
  "(int \<Rightarrow> 'w \<Rightarrow> 'w) \<Rightarrow> ('w \<Rightarrow> int) \<Rightarrow> ('w \<Rightarrow> int \<times> 'w) \<Rightarrow> nat list \<Rightarrow> nat \<Rightarrow> 'w \<Rightarrow> (nat list \<times> 'w) run" where
  "shuffle srand time rand array n w =
     (if n \<le> 1 then ret (array, w) else shuffle_loop rand n [0..<n - 1] array (srand (time w) w))"

text \<open>\<open>ONE\<close>, repeated, and \<open>HUNDRED\<close>, repeated.\<close>

definition one :: "nat list \<Rightarrow> nat \<Rightarrow> nat run" where
  "one array p = (if p < length array then ret (array ! p) else stuck Out_Of_Bounds)"

fun ones :: "nat list \<Rightarrow> nat \<Rightarrow> nat \<Rightarrow> nat run" where
  "ones array 0 p = ret p"
| "ones array (Suc k) p = seq (one array p) (ones array k)"

fun hundreds :: "nat list \<Rightarrow> nat \<Rightarrow> nat \<Rightarrow> nat run" where
  "hundreds array 0 p = ret p"
| "hundreds array (Suc k) p = seq (ones array 100 p) (hundreds array k)"

text \<open>The result is the value read last, or \<open>None\<close> when there was no memory.\<close>

definition test_cache ::
  "(nat \<Rightarrow> 'w \<Rightarrow> addr option \<times> 'w) \<Rightarrow> (addr option \<Rightarrow> 'w \<Rightarrow> 'w) \<Rightarrow> (int \<Rightarrow> 'w \<Rightarrow> 'w) \<Rightarrow> ('w \<Rightarrow> int) \<Rightarrow>
    ('w \<Rightarrow> int \<times> 'w) \<Rightarrow> u64 \<Rightarrow> u64 \<Rightarrow> 'w \<Rightarrow> (nat option \<times> 'w) run" where
  "test_cache malloc free srand time rand mem_size iters w =
     (let array_size = ucast (mem_size div 8) :: u32; (block, w) = malloc (unat array_size * 8) w in
      if block = None then ret (None, w)
      else seq (shuffle srand time rand [0..<unat array_size] (unat array_size) w) (\<lambda>(array, w).
        let rounds = iters div 100; remain_iters = iters - rounds * 100 in
        seq (hundreds array (unat rounds) 0) (\<lambda>p. seq (ones array (unat remain_iters) p) (\<lambda>p.
          seq (one array p) (\<lambda>result. ret (Some result, free block w))))))"

text \<open>\<open>main\<close>: \<open>sscanf\<close> with \<open>%zu\<close> is a parameter; the result is the exit status.\<close>

definition chase_main ::
  "(string \<Rightarrow> u64 option) \<Rightarrow> (nat \<Rightarrow> 'w \<Rightarrow> addr option \<times> 'w) \<Rightarrow> (addr option \<Rightarrow> 'w \<Rightarrow> 'w) \<Rightarrow> (int \<Rightarrow> 'w \<Rightarrow> 'w) \<Rightarrow>
    ('w \<Rightarrow> int) \<Rightarrow> ('w \<Rightarrow> int \<times> 'w) \<Rightarrow> string list \<Rightarrow> 'w \<Rightarrow> (int \<times> 'w) run" where
  "chase_main scan malloc free srand time rand argv w =
     (if length argv \<noteq> 3 then ret (1, w)
      else case scan (argv ! 1) of
        None \<Rightarrow> ret (1, w)
      | Some mem_size \<Rightarrow> (case scan (argv ! 2) of
          None \<Rightarrow> ret (1, w)
        | Some iters \<Rightarrow> seq (test_cache malloc free srand time rand mem_size iters w) (\<lambda>(_, w). ret (0, w))))"

subsection \<open>Shuffling\<close>

lemma mset_exchange:
  assumes "i < length xs" "j < length xs"
  shows "mset (xs[i := xs ! j, j := xs ! i]) = mset xs"
  using assms mset_swap [of j xs i] by simp

lemma mset_short_eq: "mset xs = mset ys \<Longrightarrow> length ys \<le> 1 \<Longrightarrow> xs = ys"
  by (cases ys) (auto simp: le_Suc_eq)

lemma shuffle_loop_permutes:
  assumes "random_source rand blocks" and "\<forall>i \<in> set is. i < n" and "length array = n"
  shows "\<exists>array' w'. shuffle_loop rand n is array w = ret (array', w') \<and> mset array' = mset array \<and> blocks w' = blocks w"
  using assms(2,3)
proof (induction "is" arbitrary: array w)
  case Nil
  then show ?case by simp
next
  case (Cons i "is")
  obtain r w1 where r: "rand w = (r, w1)" by fastforce
  then have w1: "blocks w1 = blocks w" using assms(1) unfolding random_source_def by blast
  define j where "j = i + nat (size_t r mod int (n - i))"
  have "0 < int (n - i)" using Cons.prems(1) by simp
  then have "0 \<le> size_t r mod int (n - i)" "size_t r mod int (n - i) < int (n - i)"
    by (rule pos_mod_sign, rule pos_mod_bound)
  then have "nat (size_t r mod int (n - i)) < n - i" by linarith
  then have j: "i < length array" "j < length array" using Cons.prems unfolding j_def by simp_all
  let ?a = "array[i := array ! j, j := array ! i]"
  obtain array' w' where "shuffle_loop rand n is ?a w1 = ret (array', w')" "mset array' = mset ?a" "blocks w' = blocks w1"
    using Cons.IH [of ?a w1] Cons.prems by auto
  then show ?case using r j w1 mset_exchange [OF j] by (simp add: Let_def flip: j_def)
qed

lemma shuffle_permutes_array:
  assumes "random_source rand blocks" and "\<forall>s w. blocks (srand s w) = blocks w" and "length array = n"
  shows "\<exists>array' w'. shuffle srand time rand array n w = ret (array', w') \<and> mset array' = mset array \<and> blocks w' = blocks w"
proof -
  have "\<forall>i \<in> set [0..<n - 1]. i < n" by auto
  from shuffle_loop_permutes [OF assms(1) this assms(3), of "srand (time w) w"] show ?thesis
    using assms(2) by (auto simp: shuffle_def)
qed

text \<open>A source that returns given numbers.\<close>

definition scripted :: "int list \<Rightarrow> int \<times> int list" where
  "scripted rs = (hd rs, tl rs)"

text \<open>Every arrangement of the elements from \<open>i\<close> on can come out.\<close>

lemma shuffle_loop_reaches:
  assumes "length array = n" "n \<le> nat INT_MAX" "i \<le> n - 1" "mset goal = mset array" "take i goal = take i array"
  shows "\<exists>rs. length rs = n - 1 - i \<and> set rs \<subseteq> {0..INT_MAX} \<and>
    shuffle_loop scripted n [i..<n - 1] array rs = ret (goal, [])"
  using assms
proof (induction "n - 1 - i" arbitrary: i array)
  case 0
  have "mset (drop i goal) = mset (drop i array)"
    using 0(5,6) by (metis add_left_cancel append_take_drop_id mset_append)
  moreover have "length (drop i array) \<le> 1" using 0(1,2,4) by simp
  ultimately have "drop i goal = drop i array" by (rule mset_short_eq)
  then have "goal = array" using 0(6) by (metis append_take_drop_id)
  moreover have "[i..<n - 1] = []" "n - 1 - i = 0" using 0(1) by auto
  ultimately show ?case by (intro exI [of _ "[]"]) simp
next
  case (Suc k)
  have len: "length goal = length array" using Suc.prems(4) by (metis size_mset)
  have i: "i < length array" using Suc.hyps(2) Suc.prems(1) by simp
  have "mset (drop i goal) = mset (drop i array)"
    using Suc.prems(4,5) by (metis add_left_cancel append_take_drop_id mset_append)
  moreover have "goal ! i \<in> set (drop i goal)" using i len by (metis Cons_nth_drop_Suc list.set_intros(1))
  ultimately have "goal ! i \<in> set (drop i array)" by (metis mset_eq_setD)
  then obtain d where d: "d < length array - i" "array ! (i + d) = goal ! i" by (auto simp: in_set_conv_nth)
  let ?j = "i + d"
  let ?a = "array[i := array ! ?j, ?j := array ! i]"
  have "?a ! i = goal ! i" "take i ?a = take i array" using i d by (cases "d = 0", simp_all add: nth_list_update)
  then have "take (Suc i) goal = take (Suc i) ?a"
    using i len Suc.prems(5) take_Suc_conv_app_nth [of i ?a] take_Suc_conv_app_nth [of i goal] by simp
  moreover have "mset goal = mset ?a" using mset_exchange [of i array ?j] i d(1) Suc.prems(4) by simp
  moreover have step: "k = n - 1 - Suc i" "Suc i \<le> n - 1" using Suc.hyps(2) by linarith+
  ultimately obtain rs where rs: "length rs = n - 1 - Suc i" "set rs \<subseteq> {0..INT_MAX}"
    "shuffle_loop scripted n [Suc i..<n - 1] ?a rs = ret (goal, [])"
    using Suc.hyps(1) [of "Suc i" ?a] step Suc.prems(1,2) by auto
  have "int d \<le> INT_MAX" using d(1) Suc.prems(1,2) by simp
  moreover from this have "nat (size_t (int d) mod int (n - i)) = d"
    using d(1) Suc.prems(1) by (simp add: INT_MAX_def)
  moreover have "[i..<n - 1] = i # [Suc i..<n - 1]" using Suc.hyps(2) by (simp add: upt_conv_Cons)
  ultimately show ?case
    using rs i d Suc.hyps(2) by (intro exI [of _ "int d # rs"]) (auto simp: scripted_def Let_def)
qed

subsection \<open>Following the pointers\<close>

lemma ones_result:
  assumes "\<forall>x \<in> set array. x < length array" "p < length array"
  shows "ones array k p = ret (((!) array ^^ k) p) \<and> ((!) array ^^ k) p < length array"
  using assms(2)
proof (induction k arbitrary: p)
  case 0
  then show ?case by simp
next
  case (Suc k)
  then have "array ! p < length array" using assms(1) by simp
  from Suc.IH [OF this] show ?case using Suc.prems by (simp add: one_def funpow_swap1)
qed

lemma hundreds_result:
  assumes "\<forall>x \<in> set array. x < length array" "p < length array"
  shows "hundreds array k p = ret (((!) array ^^ (k * 100)) p) \<and> ((!) array ^^ (k * 100)) p < length array"
  using assms(2)
proof (induction k arbitrary: p)
  case 0
  then show ?case by simp
next
  case (Suc k)
  let ?q = "((!) array ^^ 100) p"
  have q: "ones array 100 p = ret ?q" "?q < length array" using ones_result [OF assms(1) Suc.prems, of 100] by blast+
  have "Suc k * 100 = 100 + k * 100" by simp
  then show ?case
    using Suc.IH [OF q(2)] q(1) funpow_add_apply [of 100 "k * 100" "(!) array" p] by simp
qed

subsection \<open>The benchmark\<close>

lemma rounds_and_rest: "unat (iters div 100) * 100 + unat (iters - iters div 100 * 100) = unat (iters :: u64)"
proof -
  have "iters - iters div 100 * 100 = iters mod 100" by (simp add: minus_div_mult_eq_mod)
  then show ?thesis by (simp add: unat_div unat_mod)
qed

text \<open>C18: \<open>shuffle\<close> returns, stays inside the array and leaves a permutation of it, and given the right random
  numbers every permutation comes out.\<close>

theorem shuffle_correct:
  assumes "random_source rand blocks" and "\<forall>s w. blocks (srand s w) = blocks w"
    and "length array \<le> nat INT_MAX" and "mset goal = mset array"
  shows "(\<exists>array' w'. shuffle srand time rand array (length array) w = ret (array', w') \<and>
      mset array' = mset array \<and> blocks w' = blocks w) \<and>
    (\<exists>rs. set rs \<subseteq> {0..INT_MAX} \<and> shuffle (\<lambda>s w. w) (\<lambda>_. 0) scripted array (length array) rs = ret (goal, []))"
proof (intro conjI shuffle_permutes_array [OF assms(1,2) refl])
  show "\<exists>rs. set rs \<subseteq> {0..INT_MAX} \<and> shuffle (\<lambda>s w. w) (\<lambda>_. 0) scripted array (length array) rs = ret (goal, [])"
  proof (cases "length array \<le> 1")
    case True
    then have "goal = array" using mset_short_eq [OF assms(4)] by simp
    then show ?thesis using True by (intro exI [of _ "[]"]) (simp add: shuffle_def)
  next
    case False
    then show ?thesis
      using shuffle_loop_reaches [OF refl assms(3) _ assms(4), of 0] by (auto simp: shuffle_def)
  qed
qed

theorem shuffle_correct_witness:
  "\<exists>rs. shuffle (\<lambda>s w. w) (\<lambda>_. 0) scripted [0, 1, 2] 3 rs = ret ([2, 0, 1], [])"
  using shuffle_correct [OF heap_random, of "\<lambda>s h. h" "[0, 1, 2]" "[2, 0, 1]" "\<lambda>_. 0" "demo_heap []"] by (auto simp: INT_MAX_def numeral_3_eq_3)

text \<open>C19: with room for at least one pointer and at most \<open>2 ^ 32 - 1\<close> of them, the benchmark follows \<open>iters\<close> pointers
  through a permutation of the array, from its first element, never leaves the array, and gives the memory back.\<close>

theorem test_cache_correct:
  assumes "allocator malloc free blocks" and "random_source rand blocks" and "\<forall>s w. blocks (srand s w) = blocks w"
    and "8 \<le> mem_size" and "mem_size < 0x800000000"
  shows "\<exists>p w'. test_cache malloc free srand time rand mem_size iters w = ret (p, w') \<and> blocks w' = blocks w \<and>
    (p \<noteq> None \<longrightarrow> (\<exists>array. mset array = mset [0..<unat (mem_size div 8)] \<and>
       p = Some (((!) array ^^ Suc (unat iters)) 0)))"
proof -
  define n where "n = unat (ucast (mem_size div 8) :: u32)"
  have "unat (mem_size div 8) < 2 ^ 32" "0 < unat (mem_size div 8)"
    using assms(4,5) by (simp_all add: unat_div word_le_nat_alt word_less_nat_alt)
  then have n: "n = unat (mem_size div 8)" "0 < n" by (simp_all add: n_def unsigned_ucast_eq unsigned_take_bit_eq take_bit_nat_eq_self)
  obtain b w1 where b: "malloc (n * 8) w = (b, w1)" by fastforce
  show ?thesis
  proof (cases b)
    case None
    then show ?thesis using b allocator.malloc_blocks [OF assms(1) b] by (simp add: test_cache_def Let_def flip: n_def)
  next
    case (Some a)
    have "length [0..<n] = n" by simp
    from shuffle_permutes_array [OF assms(2,3) this, of time w1] obtain array w2 where
      s: "shuffle srand time rand [0..<n] n w1 = ret (array, w2)" "mset array = mset [0..<n]" "blocks w2 = blocks w1"
      by blast
    have len: "length array = n" using s(2) by (metis length_upt diff_zero size_mset)
    have inside: "\<forall>x \<in> set array. x < length array" using mset_eq_setD [OF s(2)] len by simp
    let ?q = "((!) array ^^ (unat (iters div 100) * 100)) 0"
    let ?r = "((!) array ^^ unat (iters - iters div 100 * 100)) ?q"
    have q: "hundreds array (unat (iters div 100)) 0 = ret ?q" "?q < length array"
      using hundreds_result [OF inside, of 0 "unat (iters div 100)"] n(2) len by simp_all
    have r: "ones array (unat (iters - iters div 100 * 100)) ?q = ret ?r" "?r < length array"
      using ones_result [OF inside q(2)] by blast+
    have "?r = ((!) array ^^ unat iters) 0"
      using funpow_add_apply [of "unat (iters div 100) * 100" "unat (iters - iters div 100 * 100)" "(!) array" 0]
      by (simp only: rounds_and_rest)
    moreover have "test_cache malloc free srand time rand mem_size iters w = ret (Some (array ! ?r), free b w2)"
      using b Some s(1) q(1) r by (simp add: test_cache_def Let_def one_def flip: n_def)
    ultimately show ?thesis using s n(1) allocator.free_malloc [OF assms(1) b s(3)] by auto
  qed
qed

theorem test_cache_correct_witness:
  "\<exists>p h. test_cache heap_malloc heap_free (\<lambda>s h. h) (\<lambda>_. 0) heap_rand 64 250 (demo_heap [5, 3]) = ret (p, h) \<and>
    heap_blocks h = {}"
  using test_cache_correct [OF heap_allocator heap_random, of "\<lambda>s h. h" 64 "\<lambda>_. 0" 250 "demo_heap [5, 3]"]
  by (auto simp: demo_heap_def)

text \<open>With less memory than one pointer, or with a size whose number of pointers loses its high bits and becomes 0,
  the benchmark follows a pointer behind the end of its empty block.\<close>

theorem empty_array_followed:
  assumes "malloc 0 w = (Some a, w')" and "ucast (mem_size div 8) = (0 :: u32)"
  shows "test_cache malloc free srand time rand mem_size iters w = stuck Out_Of_Bounds"
proof -
  have "hundreds [] k 0 = (if k = 0 then ret 0 else stuck Out_Of_Bounds)" for k
    by (cases k) (simp_all add: one_def numeral_eq_Suc)
  moreover have "ones [] k 0 = (if k = 0 then ret 0 else stuck Out_Of_Bounds)" for k
    by (cases k) (simp_all add: one_def)
  ultimately show ?thesis using assms by (simp add: test_cache_def Let_def shuffle_def one_def)
qed

theorem empty_array_followed_witness:
  "test_cache heap_malloc heap_free (\<lambda>s h. h) (\<lambda>_. 0) heap_rand 0x800000000 1 (demo_heap []) = stuck Out_Of_Bounds"
  by (rule empty_array_followed [where a = 1]) (simp_all add: heap_malloc_def demo_heap_def)

end
