(* ===== verification/Regex_Demos.thy ===== *)
theory Regex_Demos
  imports Libc
begin

text \<open>
  The three programs that try out a regular-expression library: \<^verbatim>\<open>pcredemo/pcredemo.c\<close>, \<^verbatim>\<open>re2demo/main.cpp\<close> and
  \<^verbatim>\<open>hyperscan-test/main.c\<close>.  The libraries are parameters.  What they allocate for the programs are blocks with an
  address; \<open>blocks\<close> is the set of those that are live.  What a program prints is part of its result.
\<close>

subsection \<open>Printing a part of the subject\<close>

text \<open>
  \<open>printf("%.*s", n, s + off)\<close> prints at most \<open>n\<close> characters from \<open>off\<close> on, all of them when \<open>n\<close> is negative.  With
  \<open>n = 0\<close> nothing is read, so an unset submatch, with both offsets -1, prints nothing.
\<close>

definition print_slice :: "string \<Rightarrow> int \<Rightarrow> int \<Rightarrow> string run" where
  "print_slice s off n =
     (if n = 0 then ret []
      else if off < 0 \<or> int (length s) < off then stuck Out_Of_Bounds
      else if n < 0 then ret (drop (nat off) s) else ret (take (nat n) (drop (nat off) s)))"

definition int_at :: "int list \<Rightarrow> nat \<Rightarrow> int run" where
  "int_at v i = (if i < length v then ret (v ! i) else stuck Out_Of_Bounds)"

text \<open>The loop that both demos print the submatches with: number, offsets and text.\<close>

fun print_submatches :: "string \<Rightarrow> int list \<Rightarrow> nat list \<Rightarrow> (nat \<times> int \<times> int \<times> string) list run" where
  "print_submatches subject ovector [] = ret []"
| "print_submatches subject ovector (i # is) =
     seq (int_at ovector (2 * i)) (\<lambda>lo. seq (int_at ovector (2 * i + 1)) (\<lambda>hi.
       seq (print_slice subject lo (hi - lo)) (\<lambda>text.
         seq (print_submatches subject ovector is) (\<lambda>rest. ret ((i + 1, lo, hi, text) # rest)))))"

subsection \<open>PCRE\<close>

record 'w pcre =
  pcre_compile :: "string \<Rightarrow> 'w \<Rightarrow> (addr option \<times> int) \<times> 'w"
  pcre_study :: "addr option \<Rightarrow> 'w \<Rightarrow> (addr option \<times> bool) \<times> 'w"
  pcre_exec :: "addr option \<Rightarrow> addr option \<Rightarrow> string \<Rightarrow> int \<Rightarrow> int \<Rightarrow> int list \<Rightarrow> 'w \<Rightarrow> (int \<times> int list) \<times> 'w"
  pcre_free :: "addr option \<Rightarrow> 'w \<Rightarrow> 'w"
  pcre_free_study :: "addr option \<Rightarrow> 'w \<Rightarrow> 'w"
  PCRE_ERROR_NOMATCH :: int
  PCRE_ERROR_NULL :: int
  PCRE_ERROR_BADOPTION :: int
  PCRE_ERROR_BADMAGIC :: int
  PCRE_ERROR_UNKNOWN_NODE :: int
  PCRE_ERROR_NOMEMORY :: int
  PCRE_ERROR_MATCHLIMIT :: int
  PCRE_ERROR_RECURSIONLIMIT :: int

definition OVECCOUNT :: nat where "OVECCOUNT = 30"

datatype report =
    Usage | Bad_Offset int | No_Compile int | No_Study | Failed string
  | Matched int int bool "(nat \<times> int \<times> int \<times> string) list"

definition pcre_message :: "'w pcre \<Rightarrow> int \<Rightarrow> string" where
  "pcre_message lib rc =
     (if rc = PCRE_ERROR_NOMATCH lib then ''String did not match the pattern''
      else if rc = PCRE_ERROR_NULL lib then ''Something was null''
      else if rc = PCRE_ERROR_BADOPTION lib then ''A bad option was passed''
      else if rc = PCRE_ERROR_BADMAGIC lib then ''Magic number bad (compiled re corrupt?)''
      else if rc = PCRE_ERROR_UNKNOWN_NODE lib then ''Something kooky in the compiled re''
      else if rc = PCRE_ERROR_NOMEMORY lib then ''Ran out of memory''
      else if rc = PCRE_ERROR_MATCHLIMIT lib then ''Too many matches''
      else if rc = PCRE_ERROR_RECURSIONLIMIT lib then ''Too large recursion degree''
      else ''Unknown error'')"

text \<open>\<open>ovector\<close> is uninitialised, so what it holds at first is an argument.\<close>

definition pcre_main ::
  "'w pcre \<Rightarrow> (string \<Rightarrow> int) \<Rightarrow> int list \<Rightarrow> string list \<Rightarrow> 'w \<Rightarrow> (int \<times> report \<times> 'w) run" where
  "pcre_main lib atoi ovector argv w =
     (if length argv \<noteq> 4 then ret (1, Usage, w)
      else let pattern = argv ! 1; subject = argv ! 2; startoffset = atoi (argv ! 3);
               subject_length = to_int (int (length subject)) in
        if startoffset < 0 \<or> startoffset \<ge> subject_length then ret (1, Bad_Offset startoffset, w)
        else let ((re, erroffset), w) = pcre_compile lib pattern w in
          if re = None then ret (1, No_Compile erroffset, w)
          else let ((sd, error), w) = pcre_study lib re w in
            if error then ret (1, No_Study, pcre_free lib re w)
            else let ((rc, ovector), w) = pcre_exec lib re sd subject subject_length startoffset ovector w in
              if rc < 0 then
                ret (1, Failed (pcre_message lib rc), pcre_free_study lib sd (pcre_free lib re w))
              else seq (int_at ovector 0) (\<lambda>offset.
                let full = (rc = 0); n = (if full then OVECCOUNT div 3 else nat rc) in
                seq (print_submatches subject ovector [0..<n]) (\<lambda>subs.
                  ret (0, Matched rc offset full subs, pcre_free_study lib sd (pcre_free lib re w)))))"

text \<open>
  What PCRE documents: compiling and studying give a new block or none, freeing gives back a block that is live, or
  nothing for \<open>NULL\<close> - of a block that is not live it promises nothing -, and \<open>pcre_exec\<close> fills
  the vector up to the result, or entirely with result 0, with offsets into the subject or -1 twice.
\<close>

definition offsets_ok :: "nat \<Rightarrow> int \<Rightarrow> int \<Rightarrow> bool" where
  "offsets_ok n lo hi \<longleftrightarrow> lo = -1 \<and> hi = -1 \<or> 0 \<le> lo \<and> lo \<le> int n \<and> 0 \<le> hi \<and> hi \<le> int n"

definition gives_block :: "('w \<Rightarrow> addr set) \<Rightarrow> addr option \<Rightarrow> 'w \<Rightarrow> 'w \<Rightarrow> bool" where
  "gives_block blocks p w w' \<longleftrightarrow>
     (case p of None \<Rightarrow> blocks w' = blocks w | Some a \<Rightarrow> a \<notin> blocks w \<and> blocks w' = insert a (blocks w))"

definition takes_block :: "('w \<Rightarrow> addr set) \<Rightarrow> (addr option \<Rightarrow> 'w \<Rightarrow> 'w) \<Rightarrow> bool" where
  "takes_block blocks f \<longleftrightarrow>
     (\<forall>p w. set_option p \<subseteq> blocks w \<longrightarrow> blocks (f p w) = blocks w - set_option p)"

definition pcre_documented :: "'w pcre \<Rightarrow> ('w \<Rightarrow> addr set) \<Rightarrow> bool" where
  "pcre_documented lib blocks \<longleftrightarrow>
     (\<forall>p w re off w'. pcre_compile lib p w = ((re, off), w') \<longrightarrow> gives_block blocks re w w') \<and>
     (\<forall>re w sd err w'. pcre_study lib re w = ((sd, err), w') \<longrightarrow>
        gives_block blocks sd w w' \<and> (err \<longrightarrow> sd = None)) \<and>
     (\<forall>re sd s n off v w rc v' w'. pcre_exec lib re sd s n off v w = ((rc, v'), w') \<longrightarrow>
        blocks w' = blocks w \<and> length v' = length v \<and> rc \<le> int (length v div 3) \<and>
        (0 \<le> rc \<longrightarrow> (\<forall>i < (if rc = 0 then length v div 3 else nat rc). offsets_ok (length s) (v' ! (2 * i)) (v' ! (2 * i + 1))))) \<and>
     takes_block blocks (pcre_free lib) \<and> takes_block blocks (pcre_free_study lib)"

lemma print_slice_ok: "offsets_ok (length s) lo hi \<Longrightarrow>
  print_slice s lo (hi - lo) = ret (if lo = hi then [] else if hi < lo then drop (nat lo) s else take (nat (hi - lo)) (drop (nat lo) s))"
  by (auto simp: offsets_ok_def print_slice_def)

definition submatch_text :: "string \<Rightarrow> int \<Rightarrow> int \<Rightarrow> string" where
  "submatch_text s lo hi =
     (if lo = hi then [] else if hi < lo then drop (nat lo) s else take (nat (hi - lo)) (drop (nat lo) s))"

lemma print_submatches_ok:
  assumes "\<forall>i \<in> set is. 2 * i + 1 < length v \<and> offsets_ok (length s) (v ! (2 * i)) (v ! (2 * i + 1))"
  shows "print_submatches s v is =
    ret (map (\<lambda>i. (i + 1, v ! (2 * i), v ! (2 * i + 1), submatch_text s (v ! (2 * i)) (v ! (2 * i + 1)))) is)"
  using assms by (induction "is") (simp_all add: int_at_def print_slice_ok submatch_text_def)

lemma freed_both:
  assumes "takes_block blocks f" "takes_block blocks g" "gives_block blocks p w w1" "gives_block blocks q w1 w2" "blocks w3 = blocks w2"
  shows "blocks (g q (f p w3)) = blocks w"
  using assms by (auto simp: takes_block_def gives_block_def split: option.splits)

lemma documented_compile:
  "pcre_documented lib blocks \<Longrightarrow> pcre_compile lib p w = ((re, off), w') \<Longrightarrow> gives_block blocks re w w'"
  unfolding pcre_documented_def by (drule conjunct1) simp

lemma documented_study:
  "pcre_documented lib blocks \<Longrightarrow> pcre_study lib re w = ((sd, err), w') \<Longrightarrow>
    gives_block blocks sd w w' \<and> (err \<longrightarrow> sd = None)"
  unfolding pcre_documented_def by blast

lemma documented_exec:
  assumes "pcre_documented lib blocks" and "pcre_exec lib re sd s n st v w = ((rc, v'), w')"
  shows "blocks w' = blocks w \<and> length v' = length v \<and> rc \<le> int (length v div 3) \<and>
      (0 \<le> rc \<longrightarrow> (\<forall>i < (if rc = 0 then length v div 3 else nat rc). offsets_ok (length s) (v' ! (2 * i)) (v' ! (2 * i + 1))))"
  using assms unfolding pcre_documented_def by (elim conjE) (metis (no_types))

lemma documented_free:
  "pcre_documented lib blocks \<Longrightarrow> takes_block blocks (pcre_free lib) \<and> takes_block blocks (pcre_free_study lib)"
  unfolding pcre_documented_def by blast

text \<open>What the program prints, from what PCRE answers.\<close>

definition pcre_report ::
  "'w pcre \<Rightarrow> string list \<Rightarrow> int \<Rightarrow> addr option \<Rightarrow> int \<Rightarrow> bool \<Rightarrow> int \<Rightarrow> int list \<Rightarrow> report" where
  "pcre_report lib argv startoffset re erroffset study_error rc v =
     (if length argv \<noteq> 4 then Usage
      else if startoffset < 0 \<or> to_int (int (length (argv ! 2))) \<le> startoffset then Bad_Offset startoffset
      else if re = None then No_Compile erroffset
      else if study_error then No_Study
      else if rc < 0 then Failed (pcre_message lib rc)
      else Matched rc (v ! 0) (rc = 0)
        (map (\<lambda>i. (i + 1, v ! (2 * i), v ! (2 * i + 1), submatch_text (argv ! 2) (v ! (2 * i)) (v ! (2 * i + 1))))
          [0..<if rc = 0 then 10 else nat rc]))"

fun report_code :: "report \<Rightarrow> int" where
  "report_code (Matched rc off full subs) = 0"
| "report_code r = 1"

lemma pcre_main_result:
  assumes "pcre_documented lib blocks" and "length ovector = OVECCOUNT"
    and re: "pcre_compile lib (argv ! 1) w = ((re, off), w1)"
    and sd: "pcre_study lib re w1 = ((sd, err), w2)"
    and ex: "pcre_exec lib re sd (argv ! 2) (to_int (int (length (argv ! 2)))) (atoi (argv ! 3)) ovector w2 = ((rc, v), w3)"
  defines "out \<equiv> pcre_report lib argv (atoi (argv ! 3)) re off err rc v"
  shows "\<exists>w'. pcre_main lib atoi ovector argv w = ret (report_code out, out, w') \<and> blocks w' = blocks w"
proof (cases "length argv = 4 \<and> 0 \<le> atoi (argv ! 3) \<and> atoi (argv ! 3) < to_int (int (length (argv ! 2)))")
  case False
  then show ?thesis by (auto simp: pcre_main_def out_def pcre_report_def Let_def not_less not_le)
next
  case True
  let ?s = "argv ! 2"
  note re' = documented_compile [OF assms(1) re] and sd' = documented_study [OF assms(1) sd]
  note frees = documented_free [OF assms(1), THEN conjunct1] documented_free [OF assms(1), THEN conjunct2]
  have ex': "blocks w3 = blocks w2" "length v = 30" "rc \<le> 10"
    "0 \<le> rc \<longrightarrow> (\<forall>i < (if rc = 0 then 10 else nat rc). offsets_ok (length ?s) (v ! (2 * i)) (v ! (2 * i + 1)))"
    using documented_exec [OF assms(1) ex] assms(2) by (simp_all add: OVECCOUNT_def)
  note args = True and sd_block = conjunct1 [OF sd']
  note freed = freed_both [OF frees re' sd_block ex'(1)]
  note run = pcre_main_def out_def pcre_report_def Let_def
  consider "re = None" | "re \<noteq> None" "err" | "re \<noteq> None" "\<not> err" "rc < 0" | "re \<noteq> None" "\<not> err" "0 \<le> rc" by fastforce
  then show ?thesis
  proof cases
    case 1
    then show ?thesis using args re re' by (simp add: run gives_block_def)
  next
    case 2
    then have "blocks (pcre_free lib re w2) = blocks w"
      using re' sd' frees(1) by (auto simp: gives_block_def takes_block_def split: option.splits)
    then show ?thesis using args re sd 2 by (auto simp: run)
  next
    case 3
    have "out = Failed (pcre_message lib rc)" using args 3 by (simp add: out_def pcre_report_def)
    moreover have "pcre_main lib atoi ovector argv w =
        ret (1, Failed (pcre_message lib rc), pcre_free_study lib sd (pcre_free lib re w3))"
      using args 3 re sd ex by (simp add: pcre_main_def Let_def)
    ultimately show ?thesis using freed by simp
  next
    case 4
    define n where "n = (if rc = 0 then 10 else nat rc)"
    have "\<forall>i \<in> set [0..<n]. 2 * i + 1 < length v \<and> offsets_ok (length ?s) (v ! (2 * i)) (v ! (2 * i + 1))"
      using ex'(2-4) 4 by (auto simp: n_def split: if_splits)
    note printed = print_submatches_ok [OF this]
    have "pcre_main lib atoi ovector argv w = ret (0, out, pcre_free_study lib sd (pcre_free lib re w3))"
      using args 4 re sd ex printed ex'(2)
      by (auto simp: run int_at_def OVECCOUNT_def n_def)
    moreover have "report_code out = 0" using args 4 by (simp add: run)
    ultimately show ?thesis using freed by simp
  qed
qed

text \<open>A PCRE that matches the whole subject, with two groups, over the concrete heap.\<close>

definition demo_pcre :: "heap pcre" where
  "demo_pcre =
     \<lparr>pcre_compile = \<lambda>p h. let (re, h) = heap_malloc 1 h in ((re, 0), h),
      pcre_study = \<lambda>re h. let (sd, h) = heap_malloc 1 h in ((sd, False), h),
      pcre_exec = \<lambda>re sd s n st v h.
        (if 9 \<le> length v \<and> s \<noteq> [] then (3, [0, int (length s), -1, -1, 1, int (length s)] @ drop 6 v) else (-1, v), h),
      pcre_free = heap_free, pcre_free_study = heap_free,
      PCRE_ERROR_NOMATCH = -1, PCRE_ERROR_NULL = -2, PCRE_ERROR_BADOPTION = -3, PCRE_ERROR_BADMAGIC = -4,
      PCRE_ERROR_UNKNOWN_NODE = -5, PCRE_ERROR_NOMEMORY = -6, PCRE_ERROR_MATCHLIMIT = -8,
      PCRE_ERROR_RECURSIONLIMIT = -21\<rparr>"

lemma heap_gives_block: "heap_malloc n h = (p, h') \<Longrightarrow> gives_block heap_blocks p h h'"
  by (auto simp: gives_block_def heap_malloc_def split: if_splits)

lemma heap_takes_block: "takes_block heap_blocks heap_free"
  by (auto simp: takes_block_def heap_free_def split: option.splits)

lemma demo_offsets:
  assumes "s \<noteq> []" and "i < 3" and "v = [0, int (length s), -1, -1, 1, int (length s)] @ u"
  shows "offsets_ok (length s) (v ! (2 * i)) (v ! (2 * i + 1))"
proof -
  consider "i = 0" | "i = 1" | "i = 2" using assms(2) by linarith
  then show ?thesis using assms(1) by cases (simp_all add: assms(3) offsets_ok_def Suc_le_eq)
qed

lemma demo_pcre_documented: "pcre_documented demo_pcre heap_blocks"
proof -
  have exec: "(0 \<le> rc \<longrightarrow> (\<forall>i < (if rc = 0 then length v div 3 else nat rc). offsets_ok (length s) (v' ! (2 * i)) (v' ! (2 * i + 1))))"
      "heap_blocks w' = heap_blocks w" "length v' = length v" "rc \<le> int (length v div 3)"
    if ex: "pcre_exec demo_pcre re sd s n off v w = ((rc, v'), w')" for re sd s n off v w rc v' w'
  proof -
    consider "rc = 3" "v' = [0, int (length s), -1, -1, 1, int (length s)] @ drop 6 v" "s \<noteq> []" "9 \<le> length v" "w' = w"
      | "rc = -1" "v' = v" "w' = w"
      using ex by (simp add: demo_pcre_def split: if_splits)
    note cases = this
    show "(0 \<le> rc \<longrightarrow> (\<forall>i < (if rc = 0 then length v div 3 else nat rc). offsets_ok (length s) (v' ! (2 * i)) (v' ! (2 * i + 1))))"
      using cases
    proof cases
      case 1
      then show ?thesis using demo_offsets [OF 1(3) _ 1(2)] 1(1) by simp
    qed simp
    show "heap_blocks w' = heap_blocks w" using cases by cases simp_all
    show "length v' = length v" using cases by cases simp_all
    show "rc \<le> int (length v div 3)" using cases by cases simp_all
  qed
  have compile: "gives_block heap_blocks re w w'" if "pcre_compile demo_pcre p w = ((re, off), w')" for p w re off w'
    using that heap_gives_block [of 1 w] by (auto simp: demo_pcre_def split: prod.splits)
  have study: "gives_block heap_blocks sd w w' \<and> (err \<longrightarrow> sd = None)" if "pcre_study demo_pcre re w = ((sd, err), w')" for re w sd err w'
    using that heap_gives_block [of 1 w] by (auto simp: demo_pcre_def split: prod.splits)
  have free: "takes_block heap_blocks (pcre_free demo_pcre) \<and> takes_block heap_blocks (pcre_free_study demo_pcre)"
    using heap_takes_block by (simp add: demo_pcre_def)
  show ?thesis
    unfolding pcre_documented_def
    by (intro conjI allI impI; (rule free [THEN conjunct1] free [THEN conjunct2] | erule compile exec(1) [rule_format] exec study [THEN conjunct1]
      study [THEN conjunct2, rule_format]); assumption?)
qed

subsection \<open>RE2\<close>

text \<open>
  \<open>submatches\<close> after a successful \<open>Match\<close>: position and length, or \<open>None\<close> where \<open>data()\<close> is \<open>NULL\<close>.  The walk down
  from the last one must meet one that is set.
\<close>

type_synonym submatch = "(int \<times> int) option"

fun last_set :: "submatch list \<Rightarrow> nat \<Rightarrow> nat run" where
  "last_set subs 0 = (if 0 < length subs \<and> subs ! 0 \<noteq> None then ret 0 else stuck Out_Of_Bounds)"
| "last_set subs (Suc i) =
     (if Suc i < length subs then if subs ! Suc i \<noteq> None then ret (Suc i) else last_set subs i
      else stuck Out_Of_Bounds)"

definition offsets :: "submatch \<Rightarrow> int list" where
  "offsets m = (case m of None \<Rightarrow> [-1, -1] | Some (pos, n) \<Rightarrow> [pos, pos + n])"

fun fill_ovector :: "submatch list \<Rightarrow> nat list \<Rightarrow> int list \<Rightarrow> int list run" where
  "fill_ovector subs [] v = ret v"
| "fill_ovector subs (i # is) v =
     (if i < length subs \<and> 2 * i + 1 < length v
      then fill_ovector subs is (v[2 * i := offsets (subs ! i) ! 0, 2 * i + 1 := offsets (subs ! i) ! 1])
      else stuck Out_Of_Bounds)"

text \<open>
  The loop from \<open>n - 1\<close> down to 0.  Lengths and offsets are numbers that do not wrap; the source has them in \<^verbatim>\<open>int\<close> and
  \<^verbatim>\<open>unsigned int\<close>, which is the same for subjects below 2 GB.
\<close>

fun set_below :: "submatch list \<Rightarrow> nat \<Rightarrow> int" where
  "set_below subs 0 = 0"
| "set_below subs (Suc i) = (if subs ! i \<noteq> None then int i + 1 else set_below subs i)"

definition msc_regexec_ex ::
  "nat \<Rightarrow> (string \<Rightarrow> nat \<Rightarrow> nat \<Rightarrow> nat \<Rightarrow> submatch list option) \<Rightarrow> string \<Rightarrow> nat \<Rightarrow> nat \<Rightarrow> int list \<Rightarrow> nat \<Rightarrow> (int \<times> int list) run" where
  "msc_regexec_ex groups match_re s slen startoffset ovector ovecsize =
     (let num_submatch = 1 + groups in
      case match_re s startoffset slen num_submatch of
        None \<Rightarrow> ret (-1, ovector)
      | Some subs \<Rightarrow>
          seq (last_set subs (num_submatch - 1)) (\<lambda>last_nonempty.
            let cap = ovecsize div 3; cnt = min (last_nonempty + 1) cap in
            seq (fill_ovector subs [0..<cnt] ovector) (\<lambda>v.
              if last_nonempty + 1 \<le> cap then ret (int last_nonempty + 1, v)
              else if cap = 0 then stuck Out_Of_Bounds
              else if subs ! (cap - 1) = None then ret (set_below subs (cap - 1), v)
              else ret (0, v))))"

datatype re2_report = Re2_Usage | Re2_Bad_Offset int | Re2_No_Compile | Re2_No_Match
  | Re2_Matched int int bool "(nat \<times> int \<times> int \<times> string) list"

text \<open>\<open>compile_re\<close> gives the number of groups and the matcher of a pattern, or \<open>None\<close> when it is not \<open>ok\<close>.\<close>

definition re2_main ::
  "(string \<Rightarrow> (nat \<times> (string \<Rightarrow> nat \<Rightarrow> nat \<Rightarrow> nat \<Rightarrow> submatch list option)) option) \<Rightarrow> (string \<Rightarrow> int) \<Rightarrow>
    int list \<Rightarrow> string list \<Rightarrow> (int \<times> re2_report) run" where
  "re2_main compile_re atoi ovector argv =
     (if length argv \<noteq> 4 then ret (-1, Re2_Usage)
      else let subject = argv ! 2; startoffset = atoi (argv ! 3) in
        if startoffset < 0 \<or> startoffset \<ge> int (length subject) then ret (-1, Re2_Bad_Offset startoffset)
        else case compile_re (argv ! 1) of
          None \<Rightarrow> ret (-1, Re2_No_Compile)
        | Some (groups, match_re) \<Rightarrow>
            seq (msc_regexec_ex groups match_re subject (length subject) (nat startoffset) ovector 30) (\<lambda>(rc, ovector).
              if rc < 0 then ret (0, Re2_No_Match)
              else seq (int_at ovector 0) (\<lambda>offset.
                let full = (rc = 0); n = (if full then 30 div 3 else nat rc) in
                seq (print_submatches subject ovector [0..<n]) (\<lambda>subs.
                  ret (0, Re2_Matched rc offset full subs)))))"

lemma last_set_result:
  assumes "i < length subs" and "subs ! 0 \<noteq> None"
  shows "\<exists>k \<le> i. last_set subs i = ret k \<and> subs ! k \<noteq> None \<and> (\<forall>j. k < j \<longrightarrow> j \<le> i \<longrightarrow> subs ! j = None)"
  using assms(1)
proof (induction i)
  case 0
  then show ?case using assms(2) by auto
next
  case (Suc i)
  then obtain k where k: "k \<le> i" "last_set subs i = ret k" "subs ! k \<noteq> None" "\<forall>j. k < j \<longrightarrow> j \<le> i \<longrightarrow> subs ! j = None"
    by auto
  show ?case
  proof (cases "subs ! Suc i")
    case None
    then show ?thesis using k Suc.prems by (intro exI [of _ k]) (auto simp: le_Suc_eq)
  next
    case (Some x)
    then show ?thesis using Suc.prems by (intro exI [of _ "Suc i"]) auto
  qed
qed

lemma length_offsets [simp]: "length (offsets m) = 2"
  by (simp add: offsets_def split: option.split)

lemma length_concat_offsets [simp]: "length (concat (map offsets ms)) = 2 * length ms"
  by (induction ms) auto

lemma fill_ovector_snoc:
  "fill_ovector subs (is @ [i]) v = seq (fill_ovector subs is v) (fill_ovector subs [i])"
  by (induction "is" arbitrary: v) simp_all

lemma offsets_list: "[offsets m ! 0, offsets m ! 1] = offsets m"
  by (simp add: offsets_def split: option.split)

lemma fill_ovector_result:
  assumes "n \<le> length subs" and "2 * n \<le> length v"
  shows "fill_ovector subs [0..<n] v = ret (concat (map offsets (take n subs)) @ drop (2 * n) v)"
  using assms
proof (induction n)
  case 0
  then show ?case by simp
next
  case (Suc n)
  let ?front = "concat (map offsets (take n subs))"
  have front: "length ?front = 2 * n" using Suc.prems by simp
  have "drop (2 * n) v = v ! (2 * n) # v ! (2 * n + 1) # drop (2 * Suc n) v"
    using Suc.prems by (simp add: Cons_nth_drop_Suc)
  then have "(?front @ drop (2 * n) v)[2 * n := offsets (subs ! n) ! 0, 2 * n + 1 := offsets (subs ! n) ! 1]
      = ?front @ [offsets (subs ! n) ! 0, offsets (subs ! n) ! 1] @ drop (2 * Suc n) v"
    using front by (simp add: list_update_append)
  also have "\<dots> = concat (map offsets (take (Suc n) subs)) @ drop (2 * Suc n) v"
    using Suc.prems by (simp add: offsets_list [simplified] take_Suc_conv_app_nth)
  finally show ?case
    using Suc by (simp add: fill_ovector_snoc)
qed

lemma set_below_result:
  assumes "subs ! 0 \<noteq> None" "0 < n"
  shows "\<exists>k. set_below subs n = int k \<and> 0 < k \<and> k \<le> n \<and> subs ! (k - 1) \<noteq> None \<and> (\<forall>j. k \<le> j \<longrightarrow> j < n \<longrightarrow> subs ! j = None)"
  using assms(2)
proof (induction n)
  case 0
  then show ?case by simp
next
  case (Suc n)
  show ?case
  proof (cases "subs ! n")
    case None
    then have "0 < n" using assms(1) by (cases n) auto
    from Suc.IH [OF this] None show ?thesis by (auto simp: less_Suc_eq)
  next
    case (Some x)
    then show ?thesis by (intro exI [of _ "Suc n"]) auto
  qed
qed

lemma msc_regexec_ex_result:
  assumes "match_re s start slen (1 + groups) = Some subs" and "length subs = 1 + groups" and "subs ! 0 \<noteq> None"
    and "3 \<le> ovecsize" and "2 * (ovecsize div 3) \<le> length ovector"
  defines "cap \<equiv> ovecsize div 3"
  shows "\<exists>m r. 0 < m \<and> m \<le> length subs \<and> subs ! (m - 1) \<noteq> None \<and> (\<forall>j. m \<le> j \<longrightarrow> j < length subs \<longrightarrow> subs ! j = None) \<and>
    msc_regexec_ex groups match_re s slen start ovector ovecsize =
      ret (r, concat (map offsets (take (min m cap) subs)) @ drop (2 * min m cap) ovector) \<and>
    (if m \<le> cap then r = int m
     else if subs ! (cap - 1) \<noteq> None then r = 0
     else 0 < r \<and> r < int cap \<and> subs ! (nat r - 1) \<noteq> None \<and> (\<forall>j. nat r \<le> j \<longrightarrow> j < cap \<longrightarrow> subs ! j = None))"
proof -
  have cap: "0 < cap" using assms(4) unfolding cap_def by simp
  have "groups < length subs" using assms(2) by simp
  from last_set_result [OF this assms(3)] obtain k where
    k: "k \<le> groups" "last_set subs groups = ret k" "subs ! k \<noteq> None" "\<forall>j. k < j \<longrightarrow> j \<le> groups \<longrightarrow> subs ! j = None"
    by blast
  have fill: "fill_ovector subs [0..<min (Suc k) cap] ovector =
      ret (concat (map offsets (take (min (Suc k) cap) subs)) @ drop (2 * min (Suc k) cap) ovector)"
  proof (rule fill_ovector_result)
    show "min (Suc k) cap \<le> length subs" using k(1) assms(2) by simp
    have "min (Suc k) cap \<le> cap" by simp
    then show "2 * min (Suc k) cap \<le> length ovector" using mult_le_mono2 [of "min (Suc k) cap" cap 2] assms(5)
      unfolding cap_def by (meson order_trans)
  qed
  define r where "r = (if Suc k \<le> cap then int (Suc k) else if subs ! (cap - 1) = None then set_below subs (cap - 1) else 0)"
  have run: "msc_regexec_ex groups match_re s slen start ovector ovecsize =
      ret (r, concat (map offsets (take (min (Suc k) cap) subs)) @ drop (2 * min (Suc k) cap) ovector)"
    using assms(1) k(2) fill cap by (simp add: msc_regexec_ex_def Let_def r_def flip: cap_def)
  have result: "if Suc k \<le> cap then r = int (Suc k)
     else if subs ! (cap - 1) \<noteq> None then r = 0
     else 0 < r \<and> r < int cap \<and> subs ! (nat r - 1) \<noteq> None \<and> (\<forall>j. nat r \<le> j \<longrightarrow> j < cap \<longrightarrow> subs ! j = None)"
  proof (cases "\<not> Suc k \<le> cap \<and> subs ! (cap - 1) = None")
    case False
    then show ?thesis by (auto simp: r_def)
  next
    case True
    then have "0 < cap - 1" using assms(3) cap by (cases "cap - 1") auto
    from set_below_result [OF assms(3) this] obtain i where
      i: "set_below subs (cap - 1) = int i" "0 < i" "i \<le> cap - 1" "subs ! (i - 1) \<noteq> None"
        "\<forall>j. i \<le> j \<longrightarrow> j < cap - 1 \<longrightarrow> subs ! j = None" by blast
    have "subs ! j = None" if "i \<le> j" "j < cap" for j
      using i(5) True that by (cases "j = cap - 1") auto
    then show ?thesis using True i cap by (auto simp: r_def)
  qed
  have "\<forall>j. Suc k \<le> j \<longrightarrow> j < length subs \<longrightarrow> subs ! j = None" using k(4) assms(2) by auto
  then show ?thesis using run result k(1,3) assms(2) by (intro exI [of _ "Suc k"] exI [of _ r]) auto
qed

subsection \<open>Hyperscan\<close>

record 'w hyperscan =
  hs_compile :: "string \<Rightarrow> 'w \<Rightarrow> (bool \<times> addr option \<times> addr option) \<times> 'w"
  hs_alloc_scratch :: "addr option \<Rightarrow> 'w \<Rightarrow> (bool \<times> addr option) \<times> 'w"
  hs_scan :: "addr option \<Rightarrow> string \<Rightarrow> addr option \<Rightarrow> 'w \<Rightarrow> (bool \<times> (int \<times> int) list) \<times> 'w"
  hs_free_compile_error :: "addr option \<Rightarrow> 'w \<Rightarrow> 'w"
  hs_free_scratch :: "addr option \<Rightarrow> 'w \<Rightarrow> 'w"
  hs_free_database :: "addr option \<Rightarrow> 'w \<Rightarrow> 'w"

text \<open>\<open>eventHandler\<close> prints the pattern and the two offsets of a match, and asks for more.\<close>

definition eventHandler :: "string \<Rightarrow> int \<times> int \<Rightarrow> string \<times> int \<times> int" where
  "eventHandler ctx m = (ctx, m)"

definition hs_main ::
  "'w hyperscan \<Rightarrow> string list \<Rightarrow> 'w \<Rightarrow> (int \<times> (string \<times> int \<times> int) list \<times> 'w) run" where
  "hs_main lib argv w =
     (if length argv \<noteq> 3 then ret (-1, [], w)
      else let pattern = argv ! 1; subject = argv ! 2; ((ok, database, compile_err), w) = hs_compile lib pattern w in
        if \<not> ok then
          (if compile_err = None then stuck Null_Deref else ret (-1, [], hs_free_compile_error lib compile_err w))
        else let ((ok, scratch), w) = hs_alloc_scratch lib database w in
          if \<not> ok then ret (-1, [], hs_free_database lib database w)
          else let ((ok, matches), w) = hs_scan lib database subject scratch w;
                   out = map (eventHandler pattern) matches
            in if \<not> ok then ret (-1, out, hs_free_database lib database (hs_free_scratch lib scratch w))
               else ret (0, out, hs_free_database lib database (hs_free_scratch lib scratch w)))"

definition hs_documented :: "'w hyperscan \<Rightarrow> ('w \<Rightarrow> addr set) \<Rightarrow> bool" where
  "hs_documented lib blocks \<longleftrightarrow>
     (\<forall>p w ok db err w'. hs_compile lib p w = ((ok, db, err), w') \<longrightarrow>
        (if ok then gives_block blocks db w w' \<and> err = None
         else gives_block blocks err w w' \<and> db = None \<and> err \<noteq> None)) \<and>
     (\<forall>db w ok sc w'. hs_alloc_scratch lib db w = ((ok, sc), w') \<longrightarrow> gives_block blocks sc w w' \<and> (ok \<or> sc = None)) \<and>
     (\<forall>db s sc w r w'. hs_scan lib db s sc w = (r, w') \<longrightarrow> blocks w' = blocks w) \<and>
     takes_block blocks (hs_free_compile_error lib) \<and> takes_block blocks (hs_free_scratch lib) \<and>
     takes_block blocks (hs_free_database lib)"

lemma freed_one: "takes_block blocks f \<Longrightarrow> gives_block blocks p w w1 \<Longrightarrow> blocks w2 = blocks w1 \<Longrightarrow> blocks (f p w2) = blocks w"
  by (auto simp: takes_block_def gives_block_def split: option.splits)

lemma hs_main_result:
  assumes "hs_documented lib blocks"
  shows "\<exists>code out w'. hs_main lib argv w = ret (code, out, w') \<and> blocks w' = blocks w \<and> code \<in> {0, -1}"
proof (cases "length argv = 3")
  case False
  then show ?thesis by (simp add: hs_main_def)
next
  case args: True
  obtain ok db err w1 where c: "hs_compile lib (argv ! 1) w = ((ok, db, err), w1)" by (metis surj_pair)
  obtain ok2 sc w2 where a: "hs_alloc_scratch lib db w1 = ((ok2, sc), w2)" by (metis surj_pair)
  obtain ok3 ms w3 where s: "hs_scan lib db (argv ! 2) sc w2 = ((ok3, ms), w3)" by (metis surj_pair)
  note doc = assms [unfolded hs_documented_def]
  have c': "if ok then gives_block blocks db w w1 \<and> err = None else gives_block blocks err w w1 \<and> db = None \<and> err \<noteq> None"
    using doc [THEN conjunct1] c by (metis (no_types, lifting))
  have a': "gives_block blocks sc w1 w2" "ok2 \<or> sc = None" using doc a by blast+
  have s': "blocks w3 = blocks w2" using doc s by blast
  have frees: "takes_block blocks (hs_free_compile_error lib)" "takes_block blocks (hs_free_scratch lib)"
    "takes_block blocks (hs_free_database lib)" using doc by blast+
  have both: "blocks (hs_free_database lib db (hs_free_scratch lib sc w3)) = blocks w" if ok
    using frees(2,3) c' a'(1) s' that by (auto simp: takes_block_def gives_block_def split: option.splits)
  consider "\<not> ok" | "ok" "\<not> ok2" | "ok" "ok2" by blast
  then show ?thesis
  proof cases
    case 1
    then have "hs_main lib argv w = ret (-1, [], hs_free_compile_error lib err w1)"
      using args c c' by (simp add: hs_main_def Let_def)
    then show ?thesis using freed_one [OF frees(1), of err w w1 w1] c' 1 by simp
  next
    case 2
    then have "hs_main lib argv w = ret (-1, [], hs_free_database lib db w2)"
      using args c a by (simp add: hs_main_def Let_def)
    moreover have "blocks w2 = blocks w1" using a' 2 by (simp add: gives_block_def)
    ultimately show ?thesis using freed_one [OF frees(3), of db w w1 w2] c' 2 by simp
  next
    case 3
    then show ?thesis using args c a s both by (simp add: hs_main_def Let_def)
  qed
qed

text \<open>A Hyperscan that reports the whole subject, over the concrete heap.\<close>

definition demo_hs :: "heap hyperscan" where
  "demo_hs =
     \<lparr>hs_compile = \<lambda>p h. let (db, h) = heap_malloc 1 h in ((True, db, None), h),
      hs_alloc_scratch = \<lambda>db h. let (sc, h') = heap_malloc 1 h in ((sc \<noteq> None, sc), h'),
      hs_scan = \<lambda>db s sc h. ((True, [(0, int (length s))]), h),
      hs_free_compile_error = heap_free, hs_free_scratch = heap_free, hs_free_database = heap_free\<rparr>"

lemma demo_hs_documented: "hs_documented demo_hs heap_blocks"
  unfolding hs_documented_def demo_hs_def
  by (auto simp: heap_takes_block heap_gives_block split: prod.splits if_splits)

subsection \<open>Properties\<close>

text \<open>C22: whatever PCRE answers, the demonstration returns, reads only inside its vector and its subject, and frees the
  compiled pattern and the study data exactly once on every path.  What it prints is PCRE's answer: for a result of
  \<open>pcre_exec\<close> that is not negative the submatches from 1 on, as many as the result says - ten when it is 0 -, each with its
  own two offsets from the vector and the text between them; otherwise the error, with a failing exit code.\<close>

theorem pcre_main_correct:
  assumes "pcre_documented lib blocks" and "length ovector = OVECCOUNT"
    and "pcre_compile lib (argv ! 1) w = ((re, off), w1)" and "pcre_study lib re w1 = ((sd, err), w2)"
    and "pcre_exec lib re sd (argv ! 2) (to_int (int (length (argv ! 2)))) (atoi (argv ! 3)) ovector w2 = ((rc, v), w3)"
  shows "\<exists>out w'. pcre_main lib atoi ovector argv w = ret (report_code out, out, w') \<and> blocks w' = blocks w \<and>
    out = (if length argv \<noteq> 4 then Usage
      else if atoi (argv ! 3) < 0 \<or> to_int (int (length (argv ! 2))) \<le> atoi (argv ! 3) then Bad_Offset (atoi (argv ! 3))
      else if re = None then No_Compile off
      else if err then No_Study
      else if rc < 0 then Failed (pcre_message lib rc)
      else Matched rc (v ! 0) (rc = 0)
        (map (\<lambda>i. (i + 1, v ! (2 * i), v ! (2 * i + 1), submatch_text (argv ! 2) (v ! (2 * i)) (v ! (2 * i + 1))))
          [0..<if rc = 0 then 10 else nat rc]))"
  using pcre_main_result [where atoi = atoi, OF assms, unfolded pcre_report_def] by blast

text \<open>A PCRE that finds the whole subject, and in it a first group that is not set and a second one.\<close>

theorem pcre_main_correct_witness:
  "\<exists>h. pcre_main demo_pcre (\<lambda>_. 1) (replicate 30 7) [''pcre'', ''(a)|b(b)'', ''abb'', ''1''] (demo_heap []) =
     ret (0, Matched 3 0 False [(1, 0, 3, ''abb''), (2, -1, -1, []), (3, 1, 3, ''bb'')], h) \<and>
    heap_blocks h = heap_blocks (demo_heap [])"
proof -
  let ?argv = "[''pcre'', ''(a)|b(b)'', ''abb'', ''1'']"
  obtain re off w1 where re: "pcre_compile demo_pcre (?argv ! 1) (demo_heap []) = ((re, off), w1)" by (metis surj_pair)
  obtain sd err w2 where sd: "pcre_study demo_pcre re w1 = ((sd, err), w2)" by (metis surj_pair)
  have ok: "re \<noteq> None" "\<not> err"
    using re sd by (auto simp: demo_pcre_def demo_heap_def heap_malloc_def split: prod.splits if_splits)
  have ex: "pcre_exec demo_pcre re sd (?argv ! 2) (to_int (int (length (?argv ! 2)))) ((\<lambda>_. 1) (?argv ! 3)) (replicate 30 7) w2
      = ((3, [0, 3, -1, -1, 1, 3] @ replicate 24 7), w2)"
    by (simp add: demo_pcre_def numeral_eq_Suc)
  show ?thesis
    using pcre_main_correct [OF demo_pcre_documented _ re sd ex] ok
    by (simp add: OVECCOUNT_def to_int_def submatch_text_def upt_rec numeral_2_eq_2 numeral_3_eq_3)
qed

text \<open>C20: after a match \<open>msc_regexec_ex\<close> has filled the vector with the offsets of the submatches up to the last one that
  is set, as far as they fit, and its result is their number, or 0 when they do not all fit - but when the last place
  of the vector then belongs to a submatch that is not set, it is the number up to the last set one before.\<close>

theorem msc_regexec_ex_correct:
  assumes "match_re s start slen (1 + groups) = Some subs" and "length subs = 1 + groups" and "subs ! 0 \<noteq> None"
    and "3 \<le> ovecsize" and "2 * (ovecsize div 3) \<le> length ovector"
  shows "\<exists>m r. 0 < m \<and> m \<le> length subs \<and> subs ! (m - 1) \<noteq> None \<and> (\<forall>j. m \<le> j \<longrightarrow> j < length subs \<longrightarrow> subs ! j = None) \<and>
    msc_regexec_ex groups match_re s slen start ovector ovecsize =
      ret (r, concat (map offsets (take (min m (ovecsize div 3)) subs)) @ drop (2 * min m (ovecsize div 3)) ovector) \<and>
    (if m \<le> ovecsize div 3 then r = int m
     else if subs ! (ovecsize div 3 - 1) \<noteq> None then r = 0
     else 0 < r \<and> r < int (ovecsize div 3) \<and> subs ! (nat r - 1) \<noteq> None \<and>
       (\<forall>j. nat r \<le> j \<longrightarrow> j < ovecsize div 3 \<longrightarrow> subs ! j = None))"
  by (rule msc_regexec_ex_result [of match_re s start slen groups subs ovecsize ovector, OF assms])

theorem msc_regexec_ex_correct_witness:
  "\<exists>r v. msc_regexec_ex 3 (\<lambda>s st n k. Some [Some (1, 2), None, None, Some (2, 1)]) ''abcd'' 4 1 (replicate 9 0) 9 = ret (r, v)"
proof -
  let ?subs = "[Some (1, 2), None, None, Some (2, 1)] :: submatch list"
  have fits: "2 * ((9 :: nat) div 3) \<le> length (replicate 9 (0 :: int))" and subs: "length ?subs = 1 + 3" "?subs ! 0 \<noteq> None"
    by simp_all
  show ?thesis
    using msc_regexec_ex_correct [of "\<lambda>s st n k. Some ?subs" "''abcd''" 1 4 3 ?subs 9 "replicate 9 0"] fits subs by auto
qed

text \<open>Whatever Hyperscan answers, the test frees the compile error, the scratch space and the database exactly on
  every path, and never follows a \<open>NULL\<close> error.\<close>

theorem hs_main_correct:
  assumes "hs_documented lib blocks"
  shows "\<exists>code out w'. hs_main lib argv w = ret (code, out, w') \<and> blocks w' = blocks w \<and> code \<in> {0, -1}"
  by (rule hs_main_result [OF assms])

theorem hs_main_correct_witness:
  "\<exists>code out h. hs_main demo_hs [''hs'', ''a'', ''aa''] (demo_heap []) = ret (code, out, h) \<and> heap_blocks h = {}"
  using hs_main_correct [OF demo_hs_documented, of "[''hs'', ''a'', ''aa'']" "demo_heap []"] by (auto simp: demo_heap_def)

end
