(* ===== verification/Interposers.thy ===== *)
theory Interposers
  imports Libc
begin

text \<open>
  The libraries that put themselves between a program and the functions it calls: \<open>mymalloc\<close> and \<open>myfree\<close> of
  \<^verbatim>\<open>compile-interpose/mymalloc.c\<close>, their namesakes of \<^verbatim>\<open>link-interopse/mymalloc.c\<close>, \<open>malloc\<close> and \<open>free\<close> of
  \<^verbatim>\<open>run-interpose/mymalloc.c\<close>, and \<^verbatim>\<open>rdma-monitor/rdma-monitor.c\<close>.  The functions behind them are parameters.  A
  wrapper's state is the world \<open>base\<close> behind it, the lines it has printed, and the function pointers it has
  resolved already, of which it only matters whether they are set.
\<close>

datatype line = Malloc_Line int "addr option" | Free_Line "addr option"

record 'w traced =
  base :: 'w
  printed :: "line list"

subsection \<open>Wrappers chosen when compiling and linking\<close>

definition mymalloc ::
  "(nat \<Rightarrow> 'w \<Rightarrow> addr option \<times> 'w) \<Rightarrow> nat \<Rightarrow> 'w traced \<Rightarrow> addr option \<times> 'w traced" where
  "mymalloc malloc n s =
     (let (ptr, w) = malloc n (base s) in
      (ptr, \<lparr>base = w, printed = printed s @ [Malloc_Line (to_int (int n)) ptr]\<rparr>))"

definition myfree :: "(addr option \<Rightarrow> 'w \<Rightarrow> 'w) \<Rightarrow> addr option \<Rightarrow> 'w traced \<Rightarrow> 'w traced" where
  "myfree free ptr s = \<lparr>base = free ptr (base s), printed = printed s @ [Free_Line ptr]\<rparr>"

definition wrap_malloc ::
  "(nat \<Rightarrow> 'w \<Rightarrow> addr option \<times> 'w) \<Rightarrow> nat \<Rightarrow> 'w traced \<Rightarrow> addr option \<times> 'w traced" where
  "wrap_malloc real_malloc n s =
     (let (ptr, w) = real_malloc n (base s) in
      (ptr, \<lparr>base = w, printed = printed s @ [Malloc_Line (to_int (int n)) ptr]\<rparr>))"

definition wrap_free :: "(addr option \<Rightarrow> 'w \<Rightarrow> 'w) \<Rightarrow> addr option \<Rightarrow> 'w traced \<Rightarrow> 'w traced" where
  "wrap_free real_free ptr s = \<lparr>base = real_free ptr (base s), printed = printed s @ [Free_Line ptr]\<rparr>"

text \<open>The main programs of both: a block for every argument, freed at once.  \<open>atoi\<close>'s result becomes a \<open>size_t\<close>.\<close>

fun alloc_each ::
  "(nat \<Rightarrow> 'w \<Rightarrow> addr option \<times> 'w) \<Rightarrow> (addr option \<Rightarrow> 'w \<Rightarrow> 'w) \<Rightarrow> (string \<Rightarrow> int) \<Rightarrow> string list \<Rightarrow> 'w \<Rightarrow> 'w" where
  "alloc_each malloc free atoi [] w = w"
| "alloc_each malloc free atoi (arg # args) w =
     (let (p, w) = malloc (nat (size_t (atoi arg))) w in alloc_each malloc free atoi args (free p w))"

definition compile_main ::
  "(nat \<Rightarrow> 'w \<Rightarrow> addr option \<times> 'w) \<Rightarrow> (addr option \<Rightarrow> 'w \<Rightarrow> 'w) \<Rightarrow> (string \<Rightarrow> int) \<Rightarrow> string list \<Rightarrow> 'w traced \<Rightarrow> int \<times> 'w traced" where
  "compile_main malloc free atoi argv s = (0, alloc_each (mymalloc malloc) (myfree free) atoi (tl argv) s)"

definition link_main ::
  "(nat \<Rightarrow> 'w \<Rightarrow> addr option \<times> 'w) \<Rightarrow> (addr option \<Rightarrow> 'w \<Rightarrow> 'w) \<Rightarrow> (string \<Rightarrow> int) \<Rightarrow> string list \<Rightarrow> 'w traced \<Rightarrow> int \<times> 'w traced" where
  "link_main malloc free atoi argv s = (0, alloc_each (wrap_malloc malloc) (wrap_free free) atoi (tl argv) s)"

text \<open>Both are the same text.\<close>

lemma wrap_is_mymalloc: "wrap_malloc m = mymalloc m" "wrap_free f = myfree f"
  by (intro ext, simp add: wrap_malloc_def mymalloc_def) (intro ext, simp add: wrap_free_def myfree_def)

text \<open>A wrapped heap is a heap, with the same live blocks.\<close>

definition traced_blocks :: "('w \<Rightarrow> addr set) \<Rightarrow> 'w traced \<Rightarrow> addr set" where
  "traced_blocks blocks s = blocks (base s)"

context allocator
begin

lemma mymalloc_allocator: "allocator (mymalloc malloc) (myfree free) (traced_blocks blocks)"
proof
  fix n s p s'
  assume "mymalloc malloc n s = (p, s')"
  then have "malloc n (base s) = (p, base s')" by (auto simp: mymalloc_def split: prod.splits)
  from malloc_blocks [OF this, folded traced_blocks_def]
  show "case p of None \<Rightarrow> traced_blocks blocks s' = traced_blocks blocks s
    | Some a \<Rightarrow> a \<notin> traced_blocks blocks s \<and> traced_blocks blocks s' = insert a (traced_blocks blocks s)" .
qed (simp add: traced_blocks_def myfree_def free_blocks split: option.split)

lemma alloc_each_blocks: "blocks (alloc_each malloc free atoi args w) = blocks w"
proof (induction args arbitrary: w)
  case Nil
  then show ?case by simp
next
  case (Cons arg args)
  obtain p w' where p: "malloc (nat (size_t (atoi arg))) w = (p, w')" by fastforce
  then show ?case using Cons free_malloc [OF p refl] by simp
qed

end

text \<open>The lines pair off: every allocation, and then the freeing of the very pointer it returned.\<close>

fun paired :: "line list \<Rightarrow> bool" where
  "paired [] = True"
| "paired (Malloc_Line n p # Free_Line q # ls) = (p = q \<and> paired ls)"
| "paired _ = False"

lemma paired_append: "paired xs \<Longrightarrow> paired ys \<Longrightarrow> paired (xs @ ys)"
  by (induction xs rule: paired.induct) simp_all

lemma alloc_each_traced:
  "\<exists>ls. printed (alloc_each (mymalloc malloc) (myfree free) atoi args s) = printed s @ ls \<and>
    paired ls \<and> length ls = 2 * length args \<and>
    base (alloc_each (mymalloc malloc) (myfree free) atoi args s) = alloc_each malloc free atoi args (base s)"
proof (induction args arbitrary: s)
  case Nil
  then show ?case by simp
next
  case (Cons arg args)
  define n where "n = nat (size_t (atoi arg))"
  obtain p w where p: "malloc n (base s) = (p, w)" by fastforce
  define t where "t = \<lparr>base = free p w, printed = printed s @ [Malloc_Line (to_int (int n)) p, Free_Line p]\<rparr>"
  have step: "alloc_each (mymalloc malloc) (myfree free) atoi (arg # args) s = alloc_each (mymalloc malloc) (myfree free) atoi args t"
    "alloc_each malloc free atoi (arg # args) (base s) = alloc_each malloc free atoi args (base t)"
    using p by (simp_all add: mymalloc_def myfree_def t_def flip: n_def)
  obtain ls where "printed (alloc_each (mymalloc malloc) (myfree free) atoi args t) = printed t @ ls" "paired ls"
    "length ls = 2 * length args" "base (alloc_each (mymalloc malloc) (myfree free) atoi args t) = alloc_each malloc free atoi args (base t)"
    using Cons.IH [of t] by blast
  then show ?case
    by (intro exI [of _ "[Malloc_Line (to_int (int n)) p, Free_Line p] @ ls"]) (simp only: step, simp add: t_def)
qed

subsection \<open>Wrappers chosen at run time\<close>

text \<open>
  The library to preload resolves the real functions on first use.  \<open>dlsym\<close> returns whether it found the
  symbol; when it did not, the process exits with status 1.
\<close>

datatype 'a outcome = Returned 'a | Exited int

record 'w preloaded = "'w traced" +
  mallocp :: bool
  freep :: bool

definition preload_malloc ::
  "(string \<Rightarrow> 'w \<Rightarrow> bool \<times> 'w) \<Rightarrow> (nat \<Rightarrow> 'w \<Rightarrow> addr option \<times> 'w) \<Rightarrow> nat \<Rightarrow> 'w preloaded \<Rightarrow> (addr option \<times> 'w preloaded) outcome" where
  "preload_malloc dlsym malloc n s =
     (let (found, s) = (if \<not> mallocp s then let (found, w) = dlsym ''malloc'' (base s) in (found, s\<lparr>base := w, mallocp := found\<rparr>)
                        else (True, s)) in
      if \<not> found then Exited 1
      else let (ptr, w) = malloc n (base s) in
        Returned (ptr, s\<lparr>base := w, printed := printed s @ [Malloc_Line (to_int (int n)) ptr]\<rparr>))"

definition preload_free ::
  "(string \<Rightarrow> 'w \<Rightarrow> bool \<times> 'w) \<Rightarrow> (addr option \<Rightarrow> 'w \<Rightarrow> 'w) \<Rightarrow> addr option \<Rightarrow> 'w preloaded \<Rightarrow> 'w preloaded outcome" where
  "preload_free dlsym free ptr s =
     (if ptr = None then Returned s
      else let (found, s) = (if \<not> freep s then let (found, w) = dlsym ''free'' (base s) in (found, s\<lparr>base := w, freep := found\<rparr>)
                             else (True, s)) in
        if \<not> found then Exited 1
        else Returned (s\<lparr>base := free ptr (base s), printed := printed s @ [Free_Line ptr]\<rparr>))"

definition preload_main ::
  "(string \<Rightarrow> 'w \<Rightarrow> bool \<times> 'w) \<Rightarrow> (nat \<Rightarrow> 'w \<Rightarrow> addr option \<times> 'w) \<Rightarrow> (addr option \<Rightarrow> 'w \<Rightarrow> 'w) \<Rightarrow> 'w preloaded \<Rightarrow> 'w preloaded outcome" where
  "preload_main dlsym malloc free s =
     (case preload_malloc dlsym malloc 32 s of
        Exited e \<Rightarrow> Exited e
      | Returned (p, s) \<Rightarrow> preload_free dlsym free p s)"

text \<open>\<open>dlsym\<close> finds both functions and leaves the heap as it is.\<close>

definition resolves :: "(string \<Rightarrow> 'w \<Rightarrow> bool \<times> 'w) \<Rightarrow> bool" where
  "resolves dlsym \<longleftrightarrow> (\<forall>name w. dlsym name w = (True, w))"

definition returned :: "'a outcome \<Rightarrow> 'a" where
  "returned r = (case r of Returned x \<Rightarrow> x)"

lemma preload_malloc_resolved:
  "resolves dlsym \<Longrightarrow> malloc n (base s) = (p, w) \<Longrightarrow> preload_malloc dlsym malloc n s =
    Returned (p, s\<lparr>base := w, printed := printed s @ [Malloc_Line (to_int (int n)) p], mallocp := True\<rparr>)"
  by (simp add: preload_malloc_def resolves_def Let_def)

lemma preload_free_resolved:
  "resolves dlsym \<Longrightarrow> preload_free dlsym free p s =
    Returned (if p = None then s else s\<lparr>base := free p (base s), printed := printed s @ [Free_Line p], freep := True\<rparr>)"
  by (simp add: preload_free_def resolves_def Let_def)

context allocator
begin

lemma preload_allocator:
  assumes "resolves dlsym"
  shows "allocator (\<lambda>n s. returned (preload_malloc dlsym malloc n s)) (\<lambda>p s. returned (preload_free dlsym free p s))
    (\<lambda>s. blocks (base s))"
proof
  fix n s p s'
  assume run: "returned (preload_malloc dlsym malloc n s) = (p, s')"
  obtain q w where q: "malloc n (base s) = (q, w)" by fastforce
  have "p = q" "base s' = w"
    using run preload_malloc_resolved [OF assms, of malloc n s, OF q] by (auto simp: returned_def)
  with malloc_blocks [OF q]
  show "case p of None \<Rightarrow> blocks (base s') = blocks (base s)
    | Some a \<Rightarrow> a \<notin> blocks (base s) \<and> blocks (base s') = insert a (blocks (base s))"
    by (simp split: option.splits)
qed (simp add: preload_free_resolved [OF assms] returned_def free_blocks split: option.split)

end

interpretation traced_heap: allocator "mymalloc heap_malloc" "myfree heap_free" "traced_blocks heap_blocks"
  by (rule allocator.mymalloc_allocator [OF heap_allocator])

interpretation wrapped_heap: allocator "wrap_malloc heap_malloc" "wrap_free heap_free" "traced_blocks heap_blocks"
  unfolding wrap_is_mymalloc by (rule allocator.mymalloc_allocator [OF heap_allocator])

interpretation preloaded_heap: allocator "\<lambda>n s. returned (preload_malloc (\<lambda>_ w. (True, w)) heap_malloc n s)"
    "\<lambda>p s. returned (preload_free (\<lambda>_ w. (True, w)) heap_free p s)" "\<lambda>s. heap_blocks (base s)"
  by (rule allocator.preload_allocator [OF heap_allocator]) (simp add: resolves_def)

subsection \<open>The monitor of RDMA calls\<close>

datatype mline = Lib_Missing | Lib_Found | Symbol_Missing string | Intercepted string
  | Returns_Int string int | Returns_Ptr string "addr option"

record 'w monitor =
  world :: 'w
  ibv_handle :: bool
  real_ibv_modify_qp :: bool
  real_ibv_open_device :: bool
  said :: "mline list"

definition say :: "mline \<Rightarrow> 'w monitor \<Rightarrow> 'w monitor" where
  "say l s = s\<lparr>said := said s @ [l]\<rparr>"

text \<open>Both functions first look for the library; the result says whether there is one.\<close>

definition find_library :: "('w \<Rightarrow> bool \<times> 'w) \<Rightarrow> 'w monitor \<Rightarrow> bool \<times> 'w monitor" where
  "find_library dlopen s =
     (if \<not> ibv_handle s then
        let (found, w) = dlopen (world s); s = s\<lparr>world := w, ibv_handle := found\<rparr> in
        if \<not> found then (False, say Lib_Missing s) else (True, say Lib_Found s)
      else (True, s))"

definition monitored_modify_qp ::
  "('w \<Rightarrow> bool \<times> 'w) \<Rightarrow> (string \<Rightarrow> 'w \<Rightarrow> bool \<times> 'w) \<Rightarrow> (addr \<Rightarrow> addr \<Rightarrow> int \<Rightarrow> 'w \<Rightarrow> int \<times> 'w) \<Rightarrow>
    addr \<Rightarrow> addr \<Rightarrow> int \<Rightarrow> 'w monitor \<Rightarrow> int \<times> 'w monitor" where
  "monitored_modify_qp dlopen dlsym real qp attr flags s =
     (let (ok, s) = find_library dlopen s in
      if \<not> ok then (-1, s)
      else let (known, s) =
            (if \<not> real_ibv_modify_qp s then
               let (found, w) = dlsym ''ibv_modify_qp'' (world s); s = s\<lparr>world := w, real_ibv_modify_qp := found\<rparr> in
               if \<not> found then (False, say (Symbol_Missing ''ibv_modify_qp'') s) else (True, s)
             else (True, s)) in
        if \<not> known then (-1, s)
        else let s = say (Intercepted ''ibv_modify_qp'') s; (r, w) = real qp attr flags (world s) in
          (r, say (Returns_Int ''ibv_modify_qp'' r) (s\<lparr>world := w\<rparr>)))"

definition monitored_open_device ::
  "('w \<Rightarrow> bool \<times> 'w) \<Rightarrow> (string \<Rightarrow> 'w \<Rightarrow> bool \<times> 'w) \<Rightarrow> (addr \<Rightarrow> 'w \<Rightarrow> addr option \<times> 'w) \<Rightarrow>
    addr \<Rightarrow> 'w monitor \<Rightarrow> addr option \<times> 'w monitor" where
  "monitored_open_device dlopen dlsym real device s =
     (let (ok, s) = find_library dlopen s in
      if \<not> ok then (None, s)
      else let (known, s) =
            (if \<not> real_ibv_open_device s then
               let (found, w) = dlsym ''ibv_open_device'' (world s); s = s\<lparr>world := w, real_ibv_open_device := found\<rparr> in
               if \<not> found then (False, say (Symbol_Missing ''ibv_open_device'') s) else (True, s)
             else (True, s)) in
        if \<not> known then (None, s)
        else let s = say (Intercepted ''ibv_open_device'') s; (r, w) = real device (world s) in
          (r, say (Returns_Ptr ''ibv_open_device'' r) (s\<lparr>world := w\<rparr>)))"

text \<open>A program's calls, to the library itself and through the monitor.\<close>

datatype request = Modify_Qp addr addr int | Open_Device addr
datatype response = Int_Result int | Ptr_Result "addr option"

fun direct ::
  "(addr \<Rightarrow> addr \<Rightarrow> int \<Rightarrow> 'w \<Rightarrow> int \<times> 'w) \<Rightarrow> (addr \<Rightarrow> 'w \<Rightarrow> addr option \<times> 'w) \<Rightarrow> request list \<Rightarrow> 'w \<Rightarrow> response list \<times> 'w" where
  "direct modify open_dev [] w = ([], w)"
| "direct modify open_dev (Modify_Qp q a m # rs) w =
     (let (r, w) = modify q a m w; (out, w) = direct modify open_dev rs w in (Int_Result r # out, w))"
| "direct modify open_dev (Open_Device d # rs) w =
     (let (r, w) = open_dev d w; (out, w) = direct modify open_dev rs w in (Ptr_Result r # out, w))"

fun monitored ::
  "('w \<Rightarrow> bool \<times> 'w) \<Rightarrow> (string \<Rightarrow> 'w \<Rightarrow> bool \<times> 'w) \<Rightarrow> (addr \<Rightarrow> addr \<Rightarrow> int \<Rightarrow> 'w \<Rightarrow> int \<times> 'w) \<Rightarrow>
    (addr \<Rightarrow> 'w \<Rightarrow> addr option \<times> 'w) \<Rightarrow> request list \<Rightarrow> 'w monitor \<Rightarrow> response list \<times> 'w monitor" where
  "monitored dlopen dlsym modify open_dev [] s = ([], s)"
| "monitored dlopen dlsym modify open_dev (Modify_Qp q a m # rs) s =
     (let (r, s) = monitored_modify_qp dlopen dlsym modify q a m s;
          (out, s) = monitored dlopen dlsym modify open_dev rs s in (Int_Result r # out, s))"
| "monitored dlopen dlsym modify open_dev (Open_Device d # rs) s =
     (let (r, s) = monitored_open_device dlopen dlsym open_dev d s;
          (out, s) = monitored dlopen dlsym modify open_dev rs s in (Ptr_Result r # out, s))"

definition opened :: "mline list \<Rightarrow> nat" where
  "opened ls = length (filter (\<lambda>l. l = Lib_Found) ls)"

lemma opened_append [simp]: "opened (xs @ ys) = opened xs + opened ys"
  by (simp add: opened_def)

lemma say_simps [simp]: "world (say l s) = world s" "ibv_handle (say l s) = ibv_handle s"
  "real_ibv_modify_qp (say l s) = real_ibv_modify_qp s" "real_ibv_open_device (say l s) = real_ibv_open_device s"
  "opened (said (say l s)) = opened (said s) + (if l = Lib_Found then 1 else 0)"
  by (simp_all add: say_def opened_def)

lemma monitored_call:
  assumes "\<forall>w. dlopen w = (True, w)" and "resolves dlsym"
  shows "\<exists>s'. monitored_modify_qp dlopen dlsym modify q a m s = (fst (modify q a m (world s)), s') \<and>
      world s' = snd (modify q a m (world s)) \<and> ibv_handle s' \<and> opened (said s') = opened (said s) + (if ibv_handle s then 0 else 1)"
    and "\<exists>s'. monitored_open_device dlopen dlsym open_dev d s = (fst (open_dev d (world s)), s') \<and>
      world s' = snd (open_dev d (world s)) \<and> ibv_handle s' \<and> opened (said s') = opened (said s) + (if ibv_handle s then 0 else 1)"
  using assms
  by (auto simp: monitored_modify_qp_def monitored_open_device_def find_library_def resolves_def Let_def split: prod.splits)

lemma monitored_result:
  assumes "\<forall>w. dlopen w = (True, w)" and "resolves dlsym"
  shows "\<exists>s'. monitored dlopen dlsym modify open_dev rs s = (fst (direct modify open_dev rs (world s)), s') \<and>
    world s' = snd (direct modify open_dev rs (world s)) \<and>
    opened (said s') = opened (said s) + (if ibv_handle s \<or> rs = [] then 0 else 1)"
proof (induction rs arbitrary: s)
  case Nil
  then show ?case by simp
next
  case (Cons r rs)
  show ?case
  proof (cases r)
    case (Modify_Qp q a m)
    from monitored_call(1) [OF assms, of modify q a m s] obtain s1 where
      s1: "monitored_modify_qp dlopen dlsym modify q a m s = (fst (modify q a m (world s)), s1)"
        "world s1 = snd (modify q a m (world s))" "ibv_handle s1"
        "opened (said s1) = opened (said s) + (if ibv_handle s then 0 else 1)" by blast
    from Cons.IH [of s1] s1 Modify_Qp show ?thesis by (auto simp: Let_def split_beta)
  next
    case (Open_Device d)
    from monitored_call(2) [OF assms, of open_dev d s] obtain s1 where
      s1: "monitored_open_device dlopen dlsym open_dev d s = (fst (open_dev d (world s)), s1)"
        "world s1 = snd (open_dev d (world s))" "ibv_handle s1"
        "opened (said s1) = opened (said s) + (if ibv_handle s then 0 else 1)" by blast
    from Cons.IH [of s1] s1 Open_Device show ?thesis by (auto simp: Let_def split_beta)
  qed
qed

definition fresh_monitor :: "'w \<Rightarrow> 'w monitor" where
  "fresh_monitor w = \<lparr>world = w, ibv_handle = False, real_ibv_modify_qp = False, real_ibv_open_device = False, said = []\<rparr>"

subsection \<open>Properties\<close>

text \<open>Interposed when compiling, linking or loading, the wrappers change nothing but what is printed: they return the pointers of
  the real functions and leave the heap as these do, every block the program takes is given back, and the lines pair each allocation with the freeing of its pointer.\<close>

theorem interposed_programs_transparent:
  assumes "allocator malloc free blocks" and "resolves dlsym"
  shows "(\<exists>ls s'. compile_main malloc free atoi argv s = (0, s') \<and> link_main malloc free atoi argv s = (0, s') \<and>
      base s' = alloc_each malloc free atoi (tl argv) (base s) \<and> blocks (base s') = blocks (base s) \<and>
      printed s' = printed s @ ls \<and> paired ls \<and> length ls = 2 * length (tl argv)) \<and>
    (\<exists>s'. preload_main dlsym malloc free t = Returned s' \<and> blocks (base s') = blocks (base t))"
proof
  let ?s' = "alloc_each (mymalloc malloc) (myfree free) atoi (tl argv) s"
  obtain ls where "printed ?s' = printed s @ ls" "paired ls" "length ls = 2 * length (tl argv)"
    "base ?s' = alloc_each malloc free atoi (tl argv) (base s)"
    using alloc_each_traced [of malloc free atoi "tl argv" s] by blast
  moreover have "blocks (alloc_each malloc free atoi (tl argv) (base s)) = blocks (base s)"
    by (rule allocator.alloc_each_blocks [OF assms(1)])
  ultimately show "\<exists>ls s'. compile_main malloc free atoi argv s = (0, s') \<and> link_main malloc free atoi argv s = (0, s') \<and>
      base s' = alloc_each malloc free atoi (tl argv) (base s) \<and> blocks (base s') = blocks (base s) \<and>
      printed s' = printed s @ ls \<and> paired ls \<and> length ls = 2 * length (tl argv)"
    by (intro exI [of _ ls] exI [of _ ?s']) (simp add: compile_main_def link_main_def wrap_is_mymalloc)
  obtain p w where p: "malloc 32 (base t) = (p, w)" by fastforce
  show "\<exists>s'. preload_main dlsym malloc free t = Returned s' \<and> blocks (base s') = blocks (base t)"
    using preload_malloc_resolved [of dlsym malloc 32 t, OF assms(2) p] preload_free_resolved [OF assms(2)]
      allocator.free_malloc [OF assms(1) p refl] allocator.malloc_blocks [OF assms(1) p]
    by (auto simp: preload_main_def)
qed

theorem interposed_programs_transparent_witness:
  "\<exists>s'. compile_main heap_malloc heap_free (\<lambda>_. 8) [''main'', ''8'', ''8''] \<lparr>base = demo_heap [], printed = []\<rparr> = (0, s') \<and>
    paired (printed s') \<and> length (printed s') = 4"
  using interposed_programs_transparent [OF heap_allocator, of "\<lambda>_ w. (True, w)" "\<lambda>_. 8" "[''main'', ''8'', ''8'']"
      "\<lparr>base = demo_heap [], printed = []\<rparr>"
      "\<lparr>base = demo_heap [], printed = [], mallocp = False, freep = False\<rparr>"]
  by (auto simp: resolves_def)

text \<open>Behind the monitor a program gets the results the library gives, in the same order and from the same states, and
  the library is opened once, with the first call.\<close>

theorem monitor_transparent:
  assumes "\<forall>w. dlopen w = (True, w)" and "resolves dlsym"
  shows "\<exists>s. monitored dlopen dlsym modify open_dev rs (fresh_monitor w) = (fst (direct modify open_dev rs w), s) \<and>
    world s = snd (direct modify open_dev rs w) \<and> opened (said s) = (if rs = [] then 0 else 1)"
  using monitored_result [OF assms, of modify open_dev rs "fresh_monitor w"] by (simp add: fresh_monitor_def opened_def)

theorem monitor_transparent_witness:
  "\<exists>s. monitored (\<lambda>w. (True, w)) (\<lambda>_ w. (True, w)) (\<lambda>q a m n. (m, n + 1)) (\<lambda>d n. (Some d, n))
      [Open_Device 5, Modify_Qp 1 2 3, Modify_Qp 1 2 4] (fresh_monitor (0 :: nat)) =
    ([Ptr_Result (Some 5), Int_Result 3, Int_Result 4], s) \<and> world s = 2 \<and> opened (said s) = 1"
  using monitor_transparent [of "\<lambda>w. (True, w)" "\<lambda>_ w. (True, w)" "\<lambda>q a m n. (m, n + 1)" "\<lambda>d n. (Some d, n)"
      "[Open_Device 5, Modify_Qp 1 2 3, Modify_Qp 1 2 4]" "0 :: nat"]
  by (simp add: resolves_def numeral_2_eq_2)

end
