(* ===== verification/Small_Programs.thy ===== *)
theory Small_Programs
  imports Libc
begin

text \<open>
  Small programs over arrays and words: the vector library in its three builds (\<^verbatim>\<open>static-link\<close>, \<^verbatim>\<open>dynamic-link\<close>,
  \<^verbatim>\<open>runtime-link\<close>), \<^verbatim>\<open>cpu-cache-impact\<close>, \<^verbatim>\<open>print-binary\<close>, \<^verbatim>\<open>map-vector\<close>, and the kernel modules
  \<^verbatim>\<open>kernel-random-number\<close> and \<^verbatim>\<open>kernel-mem-alloc\<close>.  What they print is their result; clocks are left out.
\<close>

subsection \<open>Vectors\<close>

text \<open>\<open>x\<close>, \<open>y\<close> and \<open>z\<close> point into one memory of \<open>int\<close>s, so that they may overlap.\<close>

definition load_int :: "int list \<Rightarrow> nat \<Rightarrow> int run" where
  "load_int m p = (if p < length m then ret (m ! p) else stuck Out_Of_Bounds)"

definition store_int :: "int list \<Rightarrow> nat \<Rightarrow> int \<Rightarrow> int list run" where
  "store_int m p v = (if p < length m then ret (m[p := v]) else stuck Out_Of_Bounds)"

fun vec_loop :: "(int \<Rightarrow> int \<Rightarrow> int) \<Rightarrow> nat list \<Rightarrow> nat \<Rightarrow> nat \<Rightarrow> nat \<Rightarrow> int list \<Rightarrow> int list run" where
  "vec_loop f [] x y z m = ret m"
| "vec_loop f (i # is) x y z m =
     seq (load_int m (x + i)) (\<lambda>a. seq (load_int m (y + i)) (\<lambda>b. seq (c_int (f a b)) (\<lambda>c.
       seq (store_int m (z + i) c) (vec_loop f is x y z))))"

definition addvec :: "nat \<Rightarrow> nat \<Rightarrow> nat \<Rightarrow> int \<Rightarrow> int list \<Rightarrow> int list run" where
  "addvec x y z n m = vec_loop (+) [0..<nat n] x y z m"

definition multvec :: "nat \<Rightarrow> nat \<Rightarrow> nat \<Rightarrow> int \<Rightarrow> int list \<Rightarrow> int list run" where
  "multvec x y z n m = vec_loop (*) [0..<nat n] x y z m"

text \<open>The globals \<open>x\<close>, \<open>y\<close> and \<open>z\<close>, and the numbers that \<open>main\<close> prints.\<close>

definition globals :: "int list" where "globals = [1, 2] @ [3, 4] @ [0, 0]"

definition vectors_main :: "(int \<times> int \<times> int \<times> int) run" where
  "vectors_main =
     seq (addvec 0 2 4 2 globals) (\<lambda>m. seq (load_int m 4) (\<lambda>s0. seq (load_int m 5) (\<lambda>s1.
       seq (multvec 0 2 4 2 m) (\<lambda>m. seq (load_int m 4) (\<lambda>p0. seq (load_int m 5) (\<lambda>p1. ret (s0, s1, p0, p1)))))))"

text \<open>
  \<open>runtime-link\<close>: \<open>dlopen\<close> and \<open>dlsym\<close> say whether they succeeded, \<open>dlclose\<close> returns a number.  The message for its
  failure is the \<open>error\<close> of the last \<open>dlerror\<close>, which was \<open>NULL\<close>.
\<close>

definition runtime_main ::
  "('w \<Rightarrow> bool \<times> 'w) \<Rightarrow> (string \<Rightarrow> 'w \<Rightarrow> bool \<times> 'w) \<Rightarrow> ('w \<Rightarrow> int \<times> 'w) \<Rightarrow> 'w \<Rightarrow> (int \<times> (int \<times> int \<times> int \<times> int) option \<times> 'w) run" where
  "runtime_main dlopen dlsym dlclose w =
     (let (ok, w) = dlopen w in
      if \<not> ok then ret (1, None, w)
      else let (ok, w) = dlsym ''addvec'' w in
        if \<not> ok then ret (1, None, w)
        else let (ok, w) = dlsym ''multvec'' w in
          if \<not> ok then ret (1, None, w)
          else seq vectors_main (\<lambda>out.
            let (r, w) = dlclose w in if r < 0 then stuck Null_Deref else ret (0, Some out, w)))"

text \<open>The result goes to its place, and nowhere else, when \<open>z\<close> overlaps neither operand, or is one of them.\<close>

definition apart :: "nat \<Rightarrow> nat \<Rightarrow> nat \<Rightarrow> bool" where
  "apart z x n \<longleftrightarrow> z = x \<or> z + n \<le> x \<or> x + n \<le> z"

lemma vec_loop_result:
  assumes "apart z x n" "apart z y n" "x + n \<le> length m" "y + n \<le> length m" "z + n \<le> length m"
    and "\<forall>i < n. - INT_MAX - 1 \<le> f (m ! (x + i)) (m ! (y + i)) \<and> f (m ! (x + i)) (m ! (y + i)) \<le> INT_MAX"
    and "k \<le> n"
  shows "vec_loop f [0..<k] x y z m =
    ret (take z m @ map (\<lambda>i. f (m ! (x + i)) (m ! (y + i))) [0..<k] @ drop (z + k) m)"
  using assms(7)
proof (induction k)
  case 0
  then show ?case by simp
next
  case (Suc k)
  have snoc: "vec_loop f (is @ [i]) x y z = (\<lambda>m. seq (vec_loop f is x y z m) (vec_loop f [i] x y z))" for "is" i
    by (induction "is"; rule ext) (simp_all only: append_Cons append_Nil vec_loop.simps seq_assoc seq_simps)
  let ?m = "take z m @ map (\<lambda>i. f (m ! (x + i)) (m ! (y + i))) [0..<k] @ drop (z + k) m"
  have same: "?m ! (p + k) = m ! (p + k)" if "apart z p n" "p + n \<le> length m" for p
    using that Suc.prems assms(5) by (auto simp: apart_def nth_append min_def add.commute)
  have len: "length ?m = length m" using Suc.prems assms(5) by simp
  have at: "?m[z + k := c] = take z m @ (map (\<lambda>i. f (m ! (x + i)) (m ! (y + i))) [0..<k] @ [c]) @ drop (z + Suc k) m" for c
    using Suc.prems assms(5) Cons_nth_drop_Suc [of "z + k" m] by (simp add: list_update_append flip: Cons_nth_drop_Suc)
  have "vec_loop f [0..<Suc k] x y z m = seq (vec_loop f [0..<k] x y z m) (vec_loop f [k] x y z)"
    by (simp add: snoc)
  also have "\<dots> = vec_loop f [k] x y z ?m" using Suc by simp
  also have "\<dots> = ret (?m[z + k := f (m ! (x + k)) (m ! (y + k))])"
    using same [OF assms(1,3)] same [OF assms(2,4)] assms(3-6) Suc.prems
    by (simp add: load_int_def store_int_def)
  finally show ?case using at by simp
qed

lemma vectors_main_prints: "vectors_main = ret (4, 6, 3, 8)"
  by (simp add: vectors_main_def addvec_def multvec_def globals_def load_int_def store_int_def INT_MAX_def upt_rec numeral_eq_Suc)

subsection \<open>Strides through an array\<close>

text \<open>\<open>for (i = start; i < N; i += k) array[i] += 1\<close>, with \<open>N\<close> the length of the array and \<open>k\<close> positive.\<close>

function stride_loop :: "nat \<Rightarrow> nat \<Rightarrow> int list \<Rightarrow> int list" where
  "stride_loop k i array =
     (if i < length array \<and> 0 < k then stride_loop k (i + k) (array[i := array ! i + 1]) else array)"
  by pat_completeness auto
termination by (relation "measure (\<lambda>(k, i, array). length array - i)") auto

declare stride_loop.simps [simp del]

text \<open>The outer loop: \<open>k\<close> is 1, 2, 4, up to \<open>limit\<close>.\<close>

function passes :: "nat \<Rightarrow> nat \<Rightarrow> int list \<Rightarrow> int list" where
  "passes limit k array = (if k \<le> limit \<and> 0 < k then passes limit (2 * k) (stride_loop k 0 array) else array)"
  by pat_completeness auto
termination by (relation "measure (\<lambda>(limit, k, array). Suc limit - k)") auto

declare passes.simps [simp del]

definition array_size :: nat where "array_size = 64 * 1024 * 1024"

text \<open>The result is the exit status and the array before it is freed.\<close>

definition cache_main ::
  "(nat \<Rightarrow> 'w \<Rightarrow> addr option \<times> 'w) \<Rightarrow> (addr option \<Rightarrow> 'w \<Rightarrow> 'w) \<Rightarrow> 'w \<Rightarrow> int \<times> int list \<times> 'w" where
  "cache_main malloc free w =
     (let (p, w) = malloc (array_size * 4) w in
      if p = None then (1, [], w) else (0, passes 1024 1 (replicate array_size 0), free p w))"

lemma length_stride_loop [simp]: "length (stride_loop k i array) = length array"
  by (induction k i array rule: stride_loop.induct) (subst stride_loop.simps, simp)

lemma stride_loop_nth:
  assumes "0 < k" "j < length array"
  shows "stride_loop k i array ! j = array ! j + (if i \<le> j \<and> k dvd (j - i) then 1 else 0)"
  using assms
proof (induction k i array rule: stride_loop.induct)
  case (1 k i array)
  show ?case
  proof (cases "i < length array")
    case False
    then show ?thesis using 1(3) by (subst stride_loop.simps) simp
  next
    case True
    let ?a = "array[i := array ! i + 1]"
    have "stride_loop k i array ! j = stride_loop k (i + k) ?a ! j"
      using True 1(2) by (subst stride_loop.simps) simp
    also have "\<dots> = ?a ! j + (if i + k \<le> j \<and> k dvd (j - (i + k)) then 1 else 0)"
      using True 1(2,3) 1(1) by simp
    also have "\<dots> = array ! j + (if i \<le> j \<and> k dvd (j - i) then 1 else 0)"
    proof -
      have "k dvd (j - i) \<longleftrightarrow> j = i \<or> i + k \<le> j \<and> k dvd (j - (i + k))" if "i \<le> j"
      proof (cases "i + k \<le> j")
        case True
        then have "j - i = (j - (i + k)) + k" by simp
        then show ?thesis using True 1(2) by (metis add_diff_cancel_left' dvd_add_triv_right_iff le_add1 not_gr_zero diff_is_0_eq le_add_diff_inverse less_le_not_le)
      next
        case False
        then have "j - i < k" using that by simp
        then show ?thesis using False that by (auto dest: dvd_imp_le)
      qed
      then show ?thesis using 1(2,3) by (auto simp: nth_list_update)
    qed
    finally show ?thesis .
  qed
qed

text \<open>How many of the strides from \<open>k\<close> up to \<open>limit\<close> meet an index.\<close>

definition visits :: "nat \<Rightarrow> nat \<Rightarrow> nat \<Rightarrow> nat" where
  "visits limit k j = card {e. 2 ^ e * k \<le> limit \<and> 2 ^ e * k dvd j}"

lemma passes_nth:
  assumes "0 < k" "j < length array"
  shows "passes limit k array ! j = array ! j + int (visits limit k j) \<and> length (passes limit k array) = length array"
  using assms
proof (induction limit k array rule: passes.induct)
  case (1 limit k array)
  have fin: "finite {e. 2 ^ e * c \<le> limit \<and> 2 ^ e * c dvd j}" if "0 < c" for c
  proof (rule finite_subset)
    show "{e. 2 ^ e * c \<le> limit \<and> 2 ^ e * c dvd j} \<subseteq> {..limit}"
    proof
      fix e assume "e \<in> {e. 2 ^ e * c \<le> limit \<and> 2 ^ e * c dvd j}"
      then have "2 ^ e \<le> limit" using that by (metis (no_types, lifting) dual_order.trans mem_Collect_eq mult_le_mono2 Suc_leI mult_1_right One_nat_def)
      with less_exp [of e] have "e \<le> limit" by linarith
      then show "e \<in> {..limit}" by simp
    qed
  qed simp
  show ?case
  proof (cases "k \<le> limit")
    case False
    have "{e. 2 ^ e * k \<le> limit \<and> 2 ^ e * k dvd j} = {}"
    proof -
      have "k \<le> 2 ^ e * k" for e by simp
      then have "\<not> 2 ^ e * k \<le> limit" for e using False by (meson le_trans)
      then show ?thesis by simp
    qed
    then have "visits limit k j = 0" unfolding visits_def by (simp only: card.empty)
    then show ?thesis using False by (subst passes.simps, subst (2) passes.simps) simp
  next
    case True
    have "{e. 2 ^ e * k \<le> limit \<and> 2 ^ e * k dvd j} =
        (if k dvd j then {0} else {}) \<union> Suc ` {e. 2 ^ e * (2 * k) \<le> limit \<and> 2 ^ e * (2 * k) dvd j}" (is "?L = ?R")
    proof (intro set_eqI)
      fix e
      show "e \<in> ?L \<longleftrightarrow> e \<in> ?R" using True by (cases e) (auto simp: mult.assoc mult.left_commute)
    qed
    then have "visits limit k j = (if k dvd j then 1 else 0) + visits limit (2 * k) j"
      unfolding visits_def using fin [of "2 * k"] 1(2) by (auto simp: card_image)
    moreover have "passes limit k array = passes limit (2 * k) (stride_loop k 0 array)"
      using True 1(2) by (subst passes.simps) simp
    ultimately show ?thesis using 1(1) [OF conjI [OF True 1(2)]] 1(2,3) stride_loop_nth [OF 1(2,3), of 0] by simp
  qed
qed


subsection \<open>Bits of bytes\<close>

text \<open>The mask runs from bit 0 upwards and is 0 after bit 7, as the shifted bit leaves the \<open>unsigned char\<close>.\<close>

partial_function (option) mask_loop :: "u8 \<Rightarrow> u8 \<Rightarrow> nat list option" where
  "mask_loop b m =
     (if m \<noteq> 0 then Option.bind (mask_loop b (push_bit 1 m)) (\<lambda>ds. Some ((if b AND m \<noteq> 0 then 1 else 0) # ds)) else Some [])"

fun print_binary :: "u8 list \<Rightarrow> nat list list option" where
  "print_binary [] = Some []"
| "print_binary (b # bs) =
     Option.bind (mask_loop b 1) (\<lambda>ds. map_option ((#) ds) (print_binary bs))"

definition binary_main :: "nat list list option" where
  "binary_main = print_binary [8, 4, 2, 1]"

lemma mask_loop_bits:
  "mask_loop b 1 = Some (map (\<lambda>i. of_bool (bit b i)) [0..<8])"
proof -
  have step: "mask_loop b (push_bit i 1) =
      Option.bind (mask_loop b (push_bit (Suc i) 1)) (\<lambda>ds. Some (of_bool (bit b i) # ds))" if "i < 8" for i
  proof -
    have "push_bit i 1 \<noteq> (0 :: u8)" using that by (simp add: push_bit_eq_0_iff)
    moreover have "b AND push_bit i 1 \<noteq> 0 \<longleftrightarrow> bit b i" using that by (simp add: and_exp_eq_0_iff_not_bit push_bit_of_1)
    moreover have "push_bit 1 (push_bit i (1 :: u8)) = push_bit (Suc i) 1" by simp
    ultimately show ?thesis by (subst mask_loop.simps) (simp add: mult.commute)
  qed
  have last: "mask_loop b (push_bit 8 1) = Some []" by (subst mask_loop.simps) simp
  have "mask_loop b (push_bit i 1) = Some (map (\<lambda>i. of_bool (bit b i)) [i..<8])" if "i \<le> 8" for i
    using that
  proof (induction "8 - i" arbitrary: i)
    case 0
    then show ?case using last by simp
  next
    case (Suc n)
    then have "[i..<8] = i # [Suc i..<8]" by (simp add: upt_conv_Cons)
    moreover have "mask_loop b (push_bit (Suc i) 1) = Some (map (\<lambda>i. of_bool (bit b i)) [Suc i..<8])"
      using Suc by (intro Suc.hyps(1)) auto
    moreover have "i < 8" using Suc.hyps(2) by simp
    ultimately show ?case using step [of i] by (simp only: list.map Option.bind.bind_lunit)
  qed
  from this [of 0] show ?thesis by simp
qed

text \<open>What is printed determines the bytes.\<close>

lemma print_binary_result:
  "print_binary bs = Some (map (\<lambda>b. map (\<lambda>i. of_bool (bit b i)) [0..<8]) bs)"
  by (induction bs) (simp_all add: mask_loop_bits)

lemma print_binary_inj: "print_binary bs = print_binary cs \<longleftrightarrow> bs = cs"
proof -
  have "inj (\<lambda>b :: u8. map (\<lambda>i. of_bool (bit b i) :: nat) [0..<8])"
  proof (rule injI)
    fix a b :: u8 assume "map (\<lambda>i. of_bool (bit a i) :: nat) [0..<8] = map (\<lambda>i. of_bool (bit b i)) [0..<8]"
    then show "a = b" by (simp add: word_bits) (auto simp: of_bool_eq_iff)
  qed
  then show ?thesis by (simp add: print_binary_result inj_map_eq_map)
qed

subsection \<open>A map of vectors\<close>

text \<open>\<open>insert\<close> changes nothing when the key is there; the iteration is in the order of the keys.\<close>

definition map_insert :: "int \<Rightarrow> int list \<Rightarrow> (int \<rightharpoonup> int list) \<Rightarrow> (int \<rightharpoonup> int list)" where
  "map_insert k v m = (case m k of None \<Rightarrow> m(k \<mapsto> v) | Some _ \<Rightarrow> m)"

definition build_map :: "int \<Rightarrow> int \<Rightarrow> (int \<rightharpoonup> int list)" where
  "build_map key_start key_end =
     fold (\<lambda>key m. map_insert key [key..key_end + key - key_start] m) [key_start..key_end] Map.empty"

definition map_lines :: "(int \<rightharpoonup> int list) \<Rightarrow> (int \<times> int list) list" where
  "map_lines m = map (\<lambda>k. (k, the (m k))) (sorted_list_of_set (dom m))"

definition map_main :: "(int \<times> int list) list" where
  "map_main = map_lines (build_map 1 5)"

lemma build_map_result:
  "build_map a b = (\<lambda>k. if a \<le> k \<and> k \<le> b then Some [k..b + k - a] else None)"
proof -
  have "fold (\<lambda>key m. map_insert key [key..b + key - a] m) ks m =
      (\<lambda>k. if m k = None \<and> k \<in> set ks then Some [k..b + k - a] else m k)" for ks m
    by (induction ks arbitrary: m) (auto simp: map_insert_def fun_eq_iff split: option.splits)
  then show ?thesis by (auto simp: build_map_def)
qed

lemma map_lines_build: "map_lines (build_map a b) = map (\<lambda>k. (k, [k..b + k - a])) [a..b]"
proof -
  have "dom (build_map a b) = {a..b}" by (auto simp: build_map_result dom_def)
  moreover have "sorted_list_of_set {a..b} = [a..b]"
    by (rule sorted_distinct_set_unique) (simp_all add: sorted_wrt_upto)
  ultimately show ?thesis by (simp add: map_lines_def build_map_result)
qed

subsection \<open>Kernel modules\<close>

text \<open>\<open>kernel-random-number\<close>: ten random words, each brought down to at most 100.\<close>

function reduce_100 :: "u32 \<Rightarrow> u32" where
  "reduce_100 r = (if r > 100 then reduce_100 (r - 100) else r)"
  by pat_completeness auto
termination
  by (relation "measure unat") (auto simp: word_less_nat_alt unat_sub word_le_nat_alt)

declare reduce_100.simps [simp del]

fun random_lines :: "('w \<Rightarrow> u32 \<times> 'w) \<Rightarrow> nat \<Rightarrow> 'w \<Rightarrow> u32 list \<times> 'w" where
  "random_lines get_random 0 w = ([], w)"
| "random_lines get_random (Suc n) w =
     (let (r, w) = get_random w; (rs, w) = random_lines get_random n w in (reduce_100 r # rs, w))"

definition random_init :: "('w \<Rightarrow> u32 \<times> 'w) \<Rightarrow> 'w \<Rightarrow> int \<times> u32 list \<times> 'w" where
  "random_init get_random w = (let (rs, w) = random_lines get_random 10 w in (0, rs, w))"

lemma reduce_100_result: "unat (reduce_100 r) = (if r = 0 then 0 else (unat r - 1) mod 100 + 1)"
proof (induction r rule: reduce_100.induct)
  case (1 r)
  show ?case
  proof (cases "r > 100")
    case True
    then have u: "unat (r - 100) = unat r - 100" "100 < unat r"
      by (simp_all add: word_less_nat_alt unat_sub word_le_nat_alt)
    then have "r - 100 \<noteq> 0" "r \<noteq> 0" using True by (auto simp flip: unat_eq_zero)
    moreover have "unat r - 1 = (unat r - 100 - 1) + 100" using u(2) by simp
    then have "(unat r - 1) mod 100 = (unat r - 100 - 1) mod 100" by (metis mod_add_self2)
    ultimately show ?thesis using 1 True u by (subst reduce_100.simps) simp
  next
    case False
    then have "unat r \<le> 100" by (simp add: word_less_nat_alt not_less)
    moreover have "r \<noteq> 0 \<longleftrightarrow> 0 < unat r" by (simp add: unat_gt_0)
    ultimately show ?thesis using False by (subst reduce_100.simps) (auto simp: less_Suc_eq_le)
  qed
qed

text \<open>\<open>kernel-mem-alloc\<close>: the pages are allocated when the module is loaded and freed when it goes.\<close>

record 'w mem_module =
  pages :: "addr option"
  memory :: 'w

definition alloc_memory :: "(nat \<Rightarrow> 'w \<Rightarrow> addr option \<times> 'w) \<Rightarrow> nat \<Rightarrow> 'w mem_module \<Rightarrow> 'w mem_module" where
  "alloc_memory alloc_pages order s = (let (p, w) = alloc_pages (2 ^ order) (memory s) in \<lparr>pages = p, memory = w\<rparr>)"

definition free_memory :: "(addr option \<Rightarrow> 'w \<Rightarrow> 'w) \<Rightarrow> 'w mem_module \<Rightarrow> 'w mem_module" where
  "free_memory free_pages s = (if pages s = None then s else s\<lparr>memory := free_pages (pages s) (memory s)\<rparr>)"

definition mem_init :: "(nat \<Rightarrow> 'w \<Rightarrow> addr option \<times> 'w) \<Rightarrow> nat \<Rightarrow> 'w mem_module \<Rightarrow> int \<times> 'w mem_module" where
  "mem_init alloc_pages order s = (0, alloc_memory alloc_pages order s)"

definition mem_cleanup :: "(addr option \<Rightarrow> 'w \<Rightarrow> 'w) \<Rightarrow> 'w mem_module \<Rightarrow> 'w mem_module" where
  "mem_cleanup free_pages s = free_memory free_pages s"

context allocator
begin

lemma mem_module_frees: "blocks (memory (mem_cleanup free (snd (mem_init malloc order s)))) = blocks (memory s)"
proof -
  obtain p w where p: "malloc (2 ^ order) (memory s) = (p, w)" by fastforce
  then show ?thesis using free_malloc [OF p refl] malloc_blocks [OF p]
    by (cases p) (simp_all add: mem_cleanup_def free_memory_def mem_init_def alloc_memory_def)
qed

end

subsection \<open>Properties\<close>

text \<open>\<open>cpu-cache-impact\<close> frees its array, and its strides of 1, 2, 4, up to 1024 have added to every element the
  number of the strides that meet it, so the passes do 1, 1/2, 1/4 of the work and none leaves the array.\<close>

theorem cache_impact_counts:
  assumes "allocator malloc free blocks"
  shows "\<exists>code xs w'. cache_main malloc free w = (code, xs, w') \<and> blocks w' = blocks w \<and>
    (code = 0 \<longrightarrow> length xs = array_size \<and> (\<forall>j < array_size. xs ! j = int (card {e. e \<le> 10 \<and> 2 ^ e dvd j})))"
proof -
  obtain p w1 where p: "malloc (array_size * 4) w = (p, w1)" by fastforce
  have "2 ^ e \<le> (1024 :: nat) \<longleftrightarrow> e \<le> 10" for e
    using power_increasing_iff [of "2 :: nat" e 10] by simp
  then have visits: "visits 1024 1 j = card {e. e \<le> 10 \<and> 2 ^ e dvd j}" for j by (simp add: visits_def)
  have "passes 1024 1 (replicate array_size 0) ! j = int (card {e. e \<le> 10 \<and> 2 ^ e dvd j}) \<and>
      length (passes 1024 1 (replicate array_size 0)) = array_size" if "j < array_size" for j
    using passes_nth [of 1 j "replicate array_size 0" 1024] that by (simp only: visits) simp
  moreover have "0 < array_size" by (simp add: array_size_def)
  ultimately show ?thesis
    using p allocator.free_malloc [OF assms p refl] allocator.malloc_blocks [OF assms p]
    by (auto simp: cache_main_def)
qed

theorem cache_impact_counts_witness:
  "\<exists>code xs h. cache_main heap_malloc heap_free (demo_heap []) = (code, xs, h) \<and> heap_blocks h = {}"
  using cache_impact_counts [OF heap_allocator, of "demo_heap []"] by (auto simp: demo_heap_def)

text \<open>The vector functions put the sums or products where \<open>z\<close> points and change nothing else, as long as no result overflows and \<open>z\<close>
  overlaps an operand completely or not at all.\<close>

theorem vectors_correct:
  assumes "apart z x (nat n)" "apart z y (nat n)" "x + nat n \<le> length m" "y + nat n \<le> length m" "z + nat n \<le> length m"
    and "f = (+) \<and> run = addvec \<or> f = (*) \<and> run = multvec"
    and "\<forall>i < nat n. - INT_MAX - 1 \<le> f (m ! (x + i)) (m ! (y + i)) \<and> f (m ! (x + i)) (m ! (y + i)) \<le> INT_MAX"
  shows "run x y z n m = ret (take z m @ map (\<lambda>i. f (m ! (x + i)) (m ! (y + i))) [0..<nat n] @ drop (z + nat n) m)"
  using vec_loop_result [OF assms(1-5,7) order_refl] assms(6) by (auto simp: addvec_def multvec_def)

theorem vectors_correct_witness:
  "addvec 0 2 4 2 globals = ret [1, 2, 3, 4, 4, 6]"
proof -
  have m: "globals = [1, 2, 3, 4, 0, 0]" by (simp add: globals_def)
  have "\<forall>i < nat 2. - INT_MAX - 1 \<le> globals ! (0 + i) + globals ! (2 + i) \<and> globals ! (0 + i) + globals ! (2 + i) \<le> INT_MAX"
    by (auto simp: m less_Suc_eq numeral_2_eq_2 INT_MAX_def)
  from vectors_correct [of 4 0 2 2 globals "(+)" addvec, OF _ _ _ _ _ _ this] show ?thesis
    by (simp add: apart_def m upt_rec numeral_eq_Suc)
qed

end
