(* ===== verification/Mapped_Memory.thy ===== *)
theory Mapped_Memory
  imports Posix
begin

text \<open>
  \<^verbatim>\<open>simple-jit-x64/simple-jit-x64.c\<close>, which maps memory, writes code into it and runs it, and
  \<^verbatim>\<open>mmap-stdout/main.c\<close>, which maps a file and writes it to the standard output.  A process has regions with a protection
  and their bytes; \<open>mmap\<close>, \<open>mprotect\<close> and \<open>munmap\<close> are parameters that say whether they succeed, and where.  The
  processor that runs the bytes is a parameter as well.
\<close>

datatype prot = R | RW | RX

record 'w process =
  outside :: 'w
  regions :: "addr \<rightharpoonup> prot \<times> u8 list"

record 'w vm =
  mmap_anon :: "nat \<Rightarrow> 'w \<Rightarrow> addr option \<times> 'w"
  mmap_file :: "int \<Rightarrow> nat \<Rightarrow> 'w \<Rightarrow> (addr \<times> u8 list) option \<times> 'w"
  mprotect_call :: "addr \<Rightarrow> nat \<Rightarrow> 'w \<Rightarrow> int \<times> 'w"
  munmap_call :: "addr \<Rightarrow> nat \<Rightarrow> 'w \<Rightarrow> int \<times> 'w"

definition unmap :: "'w vm \<Rightarrow> addr \<Rightarrow> nat \<Rightarrow> 'w process \<Rightarrow> int \<times> 'w process" where
  "unmap vm a n s =
     (let (r, w) = munmap_call vm a n (outside s) in
      (r, s\<lparr>outside := w, regions := (if r = -1 then regions s else (regions s)(a := None))\<rparr>))"

subsection \<open>The program that writes its own code\<close>

definition SIZE :: nat where "SIZE = 1024"

definition alloc_writable_memory :: "'w vm \<Rightarrow> nat \<Rightarrow> 'w process \<Rightarrow> addr option \<times> 'w process" where
  "alloc_writable_memory vm n s =
     (let (p, w) = mmap_anon vm n (outside s) in
      case p of
        None \<Rightarrow> (None, s\<lparr>outside := w\<rparr>)
      | Some a \<Rightarrow> (Some a, s\<lparr>outside := w, regions := (regions s)(a \<mapsto> (RW, replicate n 0))\<rparr>))"

definition jit_code :: "u8 list" where
  "jit_code = [0x48, 0x89, 0xf8, 0x48, 0x83, 0xc0, 0x04, 0xc3]"

definition emit_code_into_memory :: "addr \<Rightarrow> 'w process \<Rightarrow> 'w process run" where
  "emit_code_into_memory m s =
     (case regions s m of
        None \<Rightarrow> stuck Use_After_Free
      | Some (p, bs) \<Rightarrow>
          if p \<noteq> RW then stuck Protection
          else if length bs < length jit_code then stuck Out_Of_Bounds
          else ret (s\<lparr>regions := (regions s)(m \<mapsto> (p, jit_code @ drop (length jit_code) bs))\<rparr>))"

definition make_memory_executable :: "'w vm \<Rightarrow> addr \<Rightarrow> nat \<Rightarrow> 'w process \<Rightarrow> int \<times> 'w process" where
  "make_memory_executable vm m n s =
     (let (r, w) = mprotect_call vm m n (outside s); s = s\<lparr>outside := w\<rparr> in
      if r = -1 then (-1, s)
      else (0, s\<lparr>regions := (regions s)(m := map_option (\<lambda>(_, bs). (RX, bs)) (regions s m))\<rparr>))"

definition call_code :: "(u8 list \<Rightarrow> int \<Rightarrow> int) \<Rightarrow> addr \<Rightarrow> int \<Rightarrow> 'w process \<Rightarrow> int run" where
  "call_code cpu m x s =
     (case regions s m of
        None \<Rightarrow> stuck Use_After_Free
      | Some (p, bs) \<Rightarrow> if p = RX then ret (cpu bs x) else stuck Protection)"

text \<open>The result is what is printed, if anything.\<close>

definition emit_to_rw_run_from_rx :: "'w vm \<Rightarrow> (u8 list \<Rightarrow> int \<Rightarrow> int) \<Rightarrow> 'w process \<Rightarrow> (int option \<times> 'w process) run" where
  "emit_to_rw_run_from_rx vm cpu s =
     (let (p, s) = alloc_writable_memory vm SIZE s in
      case p of
        None \<Rightarrow> ret (None, s)
      | Some m \<Rightarrow>
          seq (emit_code_into_memory m s) (\<lambda>s.
            let (r, s) = make_memory_executable vm m SIZE s in
            if r = -1 then let (_, s) = unmap vm m SIZE s in ret (None, s)
            else seq (call_code cpu m 2 s) (\<lambda>result.
              let (_, s) = unmap vm m SIZE s in ret (Some (to_int result), s))))"

definition jit_main :: "'w vm \<Rightarrow> (u8 list \<Rightarrow> int \<Rightarrow> int) \<Rightarrow> 'w process \<Rightarrow> (int \<times> int option \<times> 'w process) run" where
  "jit_main vm cpu s = seq (emit_to_rw_run_from_rx vm cpu s) (\<lambda>(out, s). ret (0, out, s))"

text \<open>What the instruction set says of these bytes: \<open>mov %rdi, %rax\<close>, \<open>add $4, %rax\<close>, \<open>ret\<close>, for small arguments.\<close>

definition x64 :: "(u8 list \<Rightarrow> int \<Rightarrow> int) \<Rightarrow> bool" where
  "x64 cpu \<longleftrightarrow> (\<forall>rest x. 0 \<le> x \<longrightarrow> x \<le> INT_MAX \<longrightarrow> cpu ([0x48, 0x89, 0xf8, 0x48, 0x83, 0xc0, 0x04, 0xc3] @ rest) x = x + 4)"

text \<open>New regions do not overlap old ones, and a region can be unmapped.\<close>

definition maps_fresh :: "'w vm \<Rightarrow> ('w \<Rightarrow> addr set) \<Rightarrow> bool" where
  "maps_fresh vm used \<longleftrightarrow>
     (\<forall>n w a w'. mmap_anon vm n w = (Some a, w') \<longrightarrow> a \<notin> used w) \<and>
     (\<forall>fd n w a bs w'. mmap_file vm fd n w = (Some (a, bs), w') \<longrightarrow> a \<notin> used w) \<and>
     (\<forall>a n w. fst (munmap_call vm a n w) = 0)"

lemma unmap_region:
  assumes "maps_fresh vm used"
  shows "\<exists>s'. unmap vm a n s = (0, s') \<and> regions s' = (regions s)(a := None)"
proof -
  have "fst (munmap_call vm a n (outside s)) = 0" using assms by (simp add: maps_fresh_def)
  then show ?thesis by (cases "munmap_call vm a n (outside s)") (simp add: unmap_def)
qed

theorem jit_runs_its_code:
  assumes "maps_fresh vm used" and "x64 cpu" and "dom (regions s) = used (outside s)"
  shows "\<exists>out s'. jit_main vm cpu s = ret (0, out, s') \<and> regions s' = regions s \<and> out \<in> {None, Some 6}"
proof -
  obtain p w where p: "mmap_anon vm SIZE (outside s) = (p, w)" by fastforce
  show ?thesis
  proof (cases p)
    case None
    then show ?thesis using p by (simp add: jit_main_def emit_to_rw_run_from_rx_def alloc_writable_memory_def)
  next
    case (Some m)
    then have fresh: "regions s m = None"
      using assms(1,3) p unfolding maps_fresh_def by (metis domIff)
    let ?bs = "jit_code @ drop (length jit_code) (replicate SIZE 0)"
    let ?s = "s\<lparr>outside := w, regions := (regions s)(m \<mapsto> (RW, ?bs))\<rparr>"
    have emitted: "emit_code_into_memory m (s\<lparr>outside := w, regions := (regions s)(m \<mapsto> (RW, replicate SIZE 0))\<rparr>) = ret ?s"
      by (simp add: emit_code_into_memory_def jit_code_def SIZE_def)
    obtain r w2 where r: "mprotect_call vm m SIZE w = (r, w2)" by fastforce
    have ran: "cpu ?bs 2 = 6" using assms(2) by (simp add: x64_def jit_code_def INT_MAX_def)
    obtain s1 where s1: "unmap vm m SIZE (?s\<lparr>outside := w2\<rparr>) = (0, s1)" "regions s1 = regions s"
      using unmap_region [OF assms(1), of m SIZE "?s\<lparr>outside := w2\<rparr>"] fresh by (auto simp: fun_upd_idem)
    let ?x = "s\<lparr>outside := w2, regions := (regions s)(m \<mapsto> (RX, ?bs))\<rparr>"
    obtain s2 where s2: "unmap vm m SIZE ?x = (0, s2)" "regions s2 = regions s"
      using unmap_region [OF assms(1), of m SIZE ?x] fresh by (auto simp: fun_upd_idem)
    have "jit_main vm cpu s = (if r = -1 then ret (0, None, s1) else ret (0, Some 6, s2))"
      using p Some emitted r s1 s2 ran
      by (simp add: jit_main_def emit_to_rw_run_from_rx_def alloc_writable_memory_def make_memory_executable_def
          call_code_def INT_MAX_def)
    then show ?thesis using s1 s2 by auto
  qed
qed

subsection \<open>The program that copies a file\<close>

text \<open>
  The size is an \<open>int\<close> that becomes a \<open>size_t\<close>; a \<open>write\<close> of less than all of it ends the function, and the region stays.
\<close>

definition mmapcopy :: "'w vm \<Rightarrow> 'w os \<Rightarrow> int \<Rightarrow> int \<Rightarrow> 'w process \<Rightarrow> 'w process run" where
  "mmapcopy vm os fd n s =
     (let (m, w) = mmap_file vm fd (nat (size_t n)) (outside s) in
      case m of
        None \<Rightarrow> ret (s\<lparr>outside := w\<rparr>)
      | Some (a, bs) \<Rightarrow>
          let s = s\<lparr>outside := w, regions := (regions s)(a \<mapsto> (R, bs))\<rparr>;
              (r, w) = write_call os 1 bs (outside s); s = s\<lparr>outside := w\<rparr>
          in if r \<noteq> n then ret s else let (_, s) = unmap vm a (nat (size_t n)) s in ret s)"

text \<open>\<open>open\<close> gives a descriptor, and \<open>fstat\<close> a size, whose high bits are lost.\<close>

definition mmap_main ::
  "'w vm \<Rightarrow> 'w os \<Rightarrow> (string \<Rightarrow> 'w \<Rightarrow> int \<times> 'w) \<Rightarrow> (int \<Rightarrow> 'w \<Rightarrow> int \<times> 'w) \<Rightarrow> string list \<Rightarrow> 'w process \<Rightarrow> (int \<times> 'w process) run" where
  "mmap_main vm os open_call fstat argv s =
     (if length argv \<noteq> 2 then ret (1, s)
      else let (fd, w) = open_call (argv ! 1) (outside s) in
        if fd \<le> 0 then ret (1, s\<lparr>outside := w\<rparr>)
        else let (st_size, w) = fstat fd w in
          seq (mmapcopy vm os fd (to_int st_size) (s\<lparr>outside := w\<rparr>)) (\<lambda>s. ret (0, s)))"

text \<open>
  The file goes to the standard output as far as one \<open>write\<close> takes it; when that is not all, the region is left
  behind - and \<open>main\<close> returns 0 all the same.
\<close>

theorem mmapcopy_copies:
  assumes "maps_fresh vm used" and "\<forall>a n w. view (snd (munmap_call vm a n w)) = view w" and "posix_write os view"
    and "0 < n" and "n \<le> INT_MAX" and "dom (regions s) = used (outside s)"
    and "mmap_file vm fd (nat n) (outside s) = (Some (a, bs), w)" and "length bs = nat n"
  shows "\<exists>k s'. mmapcopy vm os fd n s = ret s' \<and> k \<le> length bs \<and> view (outside s') = send 1 (take k bs) (view w) \<and>
    regions s' = (if k = length bs then regions s else (regions s)(a \<mapsto> (R, bs)))"
proof -
  have n: "size_t n = n" using assms(4,5) by (simp add: INT_MAX_def)
  have fresh: "regions s a = None" using assms(1,6,7) unfolding maps_fresh_def by (metis domIff)
  let ?rs = "(regions s)(a \<mapsto> (R, bs))"
  obtain r w1 where r: "write_call os 1 bs w = (r, w1)" by fastforce
  let ?s = "s\<lparr>regions := ?rs, outside := w1\<rparr>"
  have out: "mmapcopy vm os fd n s = (if r \<noteq> n then ret ?s else ret (snd (unmap vm a (nat n) ?s)))"
    using assms(7) r n by (simp add: mmapcopy_def split_beta)
  obtain s1 where s1: "unmap vm a (nat n) ?s = (0, s1)" "regions s1 = regions s"
    using unmap_region [OF assms(1), of a "nat n" ?s] fresh by (auto simp: fun_upd_idem)
  have same: "view (outside s1) = view w1"
    using s1(1) assms(2) by (auto simp: unmap_def split: prod.splits) (metis snd_conv)
  from assms(3) r show ?thesis
  proof (cases rule: posix_writeE)
    case failed
    then show ?thesis using out assms(4,8) by (intro exI [of _ 0] exI [of _ ?s]) auto
  next
    case written
    show ?thesis
    proof (cases "r = n")
      case True
      then show ?thesis using out s1 same written(4) assms(8) by (intro exI [of _ "nat r"] exI [of _ s1]) auto
    next
      case False
      then show ?thesis using out written assms(4,8) by (intro exI [of _ "nat r"] exI [of _ ?s]) auto
    qed
  qed
qed

text \<open>An operating system to run both on: nothing is refused, and regions begin at the next free address.\<close>

definition demo_vm :: "u8 list \<Rightarrow> kernel vm" where
  "demo_vm file =
     \<lparr>mmap_anon = \<lambda>n k. (Some (nat (next_fd k)), k), mmap_file = \<lambda>fd n k. (Some (nat (next_fd k), take n file), k),
      mprotect_call = \<lambda>a n k. (0, k), munmap_call = \<lambda>a n k. (0, k)\<rparr>"

lemma demo_vm_fresh: "maps_fresh (demo_vm file) (\<lambda>_. {})"
  by (simp add: maps_fresh_def demo_vm_def)

theorem mmapcopy_copies_witness:
  "\<exists>k s'. mmapcopy (demo_vm [7, 8, 9]) linux 4 3 \<lparr>outside = demo_kernel, regions = Map.empty\<rparr> = ret s' \<and> k \<le> 3 \<and>
    sent_on (knet (outside s')) 1 = take k [7, 8, 9]"
  using mmapcopy_copies [OF demo_vm_fresh _ linux_posix_write, of "[7, 8, 9]" 3 "\<lparr>outside = demo_kernel, regions = Map.empty\<rparr>" 4 3 "[7, 8, 9]" demo_kernel]
  by (auto simp: demo_vm_def INT_MAX_def demo_kernel_def numeral_3_eq_3)

theorem jit_runs_its_code_witness:
  "\<exists>out s'. jit_main (demo_vm []) (\<lambda>_ x. x + 4) \<lparr>outside = demo_kernel, regions = Map.empty\<rparr> = ret (0, out, s') \<and>
    out \<in> {None, Some 6}"
  using jit_runs_its_code [OF demo_vm_fresh, of "\<lambda>_ x. x + 4" "\<lparr>outside = demo_kernel, regions = Map.empty\<rparr>" "[]"]
  by (auto simp: x64_def)

end
