(* ===== verification/Netlink.thy ===== *)
theory Netlink
  imports Posix
begin

text \<open>
  \<^verbatim>\<open>netlink-latency\<close>: a kernel module that answers every netlink message with ``ACK'', and the program that
  times one such exchange.  The kernel's message functions are the fields of a record \<open>nl_kernel\<close>, the
  program's system calls those of \<open>nl_os\<close>; a message is its bytes, header included, on a little-endian
  machine.  The two sides are composed: the program against the module it talks to.
\<close>

subsection \<open>Messages\<close>

definition u32_at :: "u8 list \<Rightarrow> nat \<Rightarrow> fault + u32" where
  "u32_at bs i = (if i + 4 \<le> length bs then Inr (u32_of_bytes (take 4 (drop i bs))) else Inl Out_Of_Bounds)"

definition NLMSG_DONE :: u16 where "NLMSG_DONE = 3"
definition NLMSG_HDRLEN :: nat where "NLMSG_HDRLEN = 16"

definition NLMSG_ALIGN :: "nat \<Rightarrow> nat" where
  "NLMSG_ALIGN n = (n + 3) div 4 * 4"

definition NLMSG_SPACE :: "nat \<Rightarrow> nat" where
  "NLMSG_SPACE n = NLMSG_ALIGN (NLMSG_HDRLEN + n)"

text \<open>\<open>struct nlmsghdr\<close>: length, type, flags, sequence number, process.\<close>

definition nlmsghdr :: "u32 \<Rightarrow> u16 \<Rightarrow> u16 \<Rightarrow> u32 \<Rightarrow> u32 \<Rightarrow> u8 list" where
  "nlmsghdr len type flags sq pid = u32_bytes len @ u16_bytes type @ u16_bytes flags @ u32_bytes sq @ u32_bytes pid"

text \<open>What \<open>%s\<close> reads: the bytes up to a NUL, which must be in the buffer.\<close>

fun c_bytes :: "u8 list \<Rightarrow> fault + u8 list" where
  "c_bytes [] = Inl Out_Of_Bounds"
| "c_bytes (b # bs) = (if b = 0 then Inr [] else andthen (c_bytes bs) (\<lambda>s. Inr (b # s)))"

text \<open>Writing bytes into a buffer, at an offset.\<close>

definition put_bytes :: "nat \<Rightarrow> u8 list \<Rightarrow> u8 list \<Rightarrow> fault + u8 list" where
  "put_bytes i new bs =
     (if i + length new \<le> length bs then Inr (take i bs @ new @ drop (i + length new) bs) else Inl Out_Of_Bounds)"

subsection \<open>The module\<close>

record nl_skb =
  nl_data :: "u8 list"
  nl_room :: nat
  dst_group :: u32

text \<open>
  \<open>nlmsg_put\<close> returns the offset of the header it has appended, or \<open>None\<close> for NULL; \<open>nlmsg_unicast\<close> gets the
  socket, the buffer and the process it is for.
\<close>

record ('s, 'w) nl_kernel =
  nlmsg_new :: "nat \<Rightarrow> 'w \<Rightarrow> nl_skb option \<times> 'w"
  nlmsg_put :: "nl_skb \<Rightarrow> u32 \<Rightarrow> u32 \<Rightarrow> u16 \<Rightarrow> nat \<Rightarrow> u16 \<Rightarrow> (nat \<times> nl_skb) option"
  nlmsg_unicast :: "'s \<Rightarrow> nl_skb \<Rightarrow> u32 \<Rightarrow> 'w \<Rightarrow> int \<times> 'w"

definition ack :: "u8 list" where "ack = [65, 67, 75]"

text \<open>\<open>nl_sk\<close> is the module's global; the payload printed to the log is part of the result.\<close>

definition on_receiving_data ::
  "('s, 'w) nl_kernel \<Rightarrow> 's option \<Rightarrow> u8 list option \<Rightarrow> 'w \<Rightarrow> fault + u8 list option \<times> 'w" where
  "on_receiving_data K nl_sk skb w =
     (case skb of None \<Rightarrow> Inr (None, w)
      | Some msg \<Rightarrow>
          andthen (c_bytes (drop NLMSG_HDRLEN msg)) (\<lambda>payload.
          andthen (u32_at msg 12) (\<lambda>pid.
            case nlmsg_new K (length ack) w of
              (None, w) \<Rightarrow> Inr (Some payload, w)
            | (Some skb_out, w) \<Rightarrow>
                (case nlmsg_put K skb_out 0 0 NLMSG_DONE (length ack) 0 of
                   None \<Rightarrow> Inl Null_Deref
                 | Some (nlh, skb_out) \<Rightarrow>
                     andthen (put_bytes (nlh + NLMSG_HDRLEN) ack (nl_data skb_out)) (\<lambda>data.
                     andthen (deref nl_sk) (\<lambda>sk.
                       let (res, w) = nlmsg_unicast K sk (skb_out\<lparr>nl_data := data, dst_group := 0\<rparr>) pid w
                       in Inr (Some payload, w)))))))"

definition netlink_latency_init :: "('w \<Rightarrow> 's option \<times> 'w) \<Rightarrow> 'w \<Rightarrow> int \<times> 's option \<times> 'w" where
  "netlink_latency_init netlink_kernel_create w =
     (let (nl_sk, w) = netlink_kernel_create w in
      if nl_sk = None then (-10, nl_sk, w) else (0, nl_sk, w))"

definition netlink_latency_exit :: "('s option \<Rightarrow> 'w \<Rightarrow> 'w) \<Rightarrow> 's option \<Rightarrow> 'w \<Rightarrow> 'w" where
  "netlink_latency_exit netlink_kernel_release nl_sk w = netlink_kernel_release nl_sk w"

subsection \<open>The program\<close>

text \<open>
  \<open>recvmsg\<close> waits for a message, which may never come: \<open>None\<close>.  It delivers at most as many bytes as the
  buffer has.
\<close>

record 'w nl_os =
  nl_socket :: "'w \<Rightarrow> int \<times> 'w"
  nl_getpid :: u32
  nl_bind :: "int \<Rightarrow> u32 \<Rightarrow> 'w \<Rightarrow> int \<times> 'w"
  nl_malloc :: "nat \<Rightarrow> 'w \<Rightarrow> addr option \<times> 'w"
  nl_clock :: "'w \<Rightarrow> (int \<times> int) \<times> 'w"
  nl_sendmsg :: "int \<Rightarrow> u8 list \<Rightarrow> 'w \<Rightarrow> int \<times> 'w"
  nl_recvmsg :: "int \<Rightarrow> nat \<Rightarrow> 'w \<Rightarrow> ((int \<times> u8 list) \<times> 'w) option"
  nl_close :: "int \<Rightarrow> 'w \<Rightarrow> 'w"

definition MAX_PAYLOAD :: nat where "MAX_PAYLOAD = 1024"

text \<open>The buffer the program fills in: zeros, then the header's fields, then ``Hello'' with its NUL.\<close>

definition hello :: "u8 list" where "hello = [72, 101, 108, 108, 111, 0]"

definition request :: "u32 \<Rightarrow> fault + u8 list" where
  "request pid =
     (let n = NLMSG_SPACE MAX_PAYLOAD in
      andthen (put_bytes 0 (u32_bytes (of_nat n)) (replicate n 0)) (\<lambda>nlh.
      andthen (put_bytes 12 (u32_bytes pid) nlh) (\<lambda>nlh.
      andthen (put_bytes 6 (u16_bytes 0) nlh) (\<lambda>nlh.
        put_bytes NLMSG_HDRLEN hello nlh))))"

text \<open>
  The result: the exit status, and, when the exchange took place, the buffer after it and the two numbers of
  the printed duration, which \<open>%llu\<close> prints as unsigned.
\<close>

definition netlink_main :: "'w nl_os \<Rightarrow> 'w \<Rightarrow> (int \<times> (u8 list \<times> 64 word \<times> 64 word) option \<times> 'w) run" where
  "netlink_main os w =
     (let (sock_fd, w) = nl_socket os w in
      if sock_fd < 0 then ret (-1, None, w)
      else let (_, w) = nl_bind os sock_fd (nl_getpid os) w;
               (nlh, w) = nl_malloc os (NLMSG_SPACE MAX_PAYLOAD) w
      in case nlh of None \<Rightarrow> stuck Null_Deref
         | Some _ \<Rightarrow>
             seq (Some (request (nl_getpid os))) (\<lambda>buf.
               let ((s0, n0), w) = nl_clock os w;
                   (_, w) = nl_sendmsg os sock_fd buf w
               in Option.bind (nl_recvmsg os sock_fd (length buf) w) (\<lambda>((_, got), w).
                 let ((s1, n1), w) = nl_clock os w
                 in ret (0, Some (got @ drop (length got) buf, word_of_int (s1 - s0), word_of_int (n1 - n0)),
                         nl_close os sock_fd w))))"

subsection \<open>What the kernel documents\<close>

text \<open>
  \<open>nlmsg_new n\<close> gives an empty buffer with room for a message of \<open>n\<close> bytes, or NULL; \<open>nlmsg_put\<close> fails only
  for want of room, else it appends the header and \<open>n\<close> uninitialised bytes, and zeros up to a multiple of four.
\<close>

definition nl_documented :: "('s, 'w) nl_kernel \<Rightarrow> bool" where
  "nl_documented K \<longleftrightarrow>
     (\<forall>n w skb w'. nlmsg_new K n w = (Some skb, w') \<longrightarrow> nl_data skb = [] \<and> NLMSG_SPACE n \<le> nl_room skb) \<and>
     (\<forall>n skb pid sq type flags. NLMSG_SPACE n \<le> nl_room skb \<longrightarrow>
        (\<exists>body. length body = n \<and>
           nlmsg_put K skb pid sq type n flags =
             Some (length (nl_data skb),
                   skb\<lparr>nl_data := nl_data skb @ nlmsghdr (of_nat (NLMSG_HDRLEN + n)) type flags sq pid @ body @
                               replicate (NLMSG_SPACE n - (NLMSG_HDRLEN + n)) 0,
                       nl_room := nl_room skb - NLMSG_SPACE n\<rparr>)))"

text \<open>The message the module answers with: header, ``ACK'', and a byte of padding.\<close>

definition reply :: "u8 list" where
  "reply = nlmsghdr 19 NLMSG_DONE 0 0 0 @ ack @ [0]"

lemma length_nlmsghdr [simp]: "length (nlmsghdr len type flags sq pid) = 16"
  by (simp add: nlmsghdr_def u16_bytes_def)

lemma c_bytes_append: "0 \<notin> set s \<Longrightarrow> c_bytes (s @ 0 # rest) = Inr s"
  by (induction s) auto

lemma c_bytes_unterminated: "0 \<notin> set s \<Longrightarrow> c_bytes s = Inl Out_Of_Bounds"
  by (induction s) auto

lemma length_ack [simp]: "length ack = 3"
  by (simp add: ack_def)

lemma nlmsg_putD:
  assumes "nl_documented K" and "NLMSG_SPACE n \<le> nl_room skb"
  shows "\<exists>body. length body = n \<and>
           nlmsg_put K skb pid sq type n flags =
             Some (length (nl_data skb),
                   skb\<lparr>nl_data := nl_data skb @ nlmsghdr (of_nat (NLMSG_HDRLEN + n)) type flags sq pid @ body @
                               replicate (NLMSG_SPACE n - (NLMSG_HDRLEN + n)) 0,
                       nl_room := nl_room skb - NLMSG_SPACE n\<rparr>)"
  using assms(1) [unfolded nl_documented_def, THEN conjunct2, rule_format, OF assms(2)] .

lemma put_ack:
  assumes "nl_documented K" and "nlmsg_new K 3 w = (Some skb, w')"
  obtains out where "nlmsg_put K skb 0 0 NLMSG_DONE 3 0 = Some (0, out)"
    "put_bytes NLMSG_HDRLEN ack (nl_data out) = Inr reply"
proof -
  have skb: "nl_data skb = []" "NLMSG_SPACE 3 \<le> nl_room skb"
    using assms unfolding nl_documented_def by blast+
  then obtain body where body: "length body = 3"
    "nlmsg_put K skb 0 0 NLMSG_DONE 3 0 = Some (0, skb\<lparr>nl_data := nlmsghdr 19 NLMSG_DONE 0 0 0 @ body @ [0],
        nl_room := nl_room skb - NLMSG_SPACE 3\<rparr>)"
    using nlmsg_putD [OF assms(1) skb(2), of 0 0 NLMSG_DONE 0]
    by (auto simp: NLMSG_SPACE_def NLMSG_ALIGN_def NLMSG_HDRLEN_def)
  show thesis
    using body by (intro that [of "skb\<lparr>nl_data := nlmsghdr 19 NLMSG_DONE 0 0 0 @ body @ [0],
        nl_room := nl_room skb - NLMSG_SPACE 3\<rparr>"]) (simp_all add: put_bytes_def reply_def ack_def NLMSG_HDRLEN_def)
qed

lemma on_receiving_data_answer:
  assumes "nl_documented K" and "16 \<le> length msg" and "c_bytes (drop 16 msg) = Inr payload"
  shows "on_receiving_data K (Some sk) (Some msg) w =
    (case nlmsg_new K 3 w of
       (None, w) \<Rightarrow> Inr (Some payload, w)
     | (Some skb, w) \<Rightarrow>
         Inr (Some payload, snd (nlmsg_unicast K sk
           (snd (the (nlmsg_put K skb 0 0 NLMSG_DONE 3 0))\<lparr>nl_data := reply, dst_group := 0\<rparr>)
           (u32_of_bytes (take 4 (drop 12 msg))) w)))"
proof (cases "nlmsg_new K 3 w")
  case (Pair r w')
  show ?thesis
  proof (cases r)
    case None
    then show ?thesis
      using assms(2,3) Pair by (simp add: on_receiving_data_def NLMSG_HDRLEN_def u32_at_def)
  next
    case (Some skb)
    then obtain out where "nlmsg_put K skb 0 0 NLMSG_DONE 3 0 = Some (0, out)"
      "put_bytes NLMSG_HDRLEN ack (nl_data out) = Inr reply"
      using put_ack [OF assms(1)] Pair by blast
    then show ?thesis
      using assms(2,3) Pair Some
      by (simp add: on_receiving_data_def NLMSG_HDRLEN_def u32_at_def deref_def Let_def split_beta)
  qed
qed

lemma u32_at_short: "length bs < i + 4 \<Longrightarrow> u32_at bs i = Inl Out_Of_Bounds"
  by (simp add: u32_at_def)

lemma on_receiving_data_unterminated:
  "0 \<notin> set (drop 16 msg) \<Longrightarrow> on_receiving_data K nl_sk (Some msg) w = Inl Out_Of_Bounds"
  by (simp add: on_receiving_data_def NLMSG_HDRLEN_def c_bytes_unterminated)

subsection \<open>The program and the module together\<close>

text \<open>
  The module is loaded, and its messages for the program's process are queued in \<open>inbox\<close>: \<open>sendmsg\<close> runs
  \<open>on_receiving_data\<close> on the message, \<open>recvmsg\<close> takes the first of the queue or waits for ever.
\<close>

definition nl_connected :: "('s, 'w) nl_kernel \<Rightarrow> 's \<Rightarrow> 'w nl_os \<Rightarrow> ('w \<Rightarrow> u8 list list) \<Rightarrow> bool" where
  "nl_connected K sk os inbox \<longleftrightarrow>
     (\<forall>fd msg w r w'. on_receiving_data K (Some sk) (Some msg) w = Inr (r, w') \<longrightarrow> snd (nl_sendmsg os fd msg w) = w') \<and>
     (\<forall>fd n w. inbox w = [] \<longrightarrow> nl_recvmsg os fd n w = None) \<and>
     (\<forall>fd n w m ms. inbox w = m # ms \<longrightarrow>
        (\<exists>w'. nl_recvmsg os fd n w = Some ((int (min n (length m)), take n m), w') \<and> inbox w' = ms)) \<and>
     (\<forall>skb w. inbox (snd (nlmsg_unicast K sk skb (nl_getpid os) w)) = inbox w @ [nl_data skb]) \<and>
     (\<forall>n w. inbox (snd (nlmsg_new K n w)) = inbox w) \<and>
     (\<forall>w. inbox (snd (nl_socket os w)) = inbox w) \<and>
     (\<forall>fd pid w. inbox (snd (nl_bind os fd pid w)) = inbox w) \<and>
     (\<forall>n w. inbox (snd (nl_malloc os n w)) = inbox w) \<and>
     (\<forall>w. inbox (snd (nl_clock os w)) = inbox w)"

lemma nl_connectedD:
  assumes "nl_connected K sk os inbox"
  shows "on_receiving_data K (Some sk) (Some msg) w = Inr (r, w') \<Longrightarrow> snd (nl_sendmsg os fd msg w) = w'"
    and "inbox w = [] \<Longrightarrow> nl_recvmsg os fd n w = None"
    and "inbox w = m # ms \<Longrightarrow> \<exists>w'. nl_recvmsg os fd n w = Some ((int (min n (length m)), take n m), w') \<and> inbox w' = ms"
    and "inbox (snd (nlmsg_unicast K sk skb (nl_getpid os) w)) = inbox w @ [nl_data skb]"
  using assms by (simp_all add: nl_connected_def)

definition request_bytes :: "u32 \<Rightarrow> u8 list" where
  "request_bytes pid = nlmsghdr 1040 0 0 0 pid @ hello @ replicate 1018 0"

lemma put_bytes_append:
  "length old = length new \<Longrightarrow> put_bytes (length xs) new (xs @ old @ ys) = Inr (xs @ new @ ys)"
  by (simp add: put_bytes_def)

lemma request_bytes: "request pid = Inr (request_bytes pid)"
proof -
  have n: "NLMSG_SPACE MAX_PAYLOAD = 1040"
    by (simp add: NLMSG_SPACE_def NLMSG_ALIGN_def NLMSG_HDRLEN_def MAX_PAYLOAD_def)
  let ?z = "\<lambda>k. replicate k (0 :: u8)"
  have zero: "u16_bytes 0 = ?z 2" "u32_bytes 0 = ?z 4"
    by (simp_all add: u16_bytes_def u32_bytes_def numeral_eq_Suc)
  have len: "length (u16_bytes x) = 2" "length hello = 6" for x
    by (simp_all add: u16_bytes_def hello_def)
  have 1: "put_bytes 0 (u32_bytes 1040) (?z 4 @ ?z 2 @ ?z 2 @ ?z 4 @ ?z 4 @ ?z 6 @ ?z 1018)
      = Inr (u32_bytes 1040 @ ?z 2 @ ?z 2 @ ?z 4 @ ?z 4 @ ?z 6 @ ?z 1018)"
    using put_bytes_append [of "?z 4" "u32_bytes 1040" "[]"] by simp
  have 2: "put_bytes 12 (u32_bytes pid) (u32_bytes 1040 @ ?z 2 @ ?z 2 @ ?z 4 @ ?z 4 @ ?z 6 @ ?z 1018)
      = Inr (u32_bytes 1040 @ ?z 2 @ ?z 2 @ ?z 4 @ u32_bytes pid @ ?z 6 @ ?z 1018)"
    using put_bytes_append [of "?z 4" "u32_bytes pid" "u32_bytes 1040 @ ?z 2 @ ?z 2 @ ?z 4"] by simp
  have 3: "put_bytes 6 (u16_bytes 0) (u32_bytes 1040 @ ?z 2 @ ?z 2 @ ?z 4 @ u32_bytes pid @ ?z 6 @ ?z 1018)
      = Inr (u32_bytes 1040 @ ?z 2 @ u16_bytes 0 @ ?z 4 @ u32_bytes pid @ ?z 6 @ ?z 1018)"
    using put_bytes_append [of "?z 2" "u16_bytes 0" "u32_bytes 1040 @ ?z 2"] by (simp add: len)
  have 4: "put_bytes 16 hello (u32_bytes 1040 @ ?z 2 @ u16_bytes 0 @ ?z 4 @ u32_bytes pid @ ?z 6 @ ?z 1018)
      = Inr (u32_bytes 1040 @ ?z 2 @ u16_bytes 0 @ ?z 4 @ u32_bytes pid @ hello @ ?z 1018)"
    using put_bytes_append [of "?z 6" hello "u32_bytes 1040 @ ?z 2 @ u16_bytes 0 @ ?z 4 @ u32_bytes pid"]
    by (simp add: len)
  have z: "replicate 1040 0 = ?z 4 @ ?z 2 @ ?z 2 @ ?z 4 @ ?z 4 @ ?z 6 @ ?z 1018"
    by (simp flip: replicate_add)
  have "request pid = andthen (put_bytes 0 (u32_bytes 1040) (replicate 1040 0)) (\<lambda>nlh.
      andthen (put_bytes 12 (u32_bytes pid) nlh) (\<lambda>nlh.
      andthen (put_bytes 6 (u16_bytes 0) nlh) (\<lambda>nlh. put_bytes 16 hello nlh)))"
    by (simp add: request_def n NLMSG_HDRLEN_def)
  also have "\<dots> = Inr (u32_bytes 1040 @ ?z 2 @ u16_bytes 0 @ ?z 4 @ u32_bytes pid @ hello @ ?z 1018)"
    by (simp only: z 1 2 3 4 andthen_simps)
  finally show ?thesis by (simp only: request_bytes_def nlmsghdr_def zero append_assoc)
qed

lemma length_request_bytes [simp]: "length (request_bytes pid) = 1040"
  by (simp add: request_bytes_def hello_def)

lemma request_parts:
  "drop 16 (request_bytes pid) = [72, 101, 108, 108, 111] @ 0 # replicate 1018 0"
  "u32_of_bytes (take 4 (drop 12 (request_bytes pid))) = pid"
proof -
  show "drop 16 (request_bytes pid) = [72, 101, 108, 108, 111] @ 0 # replicate 1018 0"
    by (simp add: request_bytes_def hello_def)
  have "drop 12 (request_bytes pid) = u32_bytes pid @ hello @ replicate 1018 0"
    by (simp add: request_bytes_def nlmsghdr_def u16_bytes_def)
  then show "u32_of_bytes (take 4 (drop 12 (request_bytes pid))) = pid" by simp
qed

text \<open>What the module does to the inbox of a process that has sent it the request.\<close>

lemma request_answered:
  assumes K: "nl_documented K" and con: "nl_connected K sk os inbox"
  shows "inbox (snd (nl_sendmsg os fd (request_bytes (nl_getpid os)) w)) =
    inbox w @ (if fst (nlmsg_new K 3 w) = None then [] else [reply])"
proof -
  let ?msg = "request_bytes (nl_getpid os)"
  have c: "c_bytes (drop 16 ?msg) = Inr [72, 101, 108, 108, 111]"
    unfolding request_parts(1) by (rule c_bytes_append) simp
  note ans = on_receiving_data_answer [OF K _ c, of sk w]
  obtain r w' where new: "nlmsg_new K 3 w = (r, w')" by fastforce
  have inbox: "inbox w' = inbox w" using con new unfolding nl_connected_def by (metis snd_conv)
  have send: "snd (nl_sendmsg os fd ?msg w) = v" if "on_receiving_data K (Some sk) (Some ?msg) w = Inr (x, v)" for x v
    using nl_connectedD(1) [OF con that] .
  show ?thesis
  proof (cases r)
    case None
    then have "on_receiving_data K (Some sk) (Some ?msg) w = Inr (Some [72, 101, 108, 108, 111], w')"
      using ans new by simp
    from send [OF this] show ?thesis using inbox new None by simp
  next
    case (Some skb)
    define out where "out = snd (the (nlmsg_put K skb 0 0 NLMSG_DONE 3 0))\<lparr>nl_data := reply, dst_group := 0\<rparr>"
    have "nl_data out = reply"
      "on_receiving_data K (Some sk) (Some ?msg) w =
         Inr (Some [72, 101, 108, 108, 111], snd (nlmsg_unicast K sk out (nl_getpid os) w'))"
      using ans new Some by (simp_all add: request_parts(2) out_def)
    moreover from this have "inbox (snd (nlmsg_unicast K sk out (nl_getpid os) w')) = inbox w' @ [reply]"
      using nl_connectedD(4) [OF con] by simp
    ultimately show ?thesis using send inbox new Some by simp
  qed
qed

lemma length_reply [simp]: "length reply = 20"
  by (simp add: reply_def)

lemma netlink_exchange:
  assumes K: "nl_documented K" and con: "nl_connected K sk os inbox"
    and empty: "inbox w = []" and sock: "nl_socket os w = (fd, w1)" "0 \<le> fd"
    and mem: "\<And>n w. fst (nl_malloc os n w) \<noteq> None"
  shows "(\<forall>w. fst (nlmsg_new K 3 w) \<noteq> None) \<Longrightarrow>
           \<exists>s ns w'. netlink_main os w = ret (0, Some (reply @ drop 20 (request_bytes (nl_getpid os)), s, ns), w')"
    and "(\<forall>w. fst (nlmsg_new K 3 w) = None) \<Longrightarrow> netlink_main os w = None"
proof -
  define w2 where "w2 = snd (nl_bind os fd (nl_getpid os) w1)"
  obtain p w3 where m: "nl_malloc os (NLMSG_SPACE MAX_PAYLOAD) w2 = (Some p, w3)"
    using mem [of "NLMSG_SPACE MAX_PAYLOAD" w2] by (cases "nl_malloc os (NLMSG_SPACE MAX_PAYLOAD) w2") auto
  obtain s0 n0 w4 where clk: "nl_clock os w3 = ((s0, n0), w4)" by (metis surj_pair)
  define w5 where "w5 = snd (nl_sendmsg os fd (request_bytes (nl_getpid os)) w4)"
  have i1: "inbox w1 = []" using con empty sock unfolding nl_connected_def by (metis snd_conv)
  then have i2: "inbox w2 = []" using con unfolding nl_connected_def w2_def by metis
  then have i3: "inbox w3 = []" using con m unfolding nl_connected_def by (metis snd_conv)
  then have i4: "inbox w4 = []" using con clk unfolding nl_connected_def by (metis snd_conv)
  have i5: "inbox w5 = (if fst (nlmsg_new K 3 w4) = None then [] else [reply])"
    using request_answered [OF K con, of fd w4] i4 by (simp add: w5_def)
  have main: "netlink_main os w = Option.bind (nl_recvmsg os fd 1040 w5) (\<lambda>((_, got), w).
       let ((s1, n1), w) = nl_clock os w
       in ret (0, Some (got @ drop (length got) (request_bytes (nl_getpid os)), word_of_int (s1 - s0), word_of_int (n1 - n0)),
               nl_close os fd w))"
    using sock m clk
    by (simp add: netlink_main_def request_bytes ret_def [symmetric] w2_def [symmetric] w5_def split_beta Let_def)
  show "netlink_main os w = None" if "\<forall>w. fst (nlmsg_new K 3 w) = None"
  proof -
    have "nl_recvmsg os fd 1040 w5 = None" using con i5 that unfolding nl_connected_def by simp
    then show ?thesis using main by simp
  qed
  show "\<exists>s ns w'. netlink_main os w = ret (0, Some (reply @ drop 20 (request_bytes (nl_getpid os)), s, ns), w')"
    if "\<forall>w. fst (nlmsg_new K 3 w) \<noteq> None"
  proof -
    have "inbox w5 = reply # []" using i5 that by simp
    then have "\<exists>w6. nl_recvmsg os fd 1040 w5 = Some ((int (min 1040 (length reply)), take 1040 reply), w6)"
      using nl_connectedD(3) [OF con, of w5 reply "[]" fd 1040] by blast
    then obtain w6 where r: "nl_recvmsg os fd 1040 w5 = Some ((20, reply), w6)" by auto
    obtain s1 n1 w7 where c: "nl_clock os w6 = ((s1, n1), w7)" by (metis surj_pair)
    show ?thesis using main r c by auto
  qed
qed

subsection \<open>A kernel and a process to run them on\<close>

text \<open>The state is the inbox; \<open>memory\<close> says whether the kernel can allocate.\<close>

definition demo_nl :: "bool \<Rightarrow> (unit, u8 list list) nl_kernel" where
  "demo_nl memory =
     \<lparr>nlmsg_new = (\<lambda>n w. (if memory then Some \<lparr>nl_data = [], nl_room = NLMSG_SPACE n, dst_group = 0\<rparr> else None, w)),
      nlmsg_put = (\<lambda>skb pid sq type n flags.
        if NLMSG_SPACE n \<le> nl_room skb
        then Some (length (nl_data skb),
          skb\<lparr>nl_data := nl_data skb @ nlmsghdr (of_nat (NLMSG_HDRLEN + n)) type flags sq pid @ replicate n 0 @
                 replicate (NLMSG_SPACE n - (NLMSG_HDRLEN + n)) 0, nl_room := nl_room skb - NLMSG_SPACE n\<rparr>)
        else None),
      nlmsg_unicast = (\<lambda>sk skb pid w. (int (length (nl_data skb)), w @ [nl_data skb]))\<rparr>"

definition demo_nl_os :: "bool \<Rightarrow> u8 list list nl_os" where
  "demo_nl_os memory =
     \<lparr>nl_socket = (\<lambda>w. (3, w)), nl_getpid = 77, nl_bind = (\<lambda>_ _ w. (0, w)), nl_malloc = (\<lambda>n w. (Some 1, w)),
      nl_clock = (\<lambda>w. ((0, 0), w)),
      nl_sendmsg = (\<lambda>fd msg w. case on_receiving_data (demo_nl memory) (Some ()) (Some msg) w of
          Inl _ \<Rightarrow> (-1, w) | Inr (_, w') \<Rightarrow> (int (length msg), w')),
      nl_recvmsg = (\<lambda>fd n w. case w of [] \<Rightarrow> None
          | m # ms \<Rightarrow> Some ((int (min n (length m)), take n m), ms)),
      nl_close = (\<lambda>_ w. w)\<rparr>"

lemma demo_nl_documented: "nl_documented (demo_nl memory)"
  by (auto simp: nl_documented_def demo_nl_def intro!: exI [of _ "replicate _ 0"] split: if_splits)

lemma demo_nl_connected: "nl_connected (demo_nl memory) () (demo_nl_os memory) (\<lambda>w. w)"
  by (auto simp: nl_connected_def demo_nl_os_def) (auto simp: demo_nl_def)

subsection \<open>Properties\<close>

text \<open>C38: the module answers a message whose payload is a C string with one message to the process named in
  its header: ``ACK'' behind a header of length 19 and type \<open>NLMSG_DONE\<close>; without memory it does nothing.
  A message that has no NUL behind its header is read past its end.\<close>

theorem on_receiving_data_correct:
  assumes "nl_documented K"
  shows "(0 \<notin> set (drop 16 msg) \<longrightarrow> on_receiving_data K (Some sk) (Some msg) w = Inl Out_Of_Bounds) \<and>
    (\<forall>s rest. drop 16 msg = s @ 0 # rest \<and> 0 \<notin> set s \<longrightarrow>
      (case nlmsg_new K 3 w of
         (None, w') \<Rightarrow> on_receiving_data K (Some sk) (Some msg) w = Inr (Some s, w')
       | (Some skb, w') \<Rightarrow>
           \<exists>out. nl_data out = reply \<and> dst_group out = 0 \<and>
             on_receiving_data K (Some sk) (Some msg) w =
               Inr (Some s, snd (nlmsg_unicast K sk out (u32_of_bytes (take 4 (drop 12 msg))) w'))))"
proof (intro conjI impI allI)
  assume "0 \<notin> set (drop 16 msg)"
  then show "on_receiving_data K (Some sk) (Some msg) w = Inl Out_Of_Bounds"
    by (rule on_receiving_data_unterminated)
next
  fix s rest assume a: "drop 16 msg = s @ 0 # rest \<and> 0 \<notin> set s"
  then have "16 \<le> length msg" by (metis append_is_Nil_conv drop_all linorder_le_cases list.distinct(1))
  moreover have "c_bytes (drop 16 msg) = Inr s" using a by (simp add: c_bytes_append)
  ultimately show "case nlmsg_new K 3 w of
         (None, w') \<Rightarrow> on_receiving_data K (Some sk) (Some msg) w = Inr (Some s, w')
       | (Some skb, w') \<Rightarrow>
           \<exists>out. nl_data out = reply \<and> dst_group out = 0 \<and>
             on_receiving_data K (Some sk) (Some msg) w =
               Inr (Some s, snd (nlmsg_unicast K sk out (u32_of_bytes (take 4 (drop 12 msg))) w'))"
    using on_receiving_data_answer [OF assms, of msg s sk w]
    by (cases "nlmsg_new K 3 w") (auto split: option.split intro!: exI [of _ "_\<lparr>nl_data := _, dst_group := _\<rparr>"])
qed

theorem on_receiving_data_correct_witness:
  "on_receiving_data (demo_nl True) (Some ()) (Some (replicate 16 1)) [] = Inl Out_Of_Bounds"
  using on_receiving_data_correct [OF demo_nl_documented, where msg = "replicate 16 1"] by simp

text \<open>C21: the program and the module together: if the module can allocate its answer, the program ends, and its
  buffer then starts with the module's answer, whose payload reads ``ACK''; if the module cannot, it stays
  silent, and the program waits for ever.\<close>

theorem netlink_round_trip:
  assumes "nl_documented K" and "nl_connected K sk os inbox" and "inbox w = []"
    and "0 \<le> fst (nl_socket os w)" and "\<forall>n w. fst (nl_malloc os n w) \<noteq> None"
  shows "((\<forall>w. fst (nlmsg_new K 3 w) \<noteq> None) \<longrightarrow>
      (\<exists>buf s ns w'. netlink_main os w = ret (0, Some (buf, s, ns), w') \<and>
         length buf = 1040 \<and> take 20 buf = reply \<and> c_bytes (drop 16 buf) = Inr ack)) \<and>
    ((\<forall>w. fst (nlmsg_new K 3 w) = None) \<longrightarrow> netlink_main os w = None)"
proof -
  obtain fd w1 where sock: "nl_socket os w = (fd, w1)" "0 \<le> fd" using assms(4) by (metis prod.collapse)
  let ?buf = "reply @ drop 20 (request_bytes (nl_getpid os))"
  have "drop 16 ?buf = ack @ 0 # drop 20 (request_bytes (nl_getpid os))" by (simp add: reply_def)
  then have "c_bytes (drop 16 ?buf) = Inr ack" by (simp only: c_bytes_append) (simp add: c_bytes_append ack_def)
  then show ?thesis
    using netlink_exchange [OF assms(1-3) sock] assms(5) by auto
qed

theorem netlink_round_trip_witness:
  "(\<exists>buf s ns w'. netlink_main (demo_nl_os True) [] = ret (0, Some (buf, s, ns), w')) \<and>
   netlink_main (demo_nl_os False) [] = None"
proof -
  have os: "0 \<le> fst (nl_socket (demo_nl_os m) [])" "\<forall>n w. fst (nl_malloc (demo_nl_os m) n w) \<noteq> None" for m
    by (simp_all add: demo_nl_os_def)
  have mem: "\<forall>w. fst (nlmsg_new (demo_nl True) 3 w) \<noteq> None" "\<forall>w. fst (nlmsg_new (demo_nl False) 3 w) = None"
    by (simp_all add: demo_nl_def)
  show ?thesis
    using netlink_round_trip [OF demo_nl_documented demo_nl_connected refl os, of True] mem(1)
      netlink_round_trip [OF demo_nl_documented demo_nl_connected refl os, of False] mem(2) by blast
qed

end
