(* ===== verification/Signals.thy ===== *)
theory Signals
  imports Posix
begin

text \<open>
  Programs that wait: \<^verbatim>\<open>linux-signal/test-signal.c\<close>, which counts seconds and reports interrupts, and
  \<^verbatim>\<open>snooze/main.c\<close>, which reports how much of its sleep an interrupt has left.  \<open>signal\<close> and \<open>sleep\<close> are
  parameters; the handler runs when a sleep is interrupted.  Two programs that only report what they find are here
  too: \<^verbatim>\<open>detect-jit/main.cpp\<close> and \<^verbatim>\<open>alignment_test/test.c\<close>.
\<close>

subsection \<open>Counting seconds\<close>

definition SIGINT :: int where "SIGINT = 2"

datatype signal_line = Number int | Received_SIGINT | Cannot_Catch_SIGINT

definition sig_handler :: "int \<Rightarrow> signal_line list" where
  "sig_handler signo = (if signo = SIGINT then [Received_SIGINT] else [])"

text \<open>\<open>sleep\<close> gives the signals that arrive during one second; the lines printed are the result.\<close>

function signal_loop :: "('w \<Rightarrow> int list \<times> 'w) \<Rightarrow> int \<Rightarrow> 'w \<Rightarrow> signal_line list \<times> 'w" where
  "signal_loop sleep i w =
     (if i < 30 then
        let i = i + 1; (signals, w) = sleep w; (lines, w) = signal_loop sleep i w
        in (Number i # concat (map sig_handler signals) @ lines, w)
      else ([], w))"
  by pat_completeness auto
termination by (relation "measure (\<lambda>(sleep, i, w). nat (30 - i))") auto

declare signal_loop.simps [simp del]

text \<open>\<open>signal\<close> says whether it returned \<open>SIG_ERR\<close>.\<close>

definition signal_main :: "('w \<Rightarrow> bool \<times> 'w) \<Rightarrow> ('w \<Rightarrow> int list \<times> 'w) \<Rightarrow> 'w \<Rightarrow> int \<times> signal_line list \<times> 'w" where
  "signal_main signal sleep w =
     (let (sig_err, w) = signal w in
      if sig_err then (0, [Cannot_Catch_SIGINT], w)
      else let (lines, w) = signal_loop sleep 0 w in (0, lines, w))"

text \<open>The signals of \<open>n\<close> seconds, second by second.\<close>

fun seconds :: "('w \<Rightarrow> int list \<times> 'w) \<Rightarrow> nat \<Rightarrow> 'w \<Rightarrow> int list list \<times> 'w" where
  "seconds sleep 0 w = ([], w)"
| "seconds sleep (Suc n) w =
     (let (s, w) = sleep w; (ss, w) = seconds sleep n w in (s # ss, w))"

lemma signal_loop_seconds:
  "n \<le> 30 \<Longrightarrow> signal_loop sleep (30 - int n) w =
     (concat (map2 (\<lambda>i s. Number i # concat (map sig_handler s)) [31 - int n..30] (fst (seconds sleep n w))),
      snd (seconds sleep n w))"
proof (induction n arbitrary: w)
  case 0
  then show ?case by (simp add: signal_loop.simps)
next
  case (Suc n)
  obtain s v where s: "sleep w = (s, v)" by fastforce
  obtain ss u where ss: "seconds sleep n v = (ss, u)" by fastforce
  have n: "30 - int (Suc n) + 1 = 30 - int n" "[31 - int (Suc n)..30] = (30 - int n) # [31 - int n..30]"
    using Suc.prems by (simp_all add: upto_rec1)
  show ?case
    using Suc n s ss by (subst signal_loop.simps) simp
qed

subsection \<open>Sleeping\<close>

definition isdigit :: "char \<Rightarrow> bool" where
  "isdigit c \<longleftrightarrow> 48 \<le> (of_char c :: nat) \<and> (of_char c :: nat) \<le> 57"

definition isspace :: "char \<Rightarrow> bool" where
  "isspace c \<longleftrightarrow> (of_char c :: nat) = 32 \<or> 9 \<le> (of_char c :: nat) \<and> (of_char c :: nat) \<le> 13"

definition dec_value :: "string \<Rightarrow> int" where
  "dec_value ds = foldl (\<lambda>v c. 10 * v + (of_char c - 48)) 0 ds"

text \<open>The library's \<open>atoi\<close>: blanks, a sign, digits; the rest is ignored, and a value that does not fit is undefined.\<close>

definition atoi :: "string \<Rightarrow> int run" where
  "atoi s =
     (let s = dropWhile isspace s;
          (sign, s) = (if take 1 s = ''-'' then (-1, tl s) else if take 1 s = ''+'' then (1, tl s) else (1, s))
      in c_int (sign * dec_value (takeWhile isdigit s)))"

text \<open>The result of \<open>snooze\<close>: what it returns, and the two numbers it prints.\<close>

definition snooze :: "(u32 \<Rightarrow> 'w \<Rightarrow> u32 \<times> 'w) \<Rightarrow> u32 \<Rightarrow> 'w \<Rightarrow> u32 \<times> (u32 \<times> u32) \<times> 'w" where
  "snooze sleep secs w = (let (rc, w) = sleep secs w in (rc, (secs - rc, secs), w))"

definition snooze_main ::
  "('w \<Rightarrow> bool \<times> 'w) \<Rightarrow> (u32 \<Rightarrow> 'w \<Rightarrow> u32 \<times> 'w) \<Rightarrow> string list \<Rightarrow> 'w \<Rightarrow> (int \<times> (u32 \<times> u32) option \<times> 'w) run" where
  "snooze_main signal sleep argv w =
     (if length argv \<noteq> 2 then ret (1, None, w)
      else let (sig_err, w) = signal w in
        if sig_err then ret (1, None, w)
        else seq (atoi (argv ! 1)) (\<lambda>n.
          let (_, out, w) = snooze sleep (word_of_int n) w in ret (0, Some out, w)))"

text \<open>\<open>sleep\<close> returns how many of the seconds are left.\<close>

definition sleep_documented :: "(u32 \<Rightarrow> 'w \<Rightarrow> u32 \<times> 'w) \<Rightarrow> bool" where
  "sleep_documented sleep \<longleftrightarrow> (\<forall>n w. fst (sleep n w) \<le> n)"

lemma digit_not_space: "isdigit c \<Longrightarrow> \<not> isspace c" "isdigit c \<Longrightarrow> c \<noteq> CHR ''-'' \<and> c \<noteq> CHR ''+''"
  by (auto simp: isdigit_def isspace_def)

lemma dec_value_nonneg:
  assumes "\<forall>c \<in> set ds. isdigit c"
  shows "0 \<le> dec_value ds"
proof -
  have "0 \<le> foldl (\<lambda>v c. 10 * v + (of_char c - 48)) v ds" if "0 \<le> v" "\<forall>c \<in> set ds. isdigit c" for v :: int and ds
    using that
  proof (induction ds arbitrary: v)
    case (Cons c ds)
    have "48 \<le> (of_char c :: nat)" using Cons.prems(2) by (simp add: isdigit_def)
    then have "(48 :: int) \<le> int (of_char c)" by linarith
    then have "(48 :: int) \<le> of_char c" by (simp only: of_nat_of_char)
    then have "0 \<le> 10 * v + (of_char c - 48)" using Cons.prems(1) by linarith
    then show ?case using Cons.IH Cons.prems(2) by simp
  qed simp
  then show ?thesis using assms by (simp add: dec_value_def)
qed

lemma atoi_digits:
  assumes "ds \<noteq> []" "\<forall>c \<in> set ds. isdigit c" "dec_value ds \<le> INT_MAX"
  shows "atoi ds = ret (dec_value ds)" "atoi (CHR ''-'' # ds) = ret (- dec_value ds)"
proof -
  have t: "takeWhile isdigit ds = ds" using assms(2) by (simp add: takeWhile_eq_all_conv)
  obtain c cs where ds: "ds = c # cs" using assms(1) by (cases ds) auto
  then have c: "\<not> isspace c" "c \<noteq> CHR ''-''" "c \<noteq> CHR ''+''"
    using assms(2) digit_not_space by auto
  have "take 1 ds \<noteq> ''-''" "take 1 ds \<noteq> ''+''" using c ds by simp_all
  moreover have "dropWhile isspace ds = ds" using c ds by simp
  ultimately show "atoi ds = ret (dec_value ds)"
    using dec_value_nonneg [OF assms(2)] assms(3) by (simp add: atoi_def INT_MAX_def t)
  have "\<not> isspace CHR ''-''" by (simp add: isspace_def)
  then show "atoi (CHR ''-'' # ds) = ret (- dec_value ds)"
    using dec_value_nonneg [OF assms(2)] assms(3) by (simp add: atoi_def INT_MAX_def t)
qed

lemma snooze_accounts:
  assumes "sleep_documented sleep"
  shows "case snooze sleep secs w of (rc, (slept, asked), _) \<Rightarrow>
    asked = secs \<and> slept \<le> secs \<and> unat slept + unat rc = unat secs"
proof (cases "sleep secs w")
  case (Pair rc w')
  have "rc \<le> secs" using assms Pair unfolding sleep_documented_def by (metis fst_conv)
  then show ?thesis
    using Pair by (simp add: snooze_def word_le_nat_alt unat_sub)
qed

subsection \<open>Reports\<close>

text \<open>\<open>pcre_config\<close> returns a status and the value it stores.\<close>

datatype jit_report = Support_JIT | Do_Not_Support_JIT | Unknown_Result int | Error_With_Config

definition detect_jit :: "int \<times> int \<Rightarrow> int \<times> jit_report" where
  "detect_jit pcre_config =
     (let (status, support_jit) = pcre_config in
      (0, if status = 0 then
            if support_jit = 1 then Support_JIT
            else if support_jit = 0 then Do_Not_Support_JIT
            else Unknown_Result support_jit
          else Error_With_Config))"

text \<open>
  Structure alignment: the compiler chooses the offsets of the fields and the size, the program prints them.  An
  offset is the difference of two addresses cut to 32 bits, as an \<open>int\<close>.
\<close>

definition field_offset :: "u64 \<Rightarrow> nat \<Rightarrow> int" where
  "field_offset t off = to_int (uint (ucast (t + of_nat off) - ucast t :: u32))"

definition alignment_main :: "nat list \<Rightarrow> nat \<Rightarrow> u64 \<Rightarrow> int \<times> int list \<times> int" where
  "alignment_main offsets bytes t = (0, map (field_offset t) offsets, to_int (int bytes))"

lemma field_offset_exact:
  assumes "off < 2 ^ 31"
  shows "field_offset t off = int off"
proof -
  have cut: "(word_of_int (k mod 2 ^ 64) :: u32) = word_of_int k" for k
    unfolding word_of_int_eq_iff take_bit_eq_mod by (simp add: mod_mod_cancel)
  have "uint (t + of_nat off) = (uint t + int off) mod 2 ^ 64"
    by (simp add: uint_word_ariths unsigned_of_nat take_bit_eq_mod zmod_int mod_simps)
  then have "(ucast (t + of_nat off) :: u32) = word_of_int (uint t + int off)"
    unfolding ucast_eq using cut by metis
  then have "(ucast (t + of_nat off) :: u32) = ucast t + of_nat off"
    by (simp only: ucast_eq [of t] of_int_add of_int_of_nat_eq)
  then have "ucast (t + of_nat off) - ucast t = (of_nat off :: u32)" by simp
  moreover have "uint (of_nat off :: u32) = int off" using assms by (simp add: unsigned_of_nat take_bit_nat_eq_self)
  ultimately show ?thesis using assms by (simp add: field_offset_def INT_MAX_def)
qed

subsection \<open>Properties\<close>

text \<open>The counter prints 1 to 30, one number per second and in order, whatever signals arrive, and behind
  each number one line for every SIGINT of that second.\<close>

theorem signal_main_correct:
  assumes "signal w = (False, w')"
  shows "signal_main signal sleep w =
    (0, concat (map2 (\<lambda>i s. Number i # replicate (count_list s SIGINT) Received_SIGINT) [1..30]
          (fst (seconds sleep 30 w'))), snd (seconds sleep 30 w'))"
proof -
  have "concat (map sig_handler s) = replicate (count_list s SIGINT) Received_SIGINT" for s
    by (induction s) (simp_all add: sig_handler_def)
  then show ?thesis
    using signal_loop_seconds [of 30 sleep w'] assms by (simp add: signal_main_def)
qed

theorem signal_main_correct_witness:
  "signal_main (\<lambda>w. (False, w)) (\<lambda>w. ([], w)) (0 :: nat) = (0, map Number [1..30], 0)"
proof -
  have s: "seconds (\<lambda>w. ([], w)) n (0 :: nat) = (replicate n [], 0)" for n by (induction n) simp_all
  have "concat (map2 (\<lambda>i s. Number i # replicate (count_list s SIGINT) Received_SIGINT) xs (replicate (length xs) []))
      = map Number xs" for xs
    by (induction xs) simp_all
  from this [of "[1..30]"] show ?thesis
    using signal_main_correct [of "\<lambda>w. (False, w)" "0 :: nat" 0 "\<lambda>w. ([], w)"] by (simp add: s)
qed

text \<open>\<open>snooze\<close> reports sleep and remainder that add up to the seconds asked for, and never wraps; the program
  sleeps for the number on its command line, but a negative number, which nothing rejects, becomes a sleep of up to
  136 years.\<close>

theorem snooze_main_correct:
  assumes "sleep_documented sleep" and "ds \<noteq> []" and "list_all isdigit ds" and "dec_value ds \<le> INT_MAX"
    and "signal w = (False, w')"
  shows "(\<exists>slept rc. sleep (word_of_int (dec_value ds)) w' = (rc, snd (sleep (word_of_int (dec_value ds)) w')) \<and>
        uint slept + uint rc = dec_value ds \<and>
        snooze_main signal sleep [prog, ds] w =
          ret (0, Some (slept, word_of_int (dec_value ds)), snd (sleep (word_of_int (dec_value ds)) w'))) \<and>
    snooze_main signal sleep [prog, CHR ''-'' # ds] w =
      (let (rc, v) = sleep (- word_of_int (dec_value ds)) w'
       in ret (0, Some (- word_of_int (dec_value ds) - rc, - word_of_int (dec_value ds)), v))"
proof -
  have ds: "\<forall>c \<in> set ds. isdigit c" using assms(3) by (simp add: list_all_iff)
  note n = dec_value_nonneg [OF ds] atoi_digits [OF assms(2) ds assms(4)]
  let ?n = "word_of_int (dec_value ds) :: u32"
  obtain rc v where r: "sleep ?n w' = (rc, v)" by fastforce
  have u: "uint ?n = dec_value ds" using n(1) assms(4) by (simp add: INT_MAX_def unsigned_of_int take_bit_int_eq_self)
  have "rc \<le> ?n" using assms(1) r unfolding sleep_documented_def by (metis fst_conv)
  then have "uint (?n - rc) + uint rc = dec_value ds" using u uint_sub_lem [of rc ?n] by (simp add: word_le_def)
  moreover have "snooze_main signal sleep [prog, ds] w = ret (0, Some (?n - rc, ?n), v)"
    using assms(5) n(2) r by (simp add: snooze_main_def snooze_def)
  moreover have "snooze_main signal sleep [prog, CHR ''-'' # ds] w =
      (let (rc, v) = sleep (- ?n) w' in ret (0, Some (- ?n - rc, - ?n), v))"
    using assms(5) n(3) by (simp add: snooze_main_def snooze_def split_beta Let_def)
  ultimately show ?thesis using r by auto
qed

theorem snooze_main_correct_witness:
  "\<exists>slept (rc :: u32). uint slept + uint rc = 12 \<and>
     snooze_main (\<lambda>w. (False, w)) (\<lambda>n w. (n div 2, w)) [''snooze'', ''12''] (0 :: nat) = ret (0, Some (slept, 12), 0)"
proof -
  have "sleep_documented (\<lambda>n (w :: nat). (n div 2, w))"
    by (simp add: sleep_documented_def word_le_nat_alt unat_div)
  moreover have "list_all isdigit ''12''" "dec_value ''12'' = 12"
    by (simp_all add: isdigit_def dec_value_def)
  ultimately show ?thesis
    using snooze_main_correct [of "\<lambda>n w. (n div 2, w)" "''12''" "\<lambda>w. (False, w)" "0 :: nat" 0 "''snooze''"]
    by (auto simp: INT_MAX_def intro: exI [of _ 6])
qed

text \<open>The alignment test prints the offsets of the fields as the compiler chose them, wherever the
  structure lies, although it subtracts addresses cut to 32 bits.\<close>

theorem alignment_main_correct:
  assumes "list_all (\<lambda>off. off < 2 ^ 31) offsets" and "bytes < 2 ^ 31"
  shows "alignment_main offsets bytes t = (0, map int offsets, int bytes)"
  using assms field_offset_exact by (auto simp: alignment_main_def list_all_iff INT_MAX_def)

theorem alignment_main_correct_witness:
  "alignment_main [0, 1, 2, 4, 8, 16] 24 0xfffffffc = (0, [0, 1, 2, 4, 8, 16], 24)"
  using alignment_main_correct [where offsets = "[0, 1, 2, 4, 8, 16]" and bytes = 24 and t = "0xfffffffc"] by simp

end
