(* ===== verification/Progress.thy ===== *)
theory Progress
  imports Posix Complex_Main
begin

text \<open>
  \<^verbatim>\<open>progress/progress.c\<close>, a progress bar whose loop counts in \<open>double\<close>.  The non-negative doubles it computes
  with are pairs of integers, \<open>(m, e)\<close> for \<open>m * 2 ^ e\<close>; each operation rounds its exact result to 53 bits, to
  nearest and ties to even, as IEEE 754 prescribes.  No number here comes near the limits of the exponent.
\<close>

subsection \<open>Arithmetic in double precision\<close>

type_synonym double = "int \<times> int"

function bit_len :: "int \<Rightarrow> int" where
  "bit_len n = (if n \<le> 0 then 0 else 1 + bit_len (n div 2))"
  by pat_completeness auto
termination by (relation "measure nat") auto

declare bit_len.simps [simp del]

definition nearest_even :: "int \<Rightarrow> int \<Rightarrow> int" where
  "nearest_even n d =
     (let q = n div d; r = n mod d in if 2 * r < d \<or> (2 * r = d \<and> even q) then q else q + 1)"

definition round53 :: "int \<Rightarrow> int \<Rightarrow> double" where
  "round53 n e = (let k = bit_len n - 53 in if k \<le> 0 then (n, e) else (nearest_even n (2 ^ nat k), e + k))"

definition dadd :: "double \<Rightarrow> double \<Rightarrow> double" where
  "dadd x y =
     (let (m, e) = x; (n, f) = y; g = min e f in round53 (m * 2 ^ nat (e - g) + n * 2 ^ nat (f - g)) g)"

definition dmul :: "double \<Rightarrow> double \<Rightarrow> double" where
  "dmul x y = (let (m, e) = x; (n, f) = y in round53 (m * n) (e + f))"

text \<open>The quotient is scaled to 53 bits before it is rounded.\<close>

definition ddiv :: "double \<Rightarrow> double \<Rightarrow> double" where
  "ddiv x y =
     (let (m, e) = x; (n, f) = y; k = 53 + bit_len n - bit_len m;
          k = (if 2 ^ 53 * n \<le> m * 2 ^ nat k then k - 1 else k)
      in (nearest_even (m * 2 ^ nat k) n, e - f - k))"

definition dle :: "double \<Rightarrow> double \<Rightarrow> bool" where
  "dle x y = (let (m, e) = x; (n, f) = y; g = min e f in m * 2 ^ nat (e - g) \<le> n * 2 ^ nat (f - g))"

definition of_c_int :: "int \<Rightarrow> double" where
  "of_c_int i = (i, 0)"

text \<open>Conversion to \<open>int\<close> drops the fraction.\<close>

definition truncate :: "double \<Rightarrow> int" where
  "truncate x = (let (m, e) = x in if 0 \<le> e then m * 2 ^ nat e else m div 2 ^ nat (- e))"

definition dval :: "double \<Rightarrow> real" where
  "dval x = of_int (fst x) * 2 powi snd x"

lemma bit_len_bounds:
  assumes "0 < n"
  shows "0 < bit_len n \<and> 2 ^ nat (bit_len n - 1) \<le> n \<and> n < 2 ^ nat (bit_len n)"
  using assms
proof (induction n rule: bit_len.induct)
  case (1 n)
  show ?case
  proof (cases "n = 1")
    case True
    then show ?thesis by (simp add: bit_len.simps)
  next
    case False
    then have "0 < n div 2" using 1(2) by linarith
    then have IH: "0 < bit_len (n div 2)" "2 ^ nat (bit_len (n div 2) - 1) \<le> n div 2" "n div 2 < 2 ^ nat (bit_len (n div 2))"
      using 1 by auto
    define k where "k = nat (bit_len (n div 2) - 1)"
    have k: "bit_len (n div 2) = int k + 1" using IH(1) by (simp add: k_def)
    have bl: "bit_len n = int (Suc (Suc k))" using 1(2) k by (subst bit_len.simps) simp
    have "nat (bit_len n) = Suc (Suc k)" "nat (bit_len n - 1) = Suc k" "nat (int k + 1) = Suc k"
      unfolding bl by auto
    then show ?thesis
      using IH(2,3) 1(2) bl unfolding k by (simp only:) auto
  qed
qed

text \<open>Rounding errs by at most half a unit, and its result has at most 53 bits.\<close>

lemma nearest_even_error:
  assumes "0 < d"
  shows "2 * \<bar>n - nearest_even n d * d\<bar> \<le> d"
proof -
  define q r where "q = n div d" and "r = n mod d"
  have "n = q * d + r" "0 \<le> r" "r < d" using assms by (simp_all add: q_def r_def)
  then show ?thesis
    unfolding nearest_even_def Let_def q_def [symmetric] r_def [symmetric] by (auto simp: algebra_simps)
qed

lemma round53_error:
  assumes "0 \<le> n"
  shows "\<bar>dval (round53 n e) - of_int n * 2 powi e\<bar> \<le> of_int n * 2 powi e / 2 ^ 53"
proof (cases "bit_len n - 53 \<le> 0")
  case True
  then show ?thesis using assms by (simp add: round53_def dval_def)
next
  case False
  then have "0 < n" using assms by (cases "n = 0") (auto simp: bit_len.simps)
  define k where "k = nat (bit_len n - 53)"
  have b: "bit_len n = int k + 53" using False by (simp add: k_def)
  then have "nat (bit_len n - 1) = k + 52" by simp
  then have "2 ^ (k + 52) \<le> n" using bit_len_bounds [OF \<open>0 < n\<close>] by metis
  then have "of_int (2 ^ (k + 52)) \<le> (of_int n :: real)" by (simp only: of_int_le_iff)
  then have big: "2 ^ (k + 52) \<le> (of_int n :: real)" by simp
  let ?q = "nearest_even n (2 ^ k)"
  have "of_int (2 * \<bar>n - ?q * 2 ^ k\<bar>) \<le> (of_int (2 ^ k) :: real)"
    using nearest_even_error [of "2 ^ k" n] unfolding of_int_le_iff by simp
  then have err: "2 * \<bar>of_int n - of_int ?q * 2 ^ k\<bar> \<le> (2 ^ k :: real)" by simp
  have "dval (round53 n e) = of_int ?q * 2 ^ k * 2 powi e"
    using False b by (simp add: round53_def dval_def power_int_add)
  then have "\<bar>dval (round53 n e) - of_int n * 2 powi e\<bar> = \<bar>of_int n - of_int ?q * 2 ^ k\<bar> * 2 powi e"
    by (simp add: abs_mult abs_minus_commute flip: left_diff_distrib)
  also have "\<dots> \<le> (of_int n / 2 ^ 53) * 2 powi e"
    using err big by (intro mult_right_mono) (auto simp: power_add field_simps)
  finally show ?thesis by simp
qed

text \<open>Sums, products and comparisons are those of the real numbers, up to that rounding.\<close>

lemma scale:
  assumes "g \<le> e"
  shows "of_int (m * 2 ^ nat (e - g)) * 2 powi g = (of_int m * 2 powi e :: real)"
proof -
  have "(2 :: real) powi e = 2 powi (e - g) * 2 powi g"
    by (simp flip: power_int_add)
  moreover have "(2 :: real) powi (e - g) = 2 ^ nat (e - g)" using assms by (simp add: power_int_def)
  ultimately show ?thesis by simp
qed

lemma dadd_error:
  assumes "0 \<le> fst x" "0 \<le> fst y"
  shows "\<bar>dval (dadd x y) - (dval x + dval y)\<bar> \<le> (dval x + dval y) / 2 ^ 53"
proof -
  define g where "g = min (snd x) (snd y)"
  define n where "n = fst x * 2 ^ nat (snd x - g) + fst y * 2 ^ nat (snd y - g)"
  have "of_int n * 2 powi g = dval x + dval y"
    using scale [of g "snd x" "fst x"] scale [of g "snd y" "fst y"]
    unfolding n_def of_int_add distrib_right dval_def by (simp only: g_def min.cobounded1 min.cobounded2)
  moreover have "dadd x y = round53 n g"
    by (simp add: dadd_def n_def g_def split_beta Let_def)
  moreover have "0 \<le> n" using assms by (simp add: n_def)
  ultimately show ?thesis using round53_error [of n g] by simp
qed

lemma dmul_error:
  assumes "0 \<le> fst x" "0 \<le> fst y"
  shows "\<bar>dval (dmul x y) - dval x * dval y\<bar> \<le> dval x * dval y / 2 ^ 53"
proof -
  have "of_int (fst x * fst y) * 2 powi (snd x + snd y) = dval x * dval y"
    by (simp add: dval_def power_int_add)
  moreover have "dmul x y = round53 (fst x * fst y) (snd x + snd y)"
    by (simp add: dmul_def split_beta)
  ultimately show ?thesis using round53_error [of "fst x * fst y" "snd x + snd y"] assms by simp
qed

lemma dle_dval: "dle x y \<longleftrightarrow> dval x \<le> dval y"
proof -
  define g where "g = min (snd x) (snd y)"
  have "dle x y \<longleftrightarrow> fst x * 2 ^ nat (snd x - g) \<le> fst y * 2 ^ nat (snd y - g)"
    by (simp add: dle_def g_def split_beta Let_def)
  also have "\<dots> \<longleftrightarrow> of_int (fst x * 2 ^ nat (snd x - g)) * 2 powi g \<le> (of_int (fst y * 2 ^ nat (snd y - g)) * 2 powi g :: real)"
    by (simp only: mult_le_cancel_right_pos zero_less_power_int zero_less_numeral of_int_le_iff)
  also have "\<dots> \<longleftrightarrow> dval x \<le> dval y" by (simp only: scale g_def min.cobounded1 min.cobounded2 dval_def)
  finally show ?thesis .
qed

subsection \<open>The program\<close>

definition bar_width :: int where "bar_width = 20"

text \<open>One line: the bar and the percentage behind it.\<close>

definition bar :: "int \<Rightarrow> string" where
  "bar pos = ''['' @ map (\<lambda>i. if i < pos then CHR ''='' else CHR '' '') [0..bar_width - 1] @ '']''"

definition progress_line :: "double \<Rightarrow> string \<times> int" where
  "progress_line p = (bar (truncate (dmul (of_c_int bar_width) p)), truncate (dmul p (of_c_int 100)))"

text \<open>The lines the loop prints from the given progress on.\<close>

partial_function (option) progress_loop :: "double \<Rightarrow> (string \<times> int) list run" where
  "progress_loop p =
     (if dle p (of_c_int 1) then
        seq (progress_loop (dadd p (ddiv (of_c_int 1) (of_c_int bar_width)))) (\<lambda>lines. ret (progress_line p # lines))
      else ret [])"

definition progress_main :: "(int \<times> (string \<times> int) list) run" where
  "progress_main = seq (progress_loop (of_c_int 0)) (\<lambda>lines. ret (0, lines))"

lemma step_value: "ddiv (of_c_int 1) (of_c_int bar_width) = (7205759403792794, -57)"
  by code_simp

lemma progress_loop_more:
  "dle p (of_c_int 1) \<Longrightarrow> progress_loop p = seq (progress_loop (dadd p (7205759403792794, -57))) (\<lambda>lines. ret (progress_line p # lines))"
  by (subst progress_loop.simps) (simp add: step_value)

lemma progress_loop_stop: "\<not> dle p (of_c_int 1) \<Longrightarrow> progress_loop p = ret []"
  by (subst progress_loop.simps) simp

text \<open>The twenty-one values that \<open>progress\<close> takes.\<close>

definition steps :: "nat \<Rightarrow> double" where
  "steps n = ((\<lambda>p. dadd p (7205759403792794, -57)) ^^ n) (0, 0)"

lemma steps_Suc: "steps (Suc n) = dadd (steps n) (7205759403792794, -57)"
  by (simp add: steps_def)

lemma progress_loop_steps:
  "(\<forall>i \<in> {k..<k + n}. dle (steps i) (of_c_int 1)) \<Longrightarrow> \<not> dle (steps (k + n)) (of_c_int 1) \<Longrightarrow>
   progress_loop (steps k) = ret (map (\<lambda>i. progress_line (steps i)) [k..<k + n])"
proof (induction n arbitrary: k)
  case 0
  then show ?case by (simp add: progress_loop_stop)
next
  case (Suc n)
  then have "progress_loop (steps (Suc k)) = ret (map (\<lambda>i. progress_line (steps i)) [Suc k..<Suc k + n])"
    by (intro Suc.IH) auto
  moreover have "dle (steps k) (of_c_int 1)" using Suc.prems by simp
  ultimately show ?case
    by (simp add: progress_loop_more steps_Suc [symmetric] upt_conv_Cons del: upt_Suc)
qed

lemma steps_small: "list_all (\<lambda>i. dle (steps i) (of_c_int 1)) [0..<20] \<and> \<not> dle (steps 20) (of_c_int 1)"
  by code_simp

lemma numbers_shown:
  "map (\<lambda>i. (truncate (dmul (of_c_int bar_width) (steps i)), truncate (dmul (steps i) (of_c_int 100)))) [0..<20] =
     [(0, 0), (1, 5), (2, 10), (3, 15), (4, 20), (5, 25), (6, 30), (7, 35), (7, 40), (9, 44), (9, 49), (10, 54),
      (12, 60), (13, 65), (14, 70), (15, 75), (16, 80), (17, 85), (18, 90), (19, 95)]"
  by code_simp

lemma progress_main_lines:
  "progress_main = ret (0, map (\<lambda>(pos, pct). (bar pos, pct))
     [(0, 0), (1, 5), (2, 10), (3, 15), (4, 20), (5, 25), (6, 30), (7, 35), (7, 40), (9, 44), (9, 49), (10, 54),
      (12, 60), (13, 65), (14, 70), (15, 75), (16, 80), (17, 85), (18, 90), (19, 95)])"
proof -
  have "progress_loop (steps 0) = ret (map (\<lambda>i. progress_line (steps i)) [0..<0 + 20])"
    using steps_small unfolding list_all_iff set_upt by (intro progress_loop_steps) simp_all
  moreover have "of_c_int 0 = steps 0" by (simp add: steps_def of_c_int_def)
  moreover have "map (\<lambda>i. progress_line (steps i)) [0..<20] = map (\<lambda>(pos, pct). (bar pos, pct))
      (map (\<lambda>i. (truncate (dmul (of_c_int bar_width) (steps i)), truncate (dmul (steps i) (of_c_int 100)))) [0..<20])"
    by (simp add: progress_line_def del: upt.simps)
  ultimately show ?thesis unfolding progress_main_def numbers_shown by simp
qed

text \<open>The progress bar ends after twenty lines, and rounding shows in them: the bar stays at 7 and at 9 of 20
  for two lines each, 44, 49 and 54 percent appear where 45, 50 and 55 are meant, and since twenty times
  0.05 is more than 1 in \<open>double\<close>, the last line is the one of 95 percent.\<close>

theorem progress_main_correct:
  "progress_main = ret (0, map (\<lambda>(pos, pct). (bar pos, pct))
     [(0, 0), (1, 5), (2, 10), (3, 15), (4, 20), (5, 25), (6, 30), (7, 35), (7, 40), (9, 44), (9, 49), (10, 54),
      (12, 60), (13, 65), (14, 70), (15, 75), (16, 80), (17, 85), (18, 90), (19, 95)])"
  by (rule progress_main_lines)

end
