(* ===== verification/Echo_Session.thy ===== *)
theory Echo_Session
  imports Echo_Server Poll_Server Select_Server
begin

text \<open>
  The echo client of \<^verbatim>\<open>echo-server/tcpcli.c\<close> talking to the echo servers, over one connection.  \<open>duo\<close> is the
  connection seen from both ends: the bytes on their way to the server and back, the server's descriptors, the schedule, which
  says how the calls cut the stream up and how often the server gets to run, and the state of the server's main
  loop.  A server is \<open>start\<close>, up to its loop with the client's connection accepted, \<open>step\<close>, one round of the loop, and
  \<open>loop\<close>.  It runs only while the client waits for an answer: whenever the client reads, some rounds of the loop are
  made, each only if there is something to do; otherwise the server waits.  After the client has ended, the server sees
  the end of the stream.  The client's end of all this is the peer that the client's correctness asks for.
\<close>

subsection \<open>The connection\<close>

text \<open>On the server's side 3 is the listening socket and 4 the connection.\<close>

record 's duo =
  to_server :: "u8 list"
  to_client :: "u8 list"
  open_fds :: "int set"
  hung_up :: bool          \<comment> \<open>whether the client has closed its end\<close>
  chunks :: "nat list"     \<comment> \<open>how much each call transfers at most\<close>
  turns :: "nat list"      \<comment> \<open>how many rounds the server gets before each read, besides the first\<close>
  process :: "'s option"   \<comment> \<open>the state of the server's loop, until it ends\<close>

definition chunk :: "'s duo \<Rightarrow> nat \<Rightarrow> nat" where
  "chunk w n = (case chunks w of [] \<Rightarrow> min n 0x7ffff000 | c # _ \<Rightarrow> min n (min (max 1 c) 0x7ffff000))"

lemma chunk_le: "chunk w n \<le> n" "chunk w n \<le> 0x7ffff000" "0 < n \<Longrightarrow> 0 < chunk w n"
  by (auto simp: chunk_def split: list.splits)

definition calling :: "'s duo \<Rightarrow> bool" where
  "calling w \<longleftrightarrow> 4 \<notin> open_fds w \<and> \<not> hung_up w"

definition readable :: "'s duo \<Rightarrow> bool" where
  "readable w \<longleftrightarrow> to_server w \<noteq> [] \<or> hung_up w"

definition server_read :: "int \<Rightarrow> nat \<Rightarrow> 's duo \<Rightarrow> (int \<times> u8 list) \<times> 's duo" where
  "server_read fd n w =
     (if fd \<noteq> 4 then ((-1, []), w)
      else let bs = take (chunk w n) (to_server w)
           in ((int (length bs), bs), w\<lparr>to_server := drop (length bs) (to_server w), chunks := tl (chunks w)\<rparr>))"

definition server_write :: "int \<Rightarrow> u8 list \<Rightarrow> 's duo \<Rightarrow> int \<times> 's duo" where
  "server_write fd data w =
     (if fd \<noteq> 4 then (-1, w)
      else let n = chunk w (length data)
           in (int n, w\<lparr>to_client := to_client w @ take n data, chunks := tl (chunks w)\<rparr>))"

definition server_accept :: "int \<Rightarrow> 's duo \<Rightarrow> int \<times> 's duo" where
  "server_accept fd w =
     (if fd = 3 \<and> calling w then (4, w\<lparr>open_fds := insert 4 (open_fds w)\<rparr>) else (-1, w))"

definition server_os :: "'s duo os" where
  "server_os =
     \<lparr>read_call = server_read, write_call = server_write, errno_of = (\<lambda>_. 0), set_errno = (\<lambda>_ w. w),
      socket_call = (\<lambda>w. (-1, w)), setsockopt_call = (\<lambda>_ w. (-1, w)), bind_call = (\<lambda>_ _ w. (-1, w)),
      listen_call = (\<lambda>_ _ w. (-1, w)), accept_call = server_accept, connect_call = (\<lambda>_ _ _ w. (-1, w)),
      close_call = (\<lambda>fd w. w\<lparr>open_fds := open_fds w - {fd}\<rparr>), gettimeofday_call = (\<lambda>w. ((0, 0, 0), w))\<rparr>"

definition server_view :: "'s duo \<Rightarrow> net" where
  "server_view w = \<lparr>fds = open_fds w \<inter> {3, 4}, sent_on = (\<lambda>fd. if fd = 4 then to_client w else []),
     coming_on = (\<lambda>fd. if fd = 4 then to_server w else [])\<rparr>"

lemma view_simps [simp]:
  "fds (server_view w) = open_fds w \<inter> {3, 4}" "sent_on (server_view w) 4 = to_client w"
  "coming_on (server_view w) 4 = to_server w"
  by (simp_all add: server_view_def)

lemma server_os_posix: "posix (server_os :: 's duo os) server_view"
proof -
  have "posix_read (server_os :: 's duo os) server_view"
    unfolding posix_read_def
  proof (intro allI impI)
    fix fd n r and bs :: "u8 list" and w w' :: "'s duo" assume call: "read_call server_os fd n w = ((r, bs), w')"
    show "r = -1 \<and> bs = [] \<and> server_view w' = server_view w \<or>
      r = int (length bs) \<and> r \<le> 0x7ffff000 \<and> length bs \<le> n \<and>
      bs = take (length bs) (coming_on (server_view w) fd) \<and>
      (bs = [] \<and> 0 < n \<longrightarrow> coming_on (server_view w) fd = []) \<and> server_view w' = receive fd (length bs) (server_view w)"
    proof (cases "fd = 4")
      case False
      then show ?thesis using call by (simp add: server_os_def server_read_def)
    next
      case True
      define c where "c = chunk w n"
      have c: "c \<le> n" "c \<le> 0x7ffff000" "0 < n \<Longrightarrow> 0 < c" unfolding c_def by (rule chunk_le)+
      have r: "r = int (length bs)" "bs = take c (to_server w)"
        "w' = w\<lparr>to_server := drop (length bs) (to_server w), chunks := tl (chunks w)\<rparr>"
        using call True by (auto simp: server_os_def server_read_def Let_def c_def)
      have "length bs \<le> c" unfolding r(2) by simp
      moreover have "bs = take (length bs) (to_server w)"
        unfolding r(2) by (metis length_take min.commute take_all_iff nle_le take_take)
      moreover have "bs = [] \<and> 0 < n \<longrightarrow> to_server w = []" using r(2) c(3) by auto
      moreover have "server_view w' = receive 4 (length bs) (server_view w)"
        unfolding r(3) by (simp add: server_view_def receive_def fun_eq_iff)
      ultimately show ?thesis using r(1) c True by simp
    qed
  qed
  moreover have "posix_write (server_os :: 's duo os) server_view"
    unfolding posix_write_def
  proof (intro allI impI)
    fix fd r and data :: "u8 list" and w w' :: "'s duo" assume call: "write_call server_os fd data w = (r, w')"
    show "r = -1 \<and> server_view w' = server_view w \<or> 0 \<le> r \<and> r \<le> 0x7ffff000 \<and> r \<le> int (length data) \<and>
      server_view w' = send fd (take (nat r) data) (server_view w)"
      using call chunk_le(1,2) [of w "length data"]
      by (auto simp: server_os_def server_write_def server_view_def send_def Let_def fun_eq_iff split: if_splits)
  qed
  moreover have "opens_fd (server_view :: 's duo \<Rightarrow> net) (server_accept fd)" for fd
    unfolding opens_fd_def
  proof (intro allI impI)
    fix r and w w' :: "'s duo" assume "server_accept fd w = (r, w')"
    then show "r = -1 \<and> server_view w' = server_view w \<or> 0 \<le> r \<and> r \<notin> fds (server_view w) \<and>
        (\<exists>s c. server_view w' = \<lparr>fds = fds (server_view w) \<union> {r}, sent_on = (sent_on (server_view w))(r := s),
           coming_on = (coming_on (server_view w))(r := c)\<rparr>)"
      by (cases "fd = 3 \<and> calling w")
        (auto simp: server_accept_def calling_def server_view_def fun_eq_iff
          intro!: exI [of _ "to_client w"] exI [of _ "to_server w"])
  qed
  then have "posix_fds (server_os :: 's duo os) server_view"
    by (auto simp: posix_fds_def opens_fd_def keeps_view_def server_os_def server_view_def)
  ultimately show ?thesis by (simp add: posix_def)
qed

lemma server_os_steady:
  "finite_signals server_os (\<lambda>_. 0)" "\<not> short_write server_os 4" "\<not> failed_read server_os 4"
  by (auto simp: finite_signals_def short_write_def failed_read_def server_os_def server_read_def server_write_def EINTR_def
      Let_def not_le chunk_le(3))

lemma server_limit: "5 \<le> N \<Longrightarrow> fd_limit server_view N"
  by (auto simp: fd_limit_def)

text \<open>What is served on the connection.\<close>

lemma served_duo:
  assumes "serves (server_os :: 's duo os) {4} (server_view (w :: 's duo)) (server_view (w' :: 's duo))"
  obtains k where "k \<le> length (to_server w)" "to_server w' = drop k (to_server w)"
    "to_client w' = to_client w @ take k (to_server w)" "to_server w \<noteq> [] \<Longrightarrow> 0 < k"
    "fds (server_view w') = (if k = 0 then fds (server_view w) - {4} else fds (server_view w))"
proof -
  let ?os = "server_os :: 's duo os"
  have "\<forall>fd. \<exists>n. relayed ?os fd n (server_view w) (server_view w') \<and> (fd \<notin> {4} \<longrightarrow> n = 0) \<and>
      (fd \<in> {4} \<and> n = 0 \<longrightarrow> coming_on (server_view w) fd = [] \<or> failed_read ?os fd)"
    using assms unfolding serves_def by (rule conjunct1)
  from spec [OF this, of 4] obtain k where
    k: "relayed ?os 4 k (server_view w) (server_view w')" "k = 0 \<longrightarrow> to_server w = []"
    using server_os_steady(3) by auto
  then have r: "k \<le> length (to_server w)" "to_server w' = drop k (to_server w)"
    "to_client w' = to_client w @ take k (to_server w)"
    using server_os_steady(2) by (auto simp: relayed_def le_less)
  define P where "P fd \<longleftrightarrow> coming_on (server_view w') fd = coming_on (server_view w) fd" for fd
  have "fds (server_view w') = fds (server_view w) - {fd \<in> {4}. P fd}"
    using assms unfolding serves_def P_def by (rule conjunct2)
  moreover have "coming_on (server_view w') 4 = coming_on (server_view w) 4 \<longleftrightarrow> k = 0"
  proof
    assume "coming_on (server_view w') 4 = coming_on (server_view w) 4"
    then have "length (drop k (to_server w)) = length (to_server w)" using r(2) by simp
    then show "k = 0" using r(1) by simp
  qed (simp add: r(2))
  then have "{fd \<in> {4}. P fd} = (if k = 0 then {4} else {})" by (auto simp: P_def)
  ultimately have "fds (server_view w') = (if k = 0 then fds (server_view w) - {4} else fds (server_view w))"
    by (simp only: if_distrib Diff_empty split: if_split)
  then show thesis using that r k(2) by blast
qed

subsection \<open>Running a server beside the client\<close>

type_synonym 's starter = "'s duo \<Rightarrow> ('s \<times> 's duo) run"
type_synonym 's stepper = "'s \<Rightarrow> 's duo \<Rightarrow> ('s \<times> 's duo) progress run"

fun world :: "('s \<times> 's duo) progress \<Rightarrow> 's duo" where
  "world (Goes_On (_, w)) = w"
| "world (Ends (_, w)) = w"

text \<open>A round of the server, if it is still there and need not wait; only the client hangs up.\<close>

definition serve :: "'s stepper \<Rightarrow> 's duo \<Rightarrow> 's duo" where
  "serve step w =
     (case process w of
        None \<Rightarrow> w
      | Some s \<Rightarrow>
          if \<not> readable w then w
          else case step s w of
              Some (Inr (Goes_On (s', w'))) \<Rightarrow> w'\<lparr>process := Some s', hung_up := hung_up w\<rparr>
            | Some (Inr (Ends (_, w'))) \<Rightarrow> w'\<lparr>process := None, hung_up := hung_up w\<rparr>
            | _ \<Rightarrow> w\<lparr>process := None\<rparr>)"

definition take_turns :: "'s stepper \<Rightarrow> 's duo \<Rightarrow> 's duo" where
  "take_turns step w = (serve step ^^ Suc (case turns w of [] \<Rightarrow> 0 | t # _ \<Rightarrow> t)) w"

text \<open>The client's end: its reads and writes, on its own descriptor.\<close>

definition client_read :: "'s stepper \<Rightarrow> int \<Rightarrow> nat \<Rightarrow> 's duo \<Rightarrow> (int \<times> u8 list) \<times> 's duo" where
  "client_read step fd n w =
     (let w = take_turns step w;
          bs = take (chunk w n) (to_client w)
      in ((int (length bs), bs),
          w\<lparr>to_client := drop (length bs) (to_client w), chunks := tl (chunks w), turns := tl (turns w)\<rparr>))"

definition client_write :: "int \<Rightarrow> u8 list \<Rightarrow> 's duo \<Rightarrow> int \<times> 's duo" where
  "client_write fd data w =
     (let n = chunk w (length data)
      in (int n, w\<lparr>to_server := to_server w @ take n data, chunks := tl (chunks w)\<rparr>))"

definition client_os :: "'s stepper \<Rightarrow> 's duo os" where
  "client_os step = server_os\<lparr>read_call := client_read step, write_call := client_write\<rparr>"

text \<open>A session: the server starts, the client runs to its end and hangs up, and the server sees that.\<close>

definition session :: "'s starter \<Rightarrow> 's stepper \<Rightarrow> u8 list \<Rightarrow> nat list \<Rightarrow> nat list \<Rightarrow> (u8 list \<times> 's duo) run" where
  "session start step inp sizes schedule =
     seq (start \<lparr>to_server = [], to_client = [], open_fds = {3}, hung_up = False, chunks = sizes, turns = schedule,
                 process = None\<rparr>) (\<lambda>(s, w).
       seq (str_cli (client_os step) 5 (replicate MAXLINE 0) inp [] (w\<lparr>process := Some s, hung_up := False\<rparr>)) (\<lambda>(out, w).
         ret (out, serve step (w\<lparr>hung_up := True\<rparr>))))"

text \<open>The bytes the client has yet to get back, wherever they are.\<close>

definition in_flight :: "'s duo \<Rightarrow> u8 list" where
  "in_flight w = to_client w @ to_server w"

text \<open>How a server's code is made of its rounds: \<open>program\<close> starts and then runs the loop, and the loop repeats the round.\<close>

definition made_of_rounds ::
  "('s duo \<Rightarrow> 'r run) \<Rightarrow> ('s \<times> 's duo \<Rightarrow> 'r run) \<Rightarrow> 's starter \<Rightarrow> 's stepper \<Rightarrow> ('s \<Rightarrow> 's duo \<Rightarrow> ('s \<times> 's duo) run) \<Rightarrow> bool"
  where "made_of_rounds program finish start step loop \<longleftrightarrow>
     (\<forall>w. open_fds w = {3} \<longrightarrow> \<not> hung_up w \<longrightarrow> program w = seq (start w) (\<lambda>(s, w). seq (loop s w) finish)) \<and>
     (\<forall>s w. loop s w = seq (step s w) (\<lambda>p. case p of Goes_On (s, w) \<Rightarrow> loop s w | Ends x \<Rightarrow> ret x))"

subsection \<open>What a session needs of a server\<close>

text \<open>
  \<open>ok s fs\<close>: the loop's state \<open>s\<close> fits the open descriptors \<open>fs\<close>, and the connection is among them.
\<close>

locale echo_server =
  fixes start :: "'s starter" and step :: "'s stepper" and ok :: "'s \<Rightarrow> int set \<Rightarrow> bool"
  assumes starts: "open_fds w = {3} \<Longrightarrow> \<not> hung_up w \<Longrightarrow> to_server w = [] \<Longrightarrow>
      \<exists>s w'. start w = ret (s, w') \<and> ok s (fds (server_view w')) \<and>
        to_server w' = [] \<and> to_client w' = to_client w"
    and relays: "ok s (fds (server_view w)) \<Longrightarrow> to_server w \<noteq> [] \<Longrightarrow>
      \<exists>s' w' k. step s w = ret (Goes_On (s', w')) \<and> ok s' (fds (server_view w')) \<and>
        0 < k \<and> to_server w' = drop k (to_server w) \<and> to_client w' = to_client w @ take k (to_server w)"
    and closes: "ok s (fds (server_view w)) \<Longrightarrow> to_server w = [] \<Longrightarrow> hung_up w \<Longrightarrow>
      \<exists>p. step s w = ret p \<and> to_server (world p) = [] \<and> to_client (world p) = to_client w \<and> 4 \<notin> open_fds (world p)"
begin

definition alive :: "'s duo \<Rightarrow> bool" where
  "alive w \<longleftrightarrow> (\<exists>s. process w = Some s \<and> ok s (fds (server_view w)))"

text \<open>A round moves bytes from one side to the other, in order, and at least one.\<close>

lemma serve_moves:
  assumes "alive w" and up: "\<not> hung_up w"
  shows "alive (serve step w)" "\<not> hung_up (serve step w)" "in_flight (serve step w) = in_flight w"
    "to_server w \<noteq> [] \<Longrightarrow> to_client (serve step w) \<noteq> []" "to_server w = [] \<Longrightarrow> serve step w = w"
proof -
  obtain s where s: "process w = Some s" "ok s (fds (server_view w))" using assms by (auto simp: alive_def)
  show idle: "serve step w = w" if "to_server w = []"
    using that s(1) up by (simp add: serve_def readable_def)
  have busy: "alive (serve step w) \<and> \<not> hung_up (serve step w) \<and> in_flight (serve step w) = in_flight w \<and>
      to_client (serve step w) \<noteq> []"
    if bytes: "to_server w \<noteq> []"
  proof -
    obtain s' w' k where r: "step s w = ret (Goes_On (s', w'))" "ok s' (fds (server_view w'))" "0 < k"
      "to_server w' = drop k (to_server w)" "to_client w' = to_client w @ take k (to_server w)"
      using relays [OF s(2) bytes] by blast
    have run: "serve step w = w'\<lparr>process := Some s', hung_up := False\<rparr>"
      using s(1) bytes r(1) up by (simp add: serve_def readable_def ret_def)
    show ?thesis using r(2-5) bytes unfolding run by (simp add: alive_def in_flight_def server_view_def)
  qed
  show "alive (serve step w)" "\<not> hung_up (serve step w)" "in_flight (serve step w) = in_flight w"
    using busy idle assms by (cases "to_server w = []"; simp)+
  show "to_server w \<noteq> [] \<Longrightarrow> to_client (serve step w) \<noteq> []" using busy by blast
qed

lemma rounds_move:
  assumes "alive w" "\<not> hung_up w"
  shows "alive ((serve step ^^ k) w) \<and> \<not> hung_up ((serve step ^^ k) w) \<and> in_flight ((serve step ^^ k) w) = in_flight w"
    and "in_flight w \<noteq> [] \<Longrightarrow> to_client ((serve step ^^ Suc k) w) \<noteq> []"
proof -
  show rounds: "alive ((serve step ^^ k) w) \<and> \<not> hung_up ((serve step ^^ k) w) \<and> in_flight ((serve step ^^ k) w) = in_flight w"
    for k by (induction k) (simp_all add: assms serve_moves)
  show "to_client ((serve step ^^ Suc k) w) \<noteq> []" if "in_flight w \<noteq> []"
    using serve_moves(4,5) [of "(serve step ^^ k) w"] rounds [of k] that
    by (cases "to_server ((serve step ^^ k) w) = []") (auto simp: in_flight_def)
qed

lemma client_os_echoes: "echo_peer (client_os step) fd (\<lambda>w. alive w \<and> \<not> hung_up w) in_flight"
  unfolding echo_peer_def
proof (intro conjI allI impI)
  fix data :: "u8 list" and w :: "'s duo" assume data: "data \<noteq> []" and up: "alive w \<and> \<not> hung_up w"
  define k where "k = chunk w (length data)"
  have k: "0 < k" "k \<le> length data" using chunk_le(1) [of w "length data"] chunk_le(3) [of "length data" w] data by (simp_all add: k_def)
  have "write_call (client_os step) fd data w = (int k, w\<lparr>to_server := to_server w @ take k data, chunks := tl (chunks w)\<rparr>)"
    by (simp add: client_os_def client_write_def Let_def k_def)
  moreover have "alive (w\<lparr>to_server := to_server w @ take k data, chunks := tl (chunks w)\<rparr>)"
    using up by (simp add: alive_def server_view_def)
  ultimately show "\<exists>r w'. write_call (client_os step) fd data w = (int r, w') \<and> 0 < r \<and> r \<le> length data \<and>
      (alive w' \<and> \<not> hung_up w') \<and> in_flight w' = in_flight w @ take r data"
    using k up by (intro exI conjI) (auto simp: in_flight_def)
next
  fix n :: nat and w :: "'s duo" assume n: "0 < n" "in_flight w \<noteq> []" and up: "alive w \<and> \<not> hung_up w"
  define v where "v = take_turns step w"
  have v: "in_flight v = in_flight w" "to_client v \<noteq> []" "alive v" "\<not> hung_up v"
    unfolding v_def take_turns_def using rounds_move [where w = w] up n(2) by blast+
  define k where "k = min (chunk v n) (length (to_client v))"
  have k: "0 < k" "k \<le> n" "k \<le> length (to_client v)"
    using chunk_le(1) [of v n] chunk_le(3) [OF n(1), of v] v(2) by (auto simp: k_def)
  have flight: "take k (in_flight w) = take k (to_client v)" "k \<le> length (in_flight w)"
      "drop k (in_flight w) = drop k (to_client v) @ to_server v"
    unfolding v(1) [symmetric] using k(3) by (simp_all add: in_flight_def)
  have cut: "take (chunk v n) (to_client v) = take k (to_client v)" by (simp add: k_def min_def)
  let ?w = "v\<lparr>to_client := drop k (to_client v), chunks := tl (chunks v), turns := tl (turns v)\<rparr>"
  have "read_call (client_os step) fd n w = ((int k, take k (in_flight w)), ?w)"
    using k(3) by (simp add: client_os_def client_read_def Let_def v_def [symmetric] cut flight(1) min_absorb2 del: length_take)
      (simp add: k_def min.commute)
  moreover have "alive ?w" "\<not> hung_up ?w" using v(3,4) by (simp_all add: alive_def server_view_def)
  moreover have "in_flight ?w = drop k (in_flight w)" using flight(3) by (simp add: in_flight_def)
  ultimately show "\<exists>k w'. read_call (client_os step) fd n w = ((int k, take k (in_flight w)), w') \<and>
      0 < k \<and> k \<le> n \<and> k \<le> length (in_flight w) \<and> (alive w' \<and> \<not> hung_up w') \<and> in_flight w' = drop k (in_flight w)"
    using k(1,2) flight(2) by blast
qed

lemma session_echoes:
  assumes "text_lines ls"
  shows "\<exists>w. session start step (concat (map (\<lambda>l. l @ [newline]) ls)) sizes schedule
      = ret (concat (map (\<lambda>l. l @ [newline]) ls), w) \<and> to_server w = [] \<and> to_client w = [] \<and> 4 \<notin> open_fds w"
proof -
  let ?w0 = "\<lparr>to_server = [], to_client = [], open_fds = {3}, hung_up = False, chunks = sizes, turns = schedule,
      process = None\<rparr> :: 's duo"
  obtain s w1 where s: "start ?w0 = ret (s, w1)" "ok s (fds (server_view w1))" "to_server w1 = []" "to_client w1 = []"
    using starts [of ?w0] by auto
  let ?w1 = "w1\<lparr>process := Some s, hung_up := False\<rparr>"
  have "alive ?w1 \<and> \<not> hung_up ?w1" "in_flight ?w1 = []" using s(2-4) by (simp_all add: alive_def server_view_def in_flight_def)
  then obtain w2 where c: "str_cli (client_os step) 5 (replicate MAXLINE 0) (concat (map (\<lambda>l. l @ [newline]) ls)) [] ?w1
      = ret (concat (map (\<lambda>l. l @ [newline]) ls), w2)" "alive w2" "in_flight w2 = []"
    using str_cli_echoes [OF client_os_echoes assms, where recvline = "replicate MAXLINE 0" and w = ?w1 and out = "[]" and fd = 5] by auto
  obtain s2 where s2: "process w2 = Some s2" "ok s2 (fds (server_view w2))" using c(2) by (auto simp: alive_def)
  let ?w2 = "w2\<lparr>hung_up := True\<rparr>"
  have "ok s2 (fds (server_view ?w2))" "to_server ?w2 = []" "to_client ?w2 = []" "hung_up ?w2"
    using s2(2) c(3) by (simp_all add: server_view_def in_flight_def)
  moreover from this obtain p where p: "step s2 ?w2 = ret p" "to_server (world p) = []" "to_client (world p) = []"
    "4 \<notin> open_fds (world p)" using closes [of s2 ?w2] by auto
  ultimately have "to_server (serve step ?w2) = []" "to_client (serve step ?w2) = []" "4 \<notin> open_fds (serve step ?w2)"
    using s2(1) by (cases p; auto simp: serve_def readable_def ret_def)+
  then show ?thesis using s(1) c(1) by (auto simp: session_def)
qed

end

subsection \<open>The forking server's child\<close>

text \<open>What \<open>tcpserv_round\<close> does in the child: it accepts the connection and closes the listening socket, then \<open>str_echo\<close>.\<close>

definition child_start :: "unit starter" where
  "child_start w = (let (connfd, w) = accept_call server_os 3 w in ret ((), close_call server_os 3 w))"

definition child_step :: "unit stepper" where
  "child_step s w =
     seq (relay writen_all server_os 4 MAXLINE w) (\<lambda>(n, w).
       if n = 0 \<or> (n < 0 \<and> errno_of server_os w \<noteq> EINTR) then ret (Ends ((), close_call server_os 4 w))
       else ret (Goes_On ((), w)))"

definition child_loop :: "unit \<Rightarrow> unit duo \<Rightarrow> (unit \<times> unit duo) run" where
  "child_loop s w = seq (str_echo server_os 4 w) (\<lambda>w. ret ((), close_call server_os 4 w))"

lemma child_rounds:
  "made_of_rounds (tcpserv_round server_os (\<lambda>w. (0, w)) 3) (\<lambda>(_, w). ret (Ends w)) child_start child_step child_loop"
  unfolding made_of_rounds_def
proof (intro conjI allI impI)
  fix w :: "unit duo" assume "open_fds w = {3}" "\<not> hung_up w"
  then show "tcpserv_round server_os (\<lambda>w. (0, w)) 3 w =
      seq (child_start w) (\<lambda>(s, w). seq (child_loop s w) (\<lambda>(_, w). ret (Ends w)))"
    by (simp add: tcpserv_round_def child_start_def child_loop_def server_os_def server_accept_def calling_def seq_assoc)
next
  fix s and w :: "unit duo"
  show "child_loop s w = seq (child_step s w) (\<lambda>p. case p of Goes_On (s, w) \<Rightarrow> child_loop s w | Ends x \<Rightarrow> ret x)"
    unfolding child_loop_def child_step_def seq_assoc by (subst str_echo.simps)
      (auto simp: seq_assoc split_beta intro!: arg_cong [where f = "seq _"] simp: fun_eq_iff)
qed

interpretation child: echo_server child_start child_step "\<lambda>_ fs. 4 \<in> fs"
proof
  fix w :: "unit duo" assume "open_fds w = {3}" "\<not> hung_up w" "to_server w = []"
  then show "\<exists>s w'. child_start w = ret (s, w') \<and> 4 \<in> fds (server_view w') \<and> to_server w' = [] \<and> to_client w' = to_client w"
    by (simp add: child_start_def server_os_def server_accept_def calling_def)
next
  fix s and w :: "unit duo" assume "4 \<in> fds (server_view w)"
  then have fd: "4 \<in> open_fds w" by simp
  have "MAXLINE < 2 ^ 63" "0 < MAXLINE" by (simp_all add: MAXLINE_def)
  from echo.relay_returns [OF server_os_posix server_os_steady(1) this, of 4 w, unfolded view_simps]
  obtain n w1 k j where r: "relay writen_all server_os 4 MAXLINE w = ret (n, w1)"
    "server_view w1 = send 4 (take j (take k (to_server w))) (receive 4 k (server_view w))"
    "j \<le> k" "k \<le> length (to_server w)" "j < k \<longrightarrow> short_write (server_os :: unit duo os) 4"
    "n = int k \<and> (k = 0 \<longrightarrow> to_server w = []) \<or> failed_read (server_os :: unit duo os) 4"
    by blast
  then have n: "n = int k" "k = 0 \<longrightarrow> to_server w = []" "j = k"
    using server_os_steady(2,3) by (blast, blast, metis le_neq_implies_less)
  have w1: "to_server w1 = drop k (to_server w)" "to_client w1 = to_client w @ take k (to_server w)"
    "fds (server_view w1) = fds (server_view w)"
    using arg_cong [OF r(2), of "\<lambda>v. coming_on v 4"] arg_cong [OF r(2), of "\<lambda>v. sent_on v 4"]
      arg_cong [OF r(2), of fds] n(3) by simp_all
  show "\<exists>s' w' k. child_step s w = ret (Goes_On (s', w')) \<and> 4 \<in> fds (server_view w') \<and>
      0 < k \<and> to_server w' = drop k (to_server w) \<and> to_client w' = to_client w @ take k (to_server w)"
    if "to_server w \<noteq> []"
    using that r(1) n(1,2) w1 fd by (auto simp: child_step_def)
  show "\<exists>p. child_step s w = ret p \<and> to_server (world p) = [] \<and> to_client (world p) = to_client w \<and> 4 \<notin> open_fds (world p)"
    if "to_server w = []" "hung_up w"
    using that r(1,4) n(1) w1 by (simp add: child_step_def server_os_def)
qed

subsection \<open>The poll server\<close>

text \<open>\<open>poll\<close> on these descriptors: the listening socket is readable while the client calls.\<close>

definition poll_flags :: "'s duo \<Rightarrow> pollfd \<Rightarrow> poll_flag set" where
  "poll_flags w c = (if pfd c = 3 \<and> calling w \<or> pfd c = 4 \<and> readable w then {POLLRDNORM} else {})"

definition duo_poll :: "'s duo poll_call" where
  "duo_poll cs w = ((int (length (filter (\<lambda>c. poll_flags w c \<noteq> {}) cs)), map (poll_flags w) cs), w)"

definition poll_start :: "pollfd list \<Rightarrow> poller starter" where
  "poll_start stack w =
     seq (poll_init 3 stack) (\<lambda>st.
       seq (poll_round server_os duo_poll 3 st w) (\<lambda>p. case p of Goes_On x \<Rightarrow> ret x | Ends x \<Rightarrow> ret x))"

definition poll_fits :: "nat \<Rightarrow> poller \<Rightarrow> int set \<Rightarrow> bool" where
  "poll_fits N st fs \<longleftrightarrow> (\<exists>v. fds v = fs \<and> poll_ok N 3 {} v st) \<and> 4 \<in> fs"

lemma duo_poll_keeps: "poll_keeps server_view duo_poll"
  by (simp add: poll_keeps_def duo_poll_def)

lemma poll_fitsD: "poll_fits N st (fds v) \<Longrightarrow> poll_ok N 3 {} v st"
  unfolding poll_fits_def using poll_ok_fds [of N 3 "{}" _ st st v] by auto

text \<open>The first round accepts the connection.\<close>

lemma poll_first_round:
  fixes w :: "poller duo"
  assumes "open_fds w = {3}" "\<not> hung_up w" "5 \<le> length stack"
  obtains st st' where "poll_init 3 stack = ret st"
    "poll_round server_os duo_poll 3 st w = ret (Goes_On (st', w\<lparr>open_fds := {3, 4}\<rparr>))"
    "poll_fits (length stack) st' {3, 4}"
proof -
  obtain st where init: "poll_init 3 stack = ret st" "poll_ok (length stack) 3 (fds (server_view w) - {3}) (server_view w) st"
  proof -
    have "0 < length stack" using assms(3) by linarith
    then show thesis using poll_init_ok [of 3 stack "server_view w"] assms(1) that by auto
  qed
  obtain c cs where stack: "stack = c # cs" using assms(3) by (cases stack) auto
  have st: "st = \<lparr>clients = c\<lparr>pfd := 3, pevents := {POLLRDNORM}\<rparr> # map (\<lambda>c. c\<lparr>pfd := -1\<rparr>) cs, maxi = 0\<rparr>"
    using init(1) by (simp add: poll_init_def set_client_def stack)
  let ?w = "w\<lparr>open_fds := {3, 4}\<rparr>"
  have accept: "accept_call server_os 3 w = (4, ?w)"
    using assms(1,2) by (simp add: server_os_def server_accept_def calling_def insert_commute)
  let ?st = "st\<lparr>clients := set_revents (clients st) [{POLLRDNORM}]\<rparr>"
  have ok: "poll_ok (length stack) 3 {} (server_view w) ?st"
    using poll_ok_fds [OF init(2), of ?st "server_view w"] assms(1) by (simp add: st)
  obtain p where p: "poll_accept server_os 3 ?st w = ret p"
    "case p of Ends (st', w') \<Rightarrow> st' = ?st \<and> server_view w' = server_view w \<and> failed_accept (server_os :: poller duo os) 3
     | Goes_On (st', w') \<Rightarrow> poll_ok (length stack) 3 {} (server_view w') st' \<and> (\<exists>c. accepted c (server_view w) (server_view w'))"
    using poll_accept_result [OF server_os_posix server_limit [OF assms(3)] ok] by blast
  obtain d ds where cs: "cs = d # ds" using assms(3) stack by (cases cs) auto
  have "\<exists>st'. poll_accept server_os 3 ?st w = ret (Goes_On (st', ?w))"
    using accept by (simp add: poll_accept_def st cs set_revents_def first_free_def set_client_def)
  then obtain st' where p': "p = Goes_On (st', ?w)" using p(1) by (auto simp: ret_def)
  have "poll_accept server_os 3 ?st w = ret (Goes_On (st', ?w))" using p(1) p' by simp
  then have "poll_round server_os duo_poll 3 st w = ret (Goes_On (st', ?w))"
    using assms(1,2) by (simp add: poll_round_def duo_poll_def poll_flags_def calling_def st set_revents_def)
  moreover have "poll_fits (length stack) st' {3, 4}" using p(2) p' unfolding poll_fits_def by (auto intro!: exI [of _ "server_view ?w"])
  ultimately show thesis using that init(1) by blast
qed

text \<open>Every other one serves it.\<close>

lemma poll_serves_duo:
  fixes w :: "poller duo"
  assumes fits: "poll_fits N st (fds (server_view w))" and ready: "readable w" and N: "5 \<le> N"
  obtains st' w' where "poll_round server_os duo_poll 3 st w = ret (Goes_On (st', w'))"
    "poll_ok N 3 {} (server_view w') st'" "serves (server_os :: poller duo os) {4} (server_view w) (server_view w')"
proof -
  have ok: "poll_ok N 3 {} (server_view w) st" and fd: "4 \<in> fds (server_view w)"
    using poll_fitsD [OF fits] fits by (simp_all add: poll_fits_def)
  have len: "maxi st < N" "length (clients st) = N" "pfd (clients st ! 0) = 3" using ok by (auto simp: poll_ok_def)
  let ?cs = "take (maxi st + 1) (clients st)"
  have idle: "\<not> calling w" using fd by (simp add: calling_def)
  have "4 \<in> live (map pfd (clients st))" using ok fd by (simp add: poll_ok_def slots_ok_def)
  then obtain i where i: "i < N" "pfd (clients st ! i) = 4" using len(2) by (auto simp: live_def in_set_conv_nth)
  then have i': "1 \<le> i" "i \<le> maxi st" using ok by (auto simp: poll_ok_def not_less_eq_eq intro: ccontr)
  have "clients st ! i \<in> set ?cs" using i' len by (auto simp: in_set_conv_nth intro!: exI [of _ i])
  then have n: "1 \<le> int (length (filter (\<lambda>c. poll_flags w c \<noteq> {}) ?cs))"
    using i(2) ready by (metis (mono_tags, lifting) One_nat_def Suc_leI empty_filter_conv insert_not_empty length_greater_0_conv
        of_nat_1 of_nat_mono poll_flags_def)
  let ?st = "st\<lparr>clients := set_revents (clients st) (map (poll_flags w) ?cs)\<rparr>"
  have nth: "clients ?st ! j = (clients st ! j)\<lparr>revents := poll_flags w (clients st ! j)\<rparr>" if "j \<le> maxi st" for j
    using that len(1,2) by (simp add: set_revents_def nth_append)
  have "flagged ?st [1..<maxi st + 1] = {4}"
  proof
    show "flagged ?st [1..<maxi st + 1] \<subseteq> {4}"
      unfolding flagged_def using nth idle by (auto simp: poll_flags_def split: if_splits)
    have "i \<in> set [1..<maxi st + 1]" using i' by auto
    then show "{4} \<subseteq> flagged ?st [1..<maxi st + 1]"
      unfolding flagged_def using nth [OF i'(2)] i(2) ready by (auto simp: poll_flags_def intro!: exI [of _ i])
  qed
  moreover have "\<not> poll_connection duo_poll st w"
    using len idle by (cases "clients st") (simp_all add: poll_connection_def duo_poll_def poll_flags_def)
  moreover obtain p where p: "poll_round server_os duo_poll 3 st w = ret p"
    "case p of Ends (st', w') \<Rightarrow> server_view w' = server_view w \<and> poll_connection duo_poll st w \<and> failed_accept (server_os :: poller duo os) 3
     | Goes_On (st', w') \<Rightarrow> poll_ok N 3 {} (server_view w') st' \<and> poll_round_spec server_os server_view duo_poll 3 st w (server_view w')"
    using poll_round_result [OF server_os_posix server_os_steady(1) duo_poll_keeps server_limit [OF N] ok] by blast
  ultimately obtain st' w' where g: "p = Goes_On (st', w')" "poll_ok N 3 {} (server_view w') st'"
    "poll_round_spec server_os server_view duo_poll 3 st w (server_view w')"
    by (auto split: progress.splits)
  have "serves (server_os :: poller duo os) {4} (server_view w) (server_view w')"
    using g(3) \<open>flagged ?st _ = {4}\<close> \<open>\<not> poll_connection duo_poll st w\<close> n
    unfolding poll_round_spec_def duo_poll_def Let_def prod.case by auto
  then show thesis using that p(1) g(1,2) by blast
qed

definition poll_program :: "pollfd list \<Rightarrow> poller duo \<Rightarrow> (poller \<times> poller duo) run" where
  "poll_program stack w = seq (poll_init 3 stack) (\<lambda>st. poll_loop server_os duo_poll 3 st w)"

lemma seq_ret: "seq m ret = m"
  by (cases m) (auto simp: seq_def stuck_def ret_def split: sum.split)

lemma poll_rounds:
  assumes "5 \<le> length stack"
  shows "made_of_rounds (poll_program stack) ret (poll_start stack) (poll_round server_os duo_poll 3)
    (poll_loop server_os duo_poll 3)"
  unfolding made_of_rounds_def
proof (intro conjI allI impI)
  fix w :: "poller duo" assume "open_fds w = {3}" "\<not> hung_up w"
  from this assms obtain st st' where "poll_init 3 stack = ret st"
    "poll_round server_os duo_poll 3 st w = ret (Goes_On (st', w\<lparr>open_fds := {3, 4}\<rparr>))"
    by (rule poll_first_round)
  then show "poll_program stack w = seq (poll_start stack w) (\<lambda>(s, w). seq (poll_loop server_os duo_poll 3 s w) ret)"
    by (simp add: poll_program_def poll_start_def seq_ret poll_loop.simps [of _ _ _ st w])
next
  fix s and w :: "poller duo"
  show "poll_loop server_os duo_poll 3 s w = seq (poll_round server_os duo_poll 3 s w)
      (\<lambda>p. case p of Goes_On (s, w) \<Rightarrow> poll_loop server_os duo_poll 3 s w | Ends x \<Rightarrow> ret x)"
    by (subst poll_loop.simps) (intro arg_cong [where f = "seq _"] ext, simp split: progress.split)
qed

text \<open>Any array of at least five places will do, such as this one.\<close>

definition five_places :: "pollfd list" where
  "five_places = replicate 5 \<lparr>pfd = 77, pevents = {}, revents = {POLLHUP}\<rparr>"

lemma poll_echo_server:
  assumes "5 \<le> length stack"
  shows "echo_server (poll_start stack) (poll_round server_os duo_poll 3) (poll_fits (length stack))"
proof
  fix w :: "poller duo" assume w: "open_fds w = {3}" "\<not> hung_up w" "to_server w = []"
  from w(1,2) assms obtain st st' where r: "poll_init 3 stack = ret st"
    "poll_round server_os duo_poll 3 st w = ret (Goes_On (st', w\<lparr>open_fds := {3, 4}\<rparr>))"
    "poll_fits (length stack) st' {3, 4}"
    by (rule poll_first_round)
  then show "\<exists>s w'. poll_start stack w = ret (s, w') \<and> poll_fits (length stack) s (fds (server_view w')) \<and>
      to_server w' = [] \<and> to_client w' = to_client w"
    using w(3) by (intro exI [of _ st'] exI [of _ "w\<lparr>open_fds := {3, 4}\<rparr>"]) (simp add: poll_start_def seq_ret)
next
  fix s and w :: "poller duo" assume fits: "poll_fits (length stack) s (fds (server_view w))"
  then have fd: "4 \<in> fds (server_view w)" by (simp add: poll_fits_def)
  show "\<exists>s' w' k. poll_round server_os duo_poll 3 s w = ret (Goes_On (s', w')) \<and>
      poll_fits (length stack) s' (fds (server_view w')) \<and>
      0 < k \<and> to_server w' = drop k (to_server w) \<and> to_client w' = to_client w @ take k (to_server w)"
    if some: "to_server w \<noteq> []"
  proof -
    have "readable w" using some by (simp add: readable_def)
    from fits this assms obtain s' w' where r: "poll_round server_os duo_poll 3 s w = ret (Goes_On (s', w'))"
      "poll_ok (length stack) 3 {} (server_view w') s'" "serves (server_os :: poller duo os) {4} (server_view w) (server_view w')"
      by (rule poll_serves_duo)
    from r(3) obtain k where "to_server w' = drop k (to_server w)" "to_client w' = to_client w @ take k (to_server w)" "0 < k"
      "fds (server_view w') = fds (server_view w)"
      by (rule served_duo) (use some in auto)
    then show ?thesis using r(1,2) fd unfolding poll_fits_def by metis
  qed
  show "\<exists>p. poll_round server_os duo_poll 3 s w = ret p \<and> to_server (world p) = [] \<and> to_client (world p) = to_client w \<and>
      4 \<notin> open_fds (world p)"
    if none: "to_server w = []" and up: "hung_up w"
  proof -
    have "readable w" using up by (simp add: readable_def)
    from fits this assms obtain s' w' where r: "poll_round server_os duo_poll 3 s w = ret (Goes_On (s', w'))"
      "serves (server_os :: poller duo os) {4} (server_view w) (server_view w')"
      by (rule poll_serves_duo)
    from r(2) obtain k where "k \<le> length (to_server w)" "to_server w' = drop k (to_server w)"
      "to_client w' = to_client w @ take k (to_server w)"
      "fds (server_view w') = (if k = 0 then fds (server_view w) - {4} else fds (server_view w))"
      by (rule served_duo)
    then have "to_server w' = []" "to_client w' = to_client w" "4 \<notin> fds (server_view w')" using none by simp_all
    then show ?thesis using r(1) by (intro exI [of _ "Goes_On (s', w')"]) simp
  qed
qed

interpretation polling: echo_server "poll_start five_places" "poll_round server_os duo_poll 3" "poll_fits (length five_places)"
  by (rule poll_echo_server) (simp add: five_places_def)

subsection \<open>The select server\<close>

definition duo_select :: "'s duo select_call" where
  "duo_select n s w = (let r = {fd \<in> s. fd = 3 \<and> calling w \<or> fd = 4 \<and> readable w} in ((int (card r), r), w))"

definition select_start :: "selector starter" where
  "select_start w =
     seq (select_init 3) (\<lambda>st.
       seq (select_round server_os duo_select 3 st w) (\<lambda>p. case p of Goes_On x \<Rightarrow> ret x | Ends x \<Rightarrow> ret x))"

definition select_program :: "selector duo \<Rightarrow> (selector \<times> selector duo) run" where
  "select_program w = seq (select_init 3) (\<lambda>st. select_loop server_os duo_select 3 st w)"

definition select_fits :: "selector \<Rightarrow> int set \<Rightarrow> bool" where
  "select_fits st fs \<longleftrightarrow> (\<exists>v. fds v = fs \<and> select_ok 3 {3} v st) \<and> 4 \<in> fs"

lemma duo_select_keeps: "select_keeps server_view duo_select"
  by (simp add: select_keeps_def duo_select_def Let_def)

lemma select_fitsD: "select_fits st (fds v) \<Longrightarrow> select_ok 3 {3} v st"
  unfolding select_fits_def using select_ok_fds [of 3 "{3}" _ st v] by auto

lemma select_limit: "fd_limit server_view FD_SETSIZE"
  by (rule server_limit) (simp add: FD_SETSIZE_def)

lemma select_first_round:
  fixes w :: "selector duo"
  assumes "open_fds w = {3}" "\<not> hung_up w"
  obtains st st' where "select_init 3 = ret st"
    "select_round server_os duo_select 3 st w = ret (Goes_On (st', w\<lparr>open_fds := {3, 4}\<rparr>))" "select_fits st' {3, 4}"
proof -
  obtain st where init: "select_init 3 = ret st" "select_ok 3 {3} (server_view w) st"
    using select_init_ok [of 3 "server_view w"] assms(1) by (auto simp: FD_SETSIZE_def)
  have st: "allset st = {3}" "smaxi st = -1" "maxfd st = 3" "sclients st = replicate FD_SETSIZE (-1)"
    using init(1) by (auto simp: select_init_def FD_SET_def in_fd_set_def FD_SETSIZE_def ret_def seq_def)
  let ?w = "w\<lparr>open_fds := {3, 4}\<rparr>"
  have accept: "accept_call server_os 3 w = (4, ?w)"
    using assms by (simp add: server_os_def server_accept_def calling_def insert_commute)
  obtain p where p: "select_accept server_os 3 st w = ret p"
    "case p of Ends (st', w') \<Rightarrow> st' = st \<and> server_view w' = server_view w \<and> failed_accept (server_os :: selector duo os) 3
     | Goes_On (st', w') \<Rightarrow> select_ok 3 {3} (server_view w') st' \<and> (\<exists>c. accepted c (server_view w) (server_view w'))"
    using select_accept_result [OF server_os_posix select_limit init(2)] by blast
  have "first_free (sclients st) = 0" by (simp add: st first_free_def FD_SETSIZE_def)
  then have "\<exists>st'. select_accept server_os 3 st w = ret (Goes_On (st', ?w))"
    using accept by (simp add: select_accept_def FD_SET_def in_fd_set_def FD_SETSIZE_def Let_def)
  then obtain st' where p': "p = Goes_On (st', ?w)" using p(1) by (auto simp: ret_def)
  have r: "{fd \<in> {3}. fd = 3 \<and> calling w \<or> fd = 4 \<and> readable w} = {3}" using assms by (auto simp: calling_def)
  have call: "duo_select (maxfd st + 1) (allset st) w = ((1, {3}), w)" by (simp only: duo_select_def st r Let_def) simp
  have "select_accept server_os 3 st w = ret (Goes_On (st', ?w))" using p(1) p' by simp
  then have "select_round server_os duo_select 3 st w = ret (Goes_On (st', ?w))"
    by (simp add: select_round_def call FD_ISSET_def in_fd_set_def FD_SETSIZE_def)
  moreover have "select_fits st' {3, 4}" using p(2) p' unfolding select_fits_def by (auto intro!: exI [of _ "server_view ?w"])
  ultimately show thesis using that init(1) by blast
qed

lemma select_serves_duo:
  fixes w :: "selector duo"
  assumes fits: "select_fits st (fds (server_view w))" and ready: "readable w"
  obtains st' w' where "select_round server_os duo_select 3 st w = ret (Goes_On (st', w'))"
    "select_ok 3 {3} (server_view w') st'" "serves (server_os :: selector duo os) {4} (server_view w) (server_view w')"
proof -
  have ok: "select_ok 3 {3} (server_view w) st" and fd: "4 \<in> fds (server_view w)"
    using select_fitsD [OF fits] fits by (simp_all add: select_fits_def)
  have idle: "\<not> calling w" using fd by (simp add: calling_def)
  have live: "4 \<in> live (sclients st)" using ok fd by (simp add: select_ok_def slots_ok_def)
  then have r: "{fd \<in> allset st. fd = 3 \<and> calling w \<or> fd = 4 \<and> readable w} = {4}"
    using idle ready select_okD(3) [OF ok] by auto
  obtain i where i: "i < FD_SETSIZE" "sclients st ! i = 4"
    using live select_okD(1) [OF ok] by (auto simp: live_def in_set_conv_nth)
  then have "int i \<le> smaxi st" using ok by (auto simp: select_ok_def not_less_eq_eq intro: ccontr)
  then have "i \<in> set [0..<nat (smaxi st + 1)]" by auto
  then have fl: "in_set st {4} [0..<nat (smaxi st + 1)] = {4}"
    using i(2) unfolding in_set_def by (auto intro!: exI [of _ i])
  have call: "duo_select (maxfd st + 1) (allset st) w = ((1, {4}), w)" by (simp add: duo_select_def r Let_def)
  have none: "\<not> select_connection duo_select 3 st w" by (simp add: select_connection_def call)
  obtain p where p: "select_round server_os duo_select 3 st w = ret p"
    "case p of Ends (st', w') \<Rightarrow> server_view w' = server_view w \<and> select_connection duo_select 3 st w \<and> failed_accept (server_os :: selector duo os) 3
     | Goes_On (st', w') \<Rightarrow> select_ok 3 {3} (server_view w') st' \<and> select_round_spec server_os server_view duo_select 3 st w (server_view w')"
    using select_round_result [OF server_os_posix server_os_steady(1) duo_select_keeps select_limit ok] by blast
  with none obtain st' w' where g: "p = Goes_On (st', w')" "select_ok 3 {3} (server_view w') st'"
    "select_round_spec server_os server_view duo_select 3 st w (server_view w')"
    by (auto split: progress.splits)
  have "serves (server_os :: selector duo os) {4} (server_view w) (server_view w')"
    using g(3) none fl unfolding select_round_spec_def call Let_def prod.case by auto
  then show thesis using that p(1) g(1,2) by blast
qed

lemma select_rounds:
  "made_of_rounds select_program ret select_start (select_round server_os duo_select 3) (select_loop server_os duo_select 3)"
  unfolding made_of_rounds_def
proof (intro conjI allI impI)
  fix w :: "selector duo" assume "open_fds w = {3}" "\<not> hung_up w"
  then obtain st st' where "select_init 3 = ret st"
    "select_round server_os duo_select 3 st w = ret (Goes_On (st', w\<lparr>open_fds := {3, 4}\<rparr>))"
    by (rule select_first_round)
  then show "select_program w = seq (select_start w) (\<lambda>(s, w). seq (select_loop server_os duo_select 3 s w) ret)"
    by (simp add: select_program_def select_start_def seq_ret select_loop.simps [of _ _ _ st w])
next
  fix s and w :: "selector duo"
  show "select_loop server_os duo_select 3 s w = seq (select_round server_os duo_select 3 s w)
      (\<lambda>p. case p of Goes_On (s, w) \<Rightarrow> select_loop server_os duo_select 3 s w | Ends x \<Rightarrow> ret x)"
    by (subst select_loop.simps) (intro arg_cong [where f = "seq _"] ext, simp split: progress.split)
qed

interpretation selecting: echo_server select_start "select_round server_os duo_select 3" select_fits
proof
  fix w :: "selector duo" assume w: "open_fds w = {3}" "\<not> hung_up w" "to_server w = []"
  from w(1,2) obtain st st' where r: "select_init 3 = ret st"
    "select_round server_os duo_select 3 st w = ret (Goes_On (st', w\<lparr>open_fds := {3, 4}\<rparr>))" "select_fits st' {3, 4}"
    by (rule select_first_round)
  then show "\<exists>s w'. select_start w = ret (s, w') \<and> select_fits s (fds (server_view w')) \<and>
      to_server w' = [] \<and> to_client w' = to_client w"
    using w(3) by (intro exI [of _ st'] exI [of _ "w\<lparr>open_fds := {3, 4}\<rparr>"]) (simp add: select_start_def seq_ret)
next
  fix s and w :: "selector duo" assume fits: "select_fits s (fds (server_view w))"
  then have fd: "4 \<in> fds (server_view w)" by (simp add: select_fits_def)
  show "\<exists>s' w' k. select_round server_os duo_select 3 s w = ret (Goes_On (s', w')) \<and>
      select_fits s' (fds (server_view w')) \<and>
      0 < k \<and> to_server w' = drop k (to_server w) \<and> to_client w' = to_client w @ take k (to_server w)"
    if some: "to_server w \<noteq> []"
  proof -
    have "readable w" using some by (simp add: readable_def)
    with fits obtain s' w' where r: "select_round server_os duo_select 3 s w = ret (Goes_On (s', w'))"
      "select_ok 3 {3} (server_view w') s'" "serves (server_os :: selector duo os) {4} (server_view w) (server_view w')"
      by (rule select_serves_duo)
    from r(3) obtain k where "to_server w' = drop k (to_server w)" "to_client w' = to_client w @ take k (to_server w)" "0 < k"
      "fds (server_view w') = fds (server_view w)"
      by (rule served_duo) (use some in auto)
    then show ?thesis using r(1,2) fd unfolding select_fits_def by metis
  qed
  show "\<exists>p. select_round server_os duo_select 3 s w = ret p \<and> to_server (world p) = [] \<and> to_client (world p) = to_client w \<and>
      4 \<notin> open_fds (world p)"
    if none: "to_server w = []" and up: "hung_up w"
  proof -
    have "readable w" using up by (simp add: readable_def)
    with fits obtain s' w' where r: "select_round server_os duo_select 3 s w = ret (Goes_On (s', w'))"
      "serves (server_os :: selector duo os) {4} (server_view w) (server_view w')"
      by (rule select_serves_duo)
    from r(2) obtain k where "k \<le> length (to_server w)" "to_server w' = drop k (to_server w)"
      "to_client w' = to_client w @ take k (to_server w)"
      "fds (server_view w') = (if k = 0 then fds (server_view w) - {4} else fds (server_view w))"
      by (rule served_duo)
    then have "to_server w' = []" "to_client w' = to_client w" "4 \<notin> fds (server_view w')" using none by simp_all
    then show ?thesis using r(1) by (intro exI [of _ "Goes_On (s', w')"]) simp
  qed
qed

subsection \<open>Properties\<close>

text \<open>A session that ends well: the client has printed the text, nothing is left on the way, and the server has closed the connection.\<close>

definition session_ok :: "'s starter \<Rightarrow> 's stepper \<Rightarrow> u8 list \<Rightarrow> nat list \<Rightarrow> nat list \<Rightarrow> bool" where
  "session_ok start step inp sizes schedule \<longleftrightarrow> (\<exists>w. session start step inp sizes schedule = ret (inp, w) \<and>
     to_server w = [] \<and> to_client w = [] \<and> 4 \<notin> open_fds w)"

text \<open>C9: client and server together: the client runs against the child of the forking server, against the poll
  server and against the select server, whose loops make a round whenever the client waits and there is something to
  do.  However the connection cuts up the stream and however many rounds the server gets, the client prints exactly the
  lines it is given and ends, nothing is left on the way, and the server closes the connection when the client has.
  The rounds are those of the servers' own code: each server is its start followed by its loop, and the loop
  repeats the round.\<close>

theorem client_server_sessions:
  assumes "text_lines ls" and "text = concat (map (\<lambda>l. l @ [newline]) ls)" and "5 \<le> length stack"
  shows "session_ok child_start child_step text sizes schedule \<and>
    session_ok (poll_start stack) (poll_round server_os duo_poll 3) text sizes schedule \<and>
    session_ok select_start (select_round server_os duo_select 3) text sizes schedule \<and>
    made_of_rounds (tcpserv_round server_os (\<lambda>w. (0, w)) 3) (\<lambda>(_, w). ret (Ends w)) child_start child_step child_loop \<and>
    made_of_rounds (poll_program stack) ret (poll_start stack) (poll_round server_os duo_poll 3)
      (poll_loop server_os duo_poll 3) \<and>
    made_of_rounds select_program ret select_start (select_round server_os duo_select 3) (select_loop server_os duo_select 3)"
  unfolding session_ok_def assms(2)
  by (intro conjI child.session_echoes [OF assms(1)] echo_server.session_echoes [OF poll_echo_server [OF assms(3)] assms(1)]
      selecting.session_echoes [OF assms(1)] child_rounds poll_rounds [OF assms(3)] select_rounds)

theorem client_server_sessions_witness:
  "session_ok (poll_start five_places) (poll_round server_os duo_poll 3) [104, 105, newline, 33, newline] [1, 2] [3, 0, 1]"
proof -
  have "text_lines [[104, 105], [33]]" by (simp add: text_lines_def newline_def MAXLINE_def)
  then show ?thesis
    using client_server_sessions [of "[[104, 105], [33]]" "[104, 105, newline, 33, newline]" five_places "[1, 2]" "[3, 0, 1]"]
    by (simp add: five_places_def)
qed

end
