(* ===== verification/Traffic_Session.thy ===== *)
theory Traffic_Session
  imports Traffic_Gen Echo_Session
begin

text \<open>
  The client of \<^verbatim>\<open>simple-traffic-gen\<close> talking to the server, over one connection that does not fail.  The connection is
  the \<open>duo\<close> of \<open>Echo_Session\<close>; the state of the server's loop is its count of messages.  The client is its whole
  \<open>main\<close>; the server is its loop, which \<open>main\<close> enters with the accepted connection.  While the client
  waits in \<open>read\<close> the server makes some rounds of the loop, each only when the four bytes of a request are there:
  otherwise it waits.  When the client has ended, the server's loop runs on to its end.
\<close>

subsection \<open>Both ends\<close>

text \<open>A round of the server, if it is still there and need not wait.\<close>

definition answer_request :: "u32 \<Rightarrow> u32 duo \<Rightarrow> u32 duo" where
  "answer_request junk w =
     (case process w of
        None \<Rightarrow> w
      | Some k \<Rightarrow>
          if length (to_server w) < 4 then w
          else case traffic_round server_os junk 4 k w of
              Some (Inr (Inl (k, w'))) \<Rightarrow> w'\<lparr>process := Some k\<rparr>
            | Some (Inr (Inr (r, w'))) \<Rightarrow> w'\<lparr>process := None\<rparr>
            | _ \<Rightarrow> w\<lparr>process := None\<rparr>)"

text \<open>The client's descriptor is 5.  Its clock stands still.\<close>

definition traffic_read :: "u32 \<Rightarrow> int \<Rightarrow> nat \<Rightarrow> u32 duo \<Rightarrow> (int \<times> u8 list) \<times> u32 duo" where
  "traffic_read junk fd n w =
     (if fd \<noteq> 5 then ((-1, []), w)
      else let w = (answer_request junk ^^ Suc (case turns w of [] \<Rightarrow> 0 | t # _ \<Rightarrow> t)) w;
               bs = take (chunk w n) (to_client w)
           in ((int (length bs), bs),
               w\<lparr>to_client := drop (length bs) (to_client w), chunks := tl (chunks w), turns := tl (turns w)\<rparr>))"

definition traffic_write :: "int \<Rightarrow> u8 list \<Rightarrow> u32 duo \<Rightarrow> int \<times> u32 duo" where
  "traffic_write fd data w = (if fd \<noteq> 5 then (-1, w) else client_write fd data w)"

definition traffic_os :: "u32 \<Rightarrow> u32 duo os" where
  "traffic_os junk = server_os\<lparr>read_call := traffic_read junk, write_call := traffic_write,
     socket_call := (\<lambda>w. (5, w)), connect_call := (\<lambda>_ _ _ w. (0, w))\<rparr>"

text \<open>The client's exit status and measurement, what the server's loop ends with, and the connection.\<close>

definition traffic_run ::
  "u32 \<Rightarrow> (string list \<Rightarrow> (char \<times> string) list \<times> string list) \<Rightarrow> (string \<Rightarrow> u64) \<Rightarrow> (string \<Rightarrow> int \<times> u32) \<Rightarrow> u8 list \<Rightarrow>
   string list \<Rightarrow> nat list \<Rightarrow> nat list \<Rightarrow> (int \<times> int option \<times> u32 option \<times> u32 duo) run" where
  "traffic_run junk getopt strtoul inet_pton read_buf argv sizes schedule =
     seq (client_main (traffic_os junk) getopt strtoul inet_pton read_buf argv
            \<lparr>to_server = [], to_client = [], open_fds = {3, 4}, hung_up = False, chunks = sizes, turns = schedule,
             process = Some 0\<rparr>) (\<lambda>(code, elapsed, w).
       case process w of
         None \<Rightarrow> ret (code, elapsed, None, w)
       | Some k \<Rightarrow> seq (server_loop server_os junk 4 k w) (\<lambda>(messages, w). ret (code, elapsed, messages, w)))"

subsection \<open>The server's rounds\<close>

lemma server_os_reliable: "reliable (server_os :: 's duo os) 4"
  by (auto simp: reliable_def server_os_def server_read_def server_write_def Let_def chunk_le(3))

lemma round_duo:
  fixes w :: "u32 duo"
  assumes "4 \<le> length (to_server w)"
  obtains w' where
    "traffic_round server_os junk 4 k w =
       ret (if u32_of_bytes (take 4 (to_server w)) = 0 then Inr (Some k, w') else Inl (k + 1, w'))"
    "to_server w' = drop 4 (to_server w)"
    "to_client w' = to_client w @ replicate (unat (u32_of_bytes (take 4 (to_server w)))) 0"
proof -
  have "4 \<le> length (coming_on (server_view w) 4)" using assms by simp
  from traffic_round_result [OF server_os_posix server_os_reliable this, of junk k] obtain w' where
    w': "traffic_round server_os junk 4 k w =
       ret (if u32_of_bytes (take 4 (to_server w)) = 0 then Inr (Some k, w') else Inl (k + 1, w'))"
    "server_view w' = send 4 (replicate (unat (u32_of_bytes (take 4 (to_server w)))) 0) (receive 4 4 (server_view w))"
    by auto
  have "coming_on (server_view w') 4 = drop 4 (to_server w)"
    "sent_on (server_view w') 4 = to_client w @ replicate (unat (u32_of_bytes (take 4 (to_server w)))) 0"
    unfolding w'(2) by simp_all
  then show thesis using that w'(1) by simp
qed

text \<open>What the server is going to answer to the bytes on their way to it.\<close>

function answers :: "u8 list \<Rightarrow> u8 list" where
  "answers bs =
     (if length bs < 4 \<or> u32_of_bytes (take 4 bs) = 0 then []
      else replicate (unat (u32_of_bytes (take 4 bs))) 0 @ answers (drop 4 bs))"
  by auto
termination by (relation "measure length") auto

declare answers.simps [simp del]

definition expected :: "u32 duo \<Rightarrow> u8 list" where
  "expected w = to_client w @ (if process w = None then [] else answers (to_server w))"

lemma answer_request_expected:
  "expected (answer_request junk w) = expected w \<and> (\<exists>bs. to_client (answer_request junk w) = to_client w @ bs) \<and>
   (to_client w = [] \<longrightarrow> expected w \<noteq> [] \<longrightarrow> to_client (answer_request junk w) \<noteq> [])"
proof (cases "\<exists>k. process w = Some k \<and> 4 \<le> length (to_server w)")
  case False
  then have "answer_request junk w = w" by (auto simp: answer_request_def split: option.split)
  moreover have "expected w = to_client w"
    using False by (subst expected_def, subst answers.simps) (auto split: if_splits)
  ultimately show ?thesis by simp
next
  case True
  then obtain k where k: "process w = Some k" "4 \<le> length (to_server w)" by blast
  obtain w' where w': "traffic_round server_os junk 4 k w =
       ret (if u32_of_bytes (take 4 (to_server w)) = 0 then Inr (Some k, w') else Inl (k + 1, w'))"
    "to_server w' = drop 4 (to_server w)"
    "to_client w' = to_client w @ replicate (unat (u32_of_bytes (take 4 (to_server w)))) 0"
    using k(2) by (rule round_duo)
  have r: "answer_request junk w = (if u32_of_bytes (take 4 (to_server w)) = 0 then w'\<lparr>process := None\<rparr>
      else w'\<lparr>process := Some (k + 1)\<rparr>)"
    using k w'(1) by (simp add: answer_request_def ret_def)
  show ?thesis
    unfolding r using k w'(2,3) by (simp add: expected_def answers.simps [of "to_server w"] unat_eq_zero)
qed

lemma answer_requests_expected:
  "expected ((answer_request junk ^^ n) w) = expected w \<and> (\<exists>bs. to_client ((answer_request junk ^^ n) w) = to_client w @ bs)"
proof (induction n)
  case (Suc n)
  let ?v = "(answer_request junk ^^ n) w"
  have "to_client w @ bs @ bs' = (to_client w @ bs) @ bs'" for bs bs' by simp
  then show ?case using Suc answer_request_expected [of junk ?v] by (metis comp_apply funpow.simps(2))
qed simp

lemma answer_requests_progress:
  assumes "expected w \<noteq> []"
  shows "to_client ((answer_request junk ^^ Suc n) w) \<noteq> []"
proof -
  have "to_client (answer_request junk w) \<noteq> []"
    using answer_request_expected [of junk w] assms by auto
  then show ?thesis
    using answer_requests_expected [where n = n and w = "answer_request junk w" and junk = junk]
    by (auto simp: funpow_Suc_right simp del: funpow.simps)
qed

subsection \<open>The client's end\<close>

definition reading_view :: "u32 duo \<Rightarrow> net" where
  "reading_view w = \<lparr>fds = {}, sent_on = (\<lambda>_. []), coming_on = (\<lambda>fd. if fd = 5 then expected w else [])\<rparr>"

definition writing_view :: "u32 duo \<Rightarrow> net" where
  "writing_view w = \<lparr>fds = {}, sent_on = (\<lambda>fd. if fd = 5 then to_server w else []),
     coming_on = (\<lambda>fd. if fd = 5 then to_client w else [])\<rparr>"

lemma traffic_posix_read: "posix_read (traffic_os junk) reading_view"
  unfolding posix_read_def
proof (intro allI impI)
  fix fd n w r bs w'
  assume call: "read_call (traffic_os junk) fd n w = ((r, bs), w')"
  show "r = -1 \<and> bs = [] \<and> reading_view w' = reading_view w \<or>
    r = int (length bs) \<and> r \<le> 0x7ffff000 \<and> length bs \<le> n \<and> bs = take (length bs) (coming_on (reading_view w) fd) \<and>
    (bs = [] \<and> 0 < n \<longrightarrow> coming_on (reading_view w) fd = []) \<and> reading_view w' = receive fd (length bs) (reading_view w)"
  proof (cases "fd = 5")
    case False
    then show ?thesis using call by (simp add: traffic_os_def traffic_read_def)
  next
    case True
    define j where "j = (case turns w of [] \<Rightarrow> 0 | t # _ \<Rightarrow> t)"
    define v where "v = (answer_request junk ^^ Suc j) w"
    define c where "c = chunk v n"
    have c: "c \<le> n" "c \<le> 0x7ffff000" "0 < n \<Longrightarrow> 0 < c" unfolding c_def by (rule chunk_le)+
    have "traffic_read junk 5 n w = ((r, bs), w')" using call True by (simp add: traffic_os_def)
    then have read: "(let bs = take (chunk v n) (to_client v) in ((int (length bs), bs),
        v\<lparr>to_client := drop (length bs) (to_client v), chunks := tl (chunks v), turns := tl (turns v)\<rparr>)) = ((r, bs), w')"
      unfolding traffic_read_def v_def j_def by (simp only: simp_thms if_False Let_def)
    have r: "r = int (length bs)" "bs = take c (to_client v)"
      "w' = v\<lparr>to_client := drop (length bs) (to_client v), chunks := tl (chunks v), turns := tl (turns v)\<rparr>"
      using read unfolding c_def Let_def prod.inject by (elim conjE; (simp only:))+
    have ex: "expected v = expected w" unfolding v_def using answer_requests_expected by blast
    have len: "length bs \<le> c" "length bs \<le> length (to_client v)" unfolding r(2) by simp_all
    have "bs = take (length bs) (to_client v)"
      unfolding r(2) by (metis length_take min.commute take_all_iff nle_le take_take)
    moreover have "take (length bs) (expected v) = take (length bs) (to_client v)" using len(2) by (simp add: expected_def)
    ultimately have "bs = take (length bs) (expected w)" unfolding ex by simp
    moreover have "bs = [] \<and> 0 < n \<longrightarrow> expected w = []"
      using answer_requests_progress [where w = w and junk = junk and n = j] c(3) r(2) unfolding v_def [symmetric] by auto
    moreover have "expected w' = drop (length bs) (expected v)"
      using len(2) by (simp add: r(3) expected_def)
    then have "expected w' = drop (length bs) (expected w)" unfolding ex .
    then have "reading_view w' = receive 5 (length bs) (reading_view w)"
      by (simp add: reading_view_def receive_def fun_eq_iff)
    ultimately show ?thesis using r(1) len(1) c True by (simp add: reading_view_def)
  qed
qed

lemma traffic_posix_write: "posix_write (traffic_os junk) writing_view"
  unfolding posix_write_def
proof (intro allI impI)
  fix fd data w r w'
  assume "write_call (traffic_os junk) fd data w = (r, w')"
  then show "r = -1 \<and> writing_view w' = writing_view w \<or> 0 \<le> r \<and> r \<le> 0x7ffff000 \<and> r \<le> int (length data) \<and>
      writing_view w' = send fd (take (nat r) data) (writing_view w)"
    using chunk_le(1,2) [of w "length data"]
    by (auto simp: traffic_os_def traffic_write_def client_write_def writing_view_def send_def Let_def fun_eq_iff split: if_splits)
qed

lemma traffic_steady: "\<not> failed_read (traffic_os junk) 5" "\<not> short_write (traffic_os junk) 5"
  by (auto simp: failed_read_def short_write_def traffic_os_def traffic_read_def traffic_write_def client_write_def Let_def
      not_le chunk_le(3) simp del: funpow.simps)

text \<open>Between two requests nothing is on the way.\<close>

definition idle :: "u32 \<Rightarrow> u32 duo \<Rightarrow> bool" where
  "idle k w \<longleftrightarrow> process w = Some k \<and> to_server w = [] \<and> to_client w = []"

text \<open>After a request it waits for the server, or the server has answered it.\<close>

definition asked :: "u32 \<Rightarrow> u32 \<Rightarrow> u32 duo \<Rightarrow> bool" where
  "asked k m w \<longleftrightarrow> process w = Some k \<and> to_server w = u32_bytes m \<or> process w = Some (k + 1) \<and> to_server w = []"

lemma answer_request_asked:
  assumes "m \<noteq> 0" and "asked k m w"
  shows "asked k m (answer_request junk w)"
proof (cases "process w = Some k \<and> to_server w = u32_bytes m")
  case True
  then have "4 \<le> length (to_server w)" by simp
  then obtain w' where w': "traffic_round server_os junk 4 k w =
       ret (if u32_of_bytes (take 4 (to_server w)) = 0 then Inr (Some k, w') else Inl (k + 1, w'))"
    "to_server w' = drop 4 (to_server w)" by (rule round_duo)
  then show ?thesis using True assms(1) by (simp add: answer_request_def asked_def ret_def)
next
  case False
  then show ?thesis using assms(2) by (auto simp: answer_request_def asked_def)
qed

lemma traffic_read_asked:
  assumes "m \<noteq> 0" and "asked k m w"
  shows "asked k m (snd (read_call (traffic_os junk) fd n w))"
proof -
  have "asked k m ((answer_request junk ^^ j) w)" for j
    by (induction j) (simp_all add: assms answer_request_asked)
  then show ?thesis
    using assms(2) by (auto simp: traffic_os_def traffic_read_def Let_def asked_def simp del: funpow.simps)
qed

lemma client_asks:
  assumes "process w = Some k" and "to_server w = []" and "to_client w = []"
  obtains w' where "write_exact (traffic_os junk) 5 (Some (u32_bytes m)) 4 4 False w = ret (4, w')"
    "process w' = Some k" "to_server w' = u32_bytes m" "to_client w' = []"
proof -
  obtain w' where w': "write_exact (traffic_os junk) 5 (Some (u32_bytes m)) 4 4 False w = ret (4, w')"
    "writing_view w' = send 5 (u32_bytes m) (writing_view w)"
    using write_request [OF traffic_posix_write traffic_steady(2)] by blast
  have "sent_on (writing_view w') 5 = u32_bytes m" "coming_on (writing_view w') 5 = []"
    unfolding w'(2) using assms by (simp_all add: writing_view_def)
  moreover have "process (snd (write_call (traffic_os junk) fd data v)) = Some k" if "process v = Some k" for fd data v
    using that by (simp add: traffic_os_def traffic_write_def client_write_def Let_def)
  then have "process w' = Some k"
    using write_loop_keeps [of "\<lambda>v. process v = Some k" "traffic_os junk" 5 w "u32_bytes m" 4 False 4 0] w'(1) assms(1)
    by (simp add: write_exact_def)
  ultimately show thesis using that w'(1) by (simp add: writing_view_def)
qed

lemma client_gets_answer:
  assumes "m \<noteq> 0" and "0 < length buf" and "process w = Some k" and "to_server w = u32_bytes m" and "to_client w = []"
  obtains buf' w' where "read_exact (traffic_os junk) 5 (Some buf) (uint m) (int (length buf)) True w = ret (uint m, Some buf', w')"
    "length buf' = length buf" "idle (k + 1) w'"
proof -
  have ex: "expected w = replicate (unat m) 0"
    using assms by (simp add: expected_def answers.simps [of "u32_bytes m"] answers.simps [of "[]"])
  have "unat m \<le> length (coming_on (reading_view w) 5)" by (simp add: reading_view_def ex)
  then obtain buf' w' where r: "read_exact (traffic_os junk) 5 (Some buf) (uint m) (int (length buf)) True w = ret (uint m, Some buf', w')"
    "length buf' = length buf" "reading_view w' = receive 5 (unat m) (reading_view w)"
    using read_message [OF traffic_posix_read traffic_steady(1) _ assms(2)] by blast
  have "coming_on (reading_view w') 5 = []" unfolding r(3) by (simp add: reading_view_def ex)
  then have none: "expected w' = []" by (simp add: reading_view_def)
  obtain b where "read_loop (traffic_os junk) 5 buf (int (length buf)) True (uint m) 0 w = ret (uint m, b, w')"
    using r(1) by (auto simp: read_exact_def seq_ret_iff)
  moreover have "asked k m w" using assms(3,4) by (simp add: asked_def)
  ultimately have "asked k m w'"
    using read_loop_keeps [where I = "asked k m", OF traffic_read_asked [OF assms(1)]] by blast
  moreover have "answers (u32_bytes m) \<noteq> []"
    using assms(1) by (simp add: answers.simps [of "u32_bytes m"] unat_eq_zero)
  ultimately have "idle (k + 1) w'" using none by (auto simp: asked_def idle_def expected_def)
  then show thesis using that r(1,2) by blast
qed

lemma client_loop_session:
  assumes "m \<noteq> 0"
  shows "0 < length buf \<Longrightarrow> idle k w \<Longrightarrow>
    \<exists>w'. client_loop (traffic_os junk) 5 m n buf w = ret (True, w') \<and> idle (k + of_nat n) w'"
proof (induction n arbitrary: k buf w)
  case 0
  then show ?case by simp
next
  case (Suc n)
  obtain w1 where w1: "write_exact (traffic_os junk) 5 (Some (u32_bytes m)) 4 4 False w = ret (4, w1)"
    "process w1 = Some k" "to_server w1 = u32_bytes m" "to_client w1 = []"
    using Suc.prems(2) unfolding idle_def by (auto elim: client_asks)
  obtain buf' w2 where w2: "read_exact (traffic_os junk) 5 (Some buf) (uint m) (int (length buf)) True w1 = ret (uint m, Some buf', w2)"
    "length buf' = length buf" "idle (k + 1) w2"
    using assms Suc.prems(1) w1(2-4) by (rule client_gets_answer)
  have "0 < length buf'" using w2(2) Suc.prems(1) by simp
  from Suc.IH [OF this w2(3)] show ?case using w1(1) w2(1) by (auto simp: add.assoc)
qed

subsection \<open>Properties\<close>

text \<open>C17: client and server of the traffic generator together, over a connection that does not fail: however it cuts up the
  stream and however many rounds the server gets while the client waits, the client, with the arguments it checks,
  sends its requests, receives every message in full, ends with success and prints a measurement; the server's loop ends
  with the number of messages the client was to ask for; and nothing is left on the way.  The rounds are those of
  the server's own loop, which repeats the round until it ends.\<close>

theorem traffic_session:
  assumes "client_parse_args getopt strtoul argv = (True, st)" and "0 < fst (inet_pton (the (server_ip st)))"
    and "length read_buf = DEFAULT_BUF_SIZE"
  shows "(\<exists>elapsed w. traffic_run junk getopt strtoul inet_pton read_buf argv sizes schedule =
      ret (0, Some elapsed, Some (iters st), w) \<and> to_server w = [] \<and> to_client w = []) \<and>
    (\<forall>k w. server_loop server_os junk 4 k (w :: u32 duo) =
      seq (traffic_round server_os junk 4 k w) (case_sum (\<lambda>(k, w). server_loop server_os junk 4 k w) ret))"
proof -
  let ?w = "\<lparr>to_server = [], to_client = [], open_fds = {3, 4}, hung_up = False, chunks = sizes, turns = schedule,
    process = Some 0\<rparr> :: u32 duo"
  have m: "msg_size st \<noteq> 0" using arguments_ok [OF assms(1)] by simp
  have buf: "0 < length read_buf" using assms(3) by (simp add: DEFAULT_BUF_SIZE_def)
  have "idle 0 ?w" by (simp add: idle_def)
  from client_loop_session [OF m buf this] obtain w1 where
    w1: "client_loop (traffic_os junk) 5 (msg_size st) (unat (iters st)) read_buf ?w = ret (True, w1)"
    "idle (iters st) w1" by fastforce
  obtain w2 where w2: "write_exact (traffic_os junk) 5 (Some (u32_bytes 0)) 4 4 False w1 = ret (4, w2)"
    "process w2 = Some (iters st)" "to_server w2 = u32_bytes 0" "to_client w2 = []"
    using w1(2) unfolding idle_def by (auto elim: client_asks)
  define w3 where "w3 = w2\<lparr>open_fds := open_fds w2 - {5}\<rparr>"
  have calls: "socket_call (traffic_os junk) ?w = (5, ?w)" "connect_call (traffic_os junk) 5 a p v = (0, v)"
    "gettimeofday_call (traffic_os junk) v = ((0, 0, 0), v)" "close_call (traffic_os junk) 5 w2 = w3" for a p v
    by (simp_all add: traffic_os_def server_os_def w3_def)
  obtain good address where ip: "inet_pton (the (server_ip st)) = (good, address)" "0 < good"
    using assms(2) by (metis prod.collapse)
  have client: "client_main (traffic_os junk) getopt strtoul inet_pton read_buf argv ?w = ret (0, Some 0, w3)"
    using ip(2) by (simp add: client_main_def assms(1) calls ip(1) w1(1) w2(1) Let_def)
  have "4 \<le> length (to_server w3)" using w2(3) by (simp add: w3_def)
  then obtain w4 where w4: "traffic_round server_os junk 4 (iters st) w3 = ret (Inr (Some (iters st), w4))"
    "to_server w4 = []" "to_client w4 = []"
    by (rule round_duo [where k = "iters st" and junk = junk]) (use w2 in \<open>simp add: w3_def\<close>)
  then have "server_loop server_os junk 4 (iters st) w3 = ret (Some (iters st), w4)"
    by (subst server_loop_rounds) simp
  then have "traffic_run junk getopt strtoul inet_pton read_buf argv sizes schedule = ret (0, Some 0, Some (iters st), w4)"
    using client w2(2) by (simp add: traffic_run_def w3_def)
  then show ?thesis using w4(2,3) by (intro conjI allI server_loop_rounds) blast
qed

theorem traffic_session_witness:
  "\<exists>elapsed w. traffic_run 7 (\<lambda>_. ([(CHR ''n'', ''3''), (CHR ''s'', ''10'')], [''10.0.0.1''])) (\<lambda>s. if s = ''3'' then 3 else 10)
     (\<lambda>_. (1, 0x0a000001)) (replicate DEFAULT_BUF_SIZE 0) [''client'', ''-n'', ''3'', ''-s'', ''10'', ''10.0.0.1''] [2, 1] [0, 5]
   = ret (0, Some elapsed, Some 3, w)"
proof -
  let ?st = "\<lparr>server_port = DEFAULT_SERVER_PORT, iters = 3, msg_size = 10, server_ip = Some ''10.0.0.1''\<rparr>"
  have "client_parse_args (\<lambda>_. ([(CHR ''n'', ''3''), (CHR ''s'', ''10'')], [''10.0.0.1''])) (\<lambda>s. if s = ''3'' then 3 else 10)
      [''client'', ''-n'', ''3'', ''-s'', ''10'', ''10.0.0.1''] = (True, ?st)"
    by (simp add: client_parse_args_def client_defaults_def)
  from traffic_session [OF this, of "\<lambda>_. (1, 0x0a000001)" "replicate DEFAULT_BUF_SIZE 0" 7 "[2, 1]" "[0, 5]"]
  show ?thesis by auto
qed

end
