(* ===== verification/Spec2Isabelle.thy ===== *)
theory Spec2Isabelle
  imports Crc Flow_Tracker Hook_Race Traffic_Gen Poll_Server Select_Server Regex_Vm Ipip Binary_Search Pointer_Chase Regex_Demos
    Interposers Small_Programs Mapped_Memory Netlink Signals Progress Echo_Session Traffic_Session
begin

text \<open>
  A verification development for the C and C++ programs of this repository, a collection of small, independent
  systems programs and Linux kernel modules.  Every theory models one program, or a few that share their
  code, and proves what makes it correct; where a program is wrong, a theorem says how.  This theory collects them.

  \<^bold>\<open>How the code is modelled.\<close>  C's unsigned integers are words of their width; signed ones are \<open>int\<close> with the checks
  and conversions written out (\<open>c_int\<close> faults on overflow, \<open>to_int\<close> truncates, \<open>size_t\<close> wraps).  A pointer
  into an array is an index, a pointer to a heap object an address in an explicit heap, \<open>NULL\<close> is \<open>None\<close>.
  An operation that can go wrong returns \<open>fault + 'a\<close>: a use after free, an access out of bounds, a \<open>NULL\<close> dereference,
  a signed overflow, a protection violation or a deadlock is a value, and that it does not happen is a theorem.  A program that may loop
  for ever is a \<open>partial_function\<close> into \<open>'a run = (fault + 'a) option\<close>, where \<open>None\<close> is a run that does not end; so every
  statement \<open>... = ret x\<close> includes termination, and no fuel or bound is used anywhere.  Code outside the repository - system
  calls, \<open>malloc\<close>, \<open>rand\<close>, the kernel's socket buffers, regular-expression libraries - is a parameter, usually a record
  of functions over an arbitrary world \<open>'w\<close>, and what is documented of it is a named predicate (\<open>posix\<close>,
  \<open>allocator\<close>, \<open>random_source\<close>, \<open>pcre_documented\<close>, \<open>in_place\<close>, ...); each is shown to be
  satisfiable on a concrete instance (\<open>linux\<close>, \<open>heap_malloc\<close>, \<open>demo_pcre\<close>, \<open>demo_ops\<close>, ...), on which the witnesses run.

  \<^bold>\<open>Shared theories.\<close>
  \<^item> \<open>C_Prelude\<close>: words, lists, faults and buffers, and the collections \<open>word_bits\<close> and \<open>loop_eqs\<close>.
  \<^item> \<open>Gf2\<close>: polynomials over GF(2) as bit lists, long division, and the shift register of a CRC.
  \<^item> \<open>Netfilter\<close>: what the kernel modules share, byte order, \<open>strncmp\<close> and verdicts.
  \<^item> \<open>Posix\<close>: runs, C integers, the system calls as a record \<open>os\<close>, the contract \<open>posix\<close> in terms of a view \<open>net\<close> (open
    descriptors, bytes sent and bytes to come), and kernels that satisfy it.
  \<^item> \<open>Libc\<close>: the locale \<open>allocator\<close> of a heap, random sources, and a concrete heap.

  \<^bold>\<open>Checksums\<close> (\<^verbatim>\<open>crc/\<close>).  \<open>Crc\<close> models table generation, the bitwise and the table-driven checksum and \<open>main\<close> of
  \<^verbatim>\<open>crc8.c\<close> and \<^verbatim>\<open>crc16.c\<close>.  Both checksums equal the remainder of polynomial division; CRC-16 detects every burst of up to 16 bits.

  \<^bold>\<open>Flow tracker\<close> (\<^verbatim>\<open>flow-tracker/\<close>).  \<open>Flow_Hash\<close>: the constant table of \<^verbatim>\<open>crc_table.h\<close>, shown to be the one
  \<^verbatim>\<open>crc16.c\<close> generates, and the hash.  \<open>Flow_Table\<close>: the hash table of \<^verbatim>\<open>flow_table.c\<close> with its heap and locks; the
  invariant \<open>table_ok\<close>, the abstraction to a map of flows, and the refinement of every operation, through the locale \<open>flow_store\<close>.
  \<open>Flow_Tracker\<close>: hooks, init and exit of \<^verbatim>\<open>main.c\<close>, against a specification per packet.  \<open>Flow_Race\<close>: concurrent inserts as
  interleaved steps; the structure survives, duplicates are possible.  \<open>Hook_Race\<close>: the outgoing hook on several processors at once, as
  a step relation \<open>hook_step\<close> whose configuration is the table, the heap and where each processor is in the hook; the table and
  the lock stay consistent over all configurations reached before a processor uses an entry that another has freed - it
  then stops as \<open>Crashed\<close>, and of what a real kernel does from there on nothing is said -, a processor that runs
  alone does what the sequential model says, and what the missing locks around \<open>search_table\<close> allow - a freed entry is
  used, an update is lost - is shown by runs.

  \<^bold>\<open>Tunnel\<close> (\<^verbatim>\<open>ipip/ipip_tcp.c\<close>).  \<open>Ipip\<close> models both hooks on the bytes of the packet, with pointers into a buffer that the
  kernel may move.  What goes out comes in again, unchanged but for the MSS of a SYN, which is lowered; an option of length zero hangs the hook; a
  moved buffer is read after it has been freed.

  \<^bold>\<open>Sockets.\<close>  \<open>Exact_Io\<close>: \<open>write_exact\<close>, \<open>read_exact\<close> (\<^verbatim>\<open>simple-traffic-gen/common.c\<close>), \<open>readn\<close>, \<open>writen\<close> (\<^verbatim>\<open>echo-server/unp.h\<close>),
  and the locales \<open>exact_writer\<close> and \<open>exact_reader\<close> that their clients rely on.  \<open>Traffic_Gen\<close>: server and client of
  \<^verbatim>\<open>simple-traffic-gen\<close>, every error path included.  \<open>Traffic_Session\<close> runs the whole client against the server's loop over one connection:
  every message arrives and both end well.  \<open>Echo_Server\<close>: \<^verbatim>\<open>echo-server\<close> with \<open>readline\<close>, the
  forking server and the client.  \<open>Event_Servers\<close>, \<open>Poll_Server\<close>, \<open>Select_Server\<close>: \<^verbatim>\<open>poll-echo-server\<close> and
  \<^verbatim>\<open>select-echo-server\<close> as step functions with an invariant over their reachable states; with few enough descriptors no round
  faults or leaks, every client that is served gets back exactly the bytes that were read from it, and a client is closed exactly
  when nothing could be read; without that limit both write out of bounds.  \<open>Echo_Session\<close> runs the client
  against each of the three servers over one connection, through the locale \<open>echo_server\<close> that all three interpret: while the client
  waits the server makes rounds of its own loop, which is shown to be nothing but these; the client prints what it was given and
  ends, and the server closes the connection.

  \<^bold>\<open>Netlink\<close> (\<^verbatim>\<open>netlink-latency/\<close>).  \<open>Netlink\<close> models the kernel module and the program, and both together: the request
  crosses over as the bytes of the message, the answer comes back to the sender, or never.

  \<^bold>\<open>Regular expressions.\<close>  \<open>Regex_Vm\<close>: the four matchers of \<^verbatim>\<open>regex-vm\<close> against the nondeterministic machine; Thompson's misses a match that
  ends with the subject; the one with a stack of 25 threads is exact on programs that never go back and have at most 25
  splits, and gives up on the program of \<open>main\<close> beyond that; on a well-formed program none of them ever faults.  \<open>Regex_Demos\<close>: \<^verbatim>\<open>pcredemo\<close>, \<^verbatim>\<open>re2demo\<close> (with \<open>msc_regexec_ex\<close>) and \<^verbatim>\<open>hyperscan-test\<close>.

  \<^bold>\<open>Arrays and memory.\<close>  \<open>Binary_Search\<close>: \<^verbatim>\<open>binary-search-prefetch\<close> with checked arithmetic and prefetched addresses.
  \<open>Pointer_Chase\<close>: \<^verbatim>\<open>mem-read-lat\<close>, its shuffle and the walk along the pointers.  \<open>Interposers\<close>: \<^verbatim>\<open>compile-interpose\<close>,
  \<^verbatim>\<open>link-interopse\<close>, \<^verbatim>\<open>run-interpose\<close> and \<^verbatim>\<open>rdma-monitor\<close>; a wrapped \<open>allocator\<close> is an \<open>allocator\<close>.  \<open>Small_Programs\<close>: the vector library of
  \<^verbatim>\<open>static-link\<close>, \<^verbatim>\<open>dynamic-link\<close> and \<^verbatim>\<open>runtime-link\<close>, \<^verbatim>\<open>cpu-cache-impact\<close>, \<^verbatim>\<open>print-binary\<close>, \<^verbatim>\<open>map-vector\<close>, \<^verbatim>\<open>kernel-random-number\<close> and
  \<^verbatim>\<open>kernel-mem-alloc\<close>.  \<open>Mapped_Memory\<close>: \<^verbatim>\<open>simple-jit-x64\<close>, which never writes to or runs a region that may not be, and
  \<^verbatim>\<open>mmap-stdout\<close>.

  \<^bold>\<open>Signals and numbers.\<close>  \<open>Signals\<close>: \<^verbatim>\<open>linux-signal\<close>, \<^verbatim>\<open>snooze\<close>, \<^verbatim>\<open>detect-jit\<close> and \<^verbatim>\<open>alignment_test\<close>.  \<open>Progress\<close>: the
  bar of \<^verbatim>\<open>progress\<close>, with the additions in \<open>double\<close> as rounded arithmetic on a significand and an exponent.

  \<^bold>\<open>Not modelled.\<close>  Text for people: usage messages and most of what is only printed for information (what a
  program computes and prints is part of its result).  Clocks and the averages computed from them in \<open>double\<close>.  Interrupts and
  preemption, except in \<open>Flow_Race\<close> and \<open>Hook_Race\<close>, whose steps are interleaved (a processor that sees writes of another out of order is not
  modelled); signals are the \<open>EINTR\<close> of a call, the handler \<open>sig_chld\<close> and the handlers of \<open>Signals\<close>, which
  run to completion.  The Python and Tcl programs are not part of the development.
\<close>

end
